(* ===== verification/Base.thy ===== *)
theory Base
  imports Main "HOL-Library.Word"
begin

text \<open>
  Shared vocabulary of the development: the Rust integer types at their width and the checked
  and saturating operations of the standard library. Byte strings and the contents of files are
  in Bytes, results and the state-passing combinators in Effects.

  The collections declared here are filled by the theories of the components:
  \<open>checked\<close> characterises the checked operations over \<open>nat\<close>, \<open>io_simps\<close> evaluates the
  combinators, \<open>pres\<close> holds the rules that show an operation keeps a predicate on the state.
\<close>

named_theorems checked "characterisations of checked machine arithmetic over nat"
named_theorems io_simps "evaluation of the state-passing combinators"
named_theorems pres "rules that show a computation preserves a predicate"

section \<open>Machine integers\<close>

text \<open>The target is 64-bit and little-endian, so \<open>usize\<close> is \<open>u64\<close>.\<close>

type_synonym u8 = "8 word"
type_synonym u16 = "16 word"
type_synonym u32 = "32 word"
type_synonym u64 = "64 word"

abbreviation u32_max :: u32 where "u32_max \<equiv> - 1"
abbreviation u64_max :: u64 where "u64_max \<equiv> - 1"

definition checked_add :: "'a::len word \<Rightarrow> 'a word \<Rightarrow> 'a word option" where
  "checked_add a b = (if uint a + uint b < 2 ^ LENGTH('a) then Some (a + b) else None)"

definition checked_sub :: "'a::len word \<Rightarrow> 'a word \<Rightarrow> 'a word option" where
  "checked_sub a b = (if b \<le> a then Some (a - b) else None)"

definition checked_mul :: "'a::len word \<Rightarrow> 'a word \<Rightarrow> 'a word option" where
  "checked_mul a b = (if uint a * uint b < 2 ^ LENGTH('a) then Some (a * b) else None)"

definition saturating_add :: "'a::len word \<Rightarrow> 'a word \<Rightarrow> 'a word" where
  "saturating_add a b = (if uint a + uint b < 2 ^ LENGTH('a) then a + b else - 1)"

definition saturating_sub :: "'a::len word \<Rightarrow> 'a word \<Rightarrow> 'a word" where
  "saturating_sub a b = (if b \<le> a then a - b else 0)"

text \<open>\<open>u32::try_from\<close> of a \<open>u64\<close>, and of a slice length.\<close>

definition u32_of_u64 :: "u64 \<Rightarrow> u32 option" where
  "u32_of_u64 a = (if uint a < 2 ^ 32 then Some (ucast a) else None)"

definition u32_of_len :: "nat \<Rightarrow> u32 option" where
  "u32_of_len n = (if int n < 2 ^ 32 then Some (word_of_int (int n)) else None)"

definition u64_of_len :: "nat \<Rightarrow> u64" where
  "u64_of_len n = word_of_int (int n)"

lemma unat_plus_fits:
  fixes a b :: "'a::len word"
  assumes "unat a + unat b < 2 ^ LENGTH('a)"
  shows "unat (a + b) = unat a + unat b"
  using assms by (simp add: unat_word_ariths)

lemma unat_times_fits:
  fixes a b :: "'a::len word"
  assumes "unat a * unat b < 2 ^ LENGTH('a)"
  shows "unat (a * b) = unat a * unat b"
  using assms by (simp add: unat_word_ariths)

lemma unat_minus_le:
  fixes a b :: "'a::len word"
  assumes "b \<le> a"
  shows "unat (a - b) = unat a - unat b"
  using assms by (simp add: unat_sub)

lemma int_less_pow2: "int n < 2 ^ k \<longleftrightarrow> n < 2 ^ k"
  by (metis of_nat_less_iff of_nat_numeral of_nat_power)

lemma uint_int_unat: "uint a = int (unat a)"
  by simp

lemma uint_add_fits_iff:
  fixes a b :: "'a::len word"
  shows "uint a + uint b < 2 ^ LENGTH('a) \<longleftrightarrow> unat a + unat b < 2 ^ LENGTH('a)"
  by (simp only: uint_int_unat flip: of_nat_add int_less_pow2)

lemma uint_mul_fits_iff:
  fixes a b :: "'a::len word"
  shows "uint a * uint b < 2 ^ LENGTH('a) \<longleftrightarrow> unat a * unat b < 2 ^ LENGTH('a)"
  by (simp only: uint_int_unat flip: of_nat_mult int_less_pow2)

lemma unat_lt_len: "unat (a :: 'a::len word) < 2 ^ LENGTH('a)"
  by (rule unsigned_less)

lemma unat_lt_64: "unat (a :: u64) < 2 ^ 64"
  using unat_lt_len [of a] by simp

lemma unat_lt_32: "unat (a :: u32) < 2 ^ 32"
  using unat_lt_len [of a] by simp

lemma unat_ucast_up_64 [simp]: "unat (ucast (a :: u32) :: u64) = unat a"
  by (simp add: unsigned_ucast_eq take_bit_nat_eq_self_iff less_trans [OF unat_lt_32])

lemma unat_ucast_down_32 [simp]:
  "unat a < 2 ^ 32 \<Longrightarrow> unat (ucast (a :: u64) :: u32) = unat a"
  by (simp add: unsigned_ucast_eq take_bit_nat_eq_self_iff)

lemma unat_max_word: "unat (- 1 :: 'a::len word) = 2 ^ LENGTH('a) - 1"
  by (simp add: unsigned_minus_1_eq_mask mask_eq_exp_minus_1)

lemma checked_add_Some [checked]:
  "checked_add (a :: 'a::len word) b = Some c \<longleftrightarrow>
     unat a + unat b < 2 ^ LENGTH('a) \<and> unat c = unat a + unat b"
  by (auto simp: checked_add_def uint_add_fits_iff unat_plus_fits unat_word_ariths
        intro: word_unat_eq_iff [THEN iffD2])

lemma checked_add_None [checked]:
  "checked_add (a :: 'a::len word) b = None \<longleftrightarrow> 2 ^ LENGTH('a) \<le> unat a + unat b"
  by (auto simp: checked_add_def uint_add_fits_iff not_less)

lemma checked_sub_Some [checked]:
  "checked_sub (a :: 'a::len word) b = Some c \<longleftrightarrow> unat b \<le> unat a \<and> unat c = unat a - unat b"
  by (auto simp: checked_sub_def word_le_nat_alt unat_minus_le unat_sub
        intro: word_unat_eq_iff [THEN iffD2])

lemma checked_sub_None [checked]:
  "checked_sub (a :: 'a::len word) b = None \<longleftrightarrow> unat a < unat b"
  by (auto simp: checked_sub_def word_le_nat_alt not_le)

lemma checked_mul_Some [checked]:
  "checked_mul (a :: 'a::len word) b = Some c \<longleftrightarrow>
     unat a * unat b < 2 ^ LENGTH('a) \<and> unat c = unat a * unat b"
  by (auto simp: checked_mul_def uint_mul_fits_iff unat_times_fits unat_word_ariths
        intro: word_unat_eq_iff [THEN iffD2])

lemma checked_mul_None [checked]:
  "checked_mul (a :: 'a::len word) b = None \<longleftrightarrow> 2 ^ LENGTH('a) \<le> unat a * unat b"
  by (auto simp: checked_mul_def uint_mul_fits_iff not_less)

lemma unat_saturating_sub [checked]:
  "unat (saturating_sub (a :: 'a::len word) b) = unat a - unat b"
  by (auto simp: saturating_sub_def unat_minus_le word_le_nat_alt unat_sub)

lemma unat_saturating_add [checked]:
  "unat (saturating_add (a :: 'a::len word) b) = min (unat a + unat b) (2 ^ LENGTH('a) - 1)"
proof (cases "unat a + unat b < 2 ^ LENGTH('a)")
  case True
  then show ?thesis
    by (simp add: saturating_add_def uint_add_fits_iff unat_plus_fits)
next
  case False
  then show ?thesis
    by (simp add: saturating_add_def uint_add_fits_iff unat_max_word)
qed

lemma u32_of_u64_Some [checked]:
  "u32_of_u64 a = Some b \<longleftrightarrow> unat a < 2 ^ 32 \<and> unat b = unat a"
  by (auto simp only: u32_of_u64_def uint_int_unat int_less_pow2 unat_ucast_down_32 option.inject
        split: if_splits intro: word_unat_eq_iff [THEN iffD2])

lemma u32_of_u64_None [checked]: "u32_of_u64 a = None \<longleftrightarrow> 2 ^ 32 \<le> unat a"
  by (simp only: u32_of_u64_def uint_int_unat int_less_pow2 not_less [symmetric]) simp

lemma u32_of_len_Some [checked]:
  "u32_of_len n = Some b \<longleftrightarrow> n < 2 ^ 32 \<and> unat b = n"
  by (auto simp: u32_of_len_def unat_of_nat take_bit_nat_eq_self_iff
        intro: word_unat_eq_iff [THEN iffD2])

lemma u32_of_len_None [checked]: "u32_of_len n = None \<longleftrightarrow> 2 ^ 32 \<le> n"
  by (auto simp: u32_of_len_def not_less)

lemma unat_u64_of_len [simp]: "n < 2 ^ 64 \<Longrightarrow> unat (u64_of_len n) = n"
  by (simp add: u64_of_len_def unat_of_nat take_bit_nat_eq_self_iff)

end
