(* ===== verification/Bytes.thy ===== *)
theory Bytes
  imports Base
begin

text \<open>
  Byte strings: the little-endian image of a machine word and its inverse, and the positional
  read and write of POSIX files on the list of a file's bytes. A write past the end of the file
  fills the gap with zero bytes; a read past the end returns fewer bytes than asked for.
\<close>

type_synonym bytes = "u8 list"

unbundle bit_operations_syntax

section \<open>Little-endian words\<close>

primrec le_bytes :: "nat \<Rightarrow> 'a::len word \<Rightarrow> bytes" where
  "le_bytes 0 w = []"
| "le_bytes (Suc n) w = ucast w # le_bytes n (drop_bit 8 w)"

primrec le_word :: "bytes \<Rightarrow> 'a::len word" where
  "le_word [] = 0"
| "le_word (b # bs) = ucast b OR push_bit 8 (le_word bs)"

definition to_le_bytes :: "'a::len word \<Rightarrow> bytes" where
  "to_le_bytes w = le_bytes (LENGTH('a) div 8) w"

definition from_le_bytes :: "bytes \<Rightarrow> 'a::len word" where
  "from_le_bytes bs = le_word bs"

text \<open>The same for big-endian order, which the keys of the imported database use.\<close>

definition to_be_bytes :: "'a::len word \<Rightarrow> bytes" where
  "to_be_bytes w = rev (to_le_bytes w)"

definition from_be_bytes :: "bytes \<Rightarrow> 'a::len word" where
  "from_be_bytes bs = from_le_bytes (rev bs)"

lemma le_bytes_numeral [simp]:
  "le_bytes (numeral k) w = ucast w # le_bytes (pred_numeral k) (drop_bit 8 w)"
  by (simp add: numeral_eq_Suc)

lemma length_le_bytes [simp]: "length (le_bytes n w) = n"
  by (induction n arbitrary: w) simp_all

lemma length_to_le_bytes [simp]: "length (to_le_bytes (w :: 'a::len word)) = LENGTH('a) div 8"
  by (simp add: to_le_bytes_def)

lemma low_byte_or:
  "8 \<le> LENGTH('a) \<Longrightarrow> ucast (ucast w :: u8) OR push_bit 8 (drop_bit 8 w) = (w :: 'a::len word)"
proof (rule bit_eqI)
  fix n assume "8 \<le> LENGTH('a)" and "possible_bit TYPE('a word) n"
  then show "bit (ucast (ucast w :: u8) OR push_bit 8 (drop_bit 8 w)) n = bit w n"
    by (cases "n < 8") (auto simp: bit_simps)
qed

lemma le_word_le_bytes:
  "8 \<le> LENGTH('a) \<Longrightarrow> drop_bit (8 * n) w = 0 \<Longrightarrow> le_word (le_bytes n w) = (w :: 'a::len word)"
proof (induction n arbitrary: w)
  case 0
  then show ?case by simp
next
  case (Suc n)
  have "drop_bit (8 * n) (drop_bit 8 w) = 0"
    using Suc.prems(2) by (simp add: add.commute)
  then have "le_word (le_bytes n (drop_bit 8 w)) = drop_bit 8 w"
    using Suc.IH Suc.prems(1) by blast
  then show ?case
    using low_byte_or [OF Suc.prems(1), of w] by simp
qed

lemma from_to_le_u64 [simp]: "from_le_bytes (to_le_bytes w) = (w :: u64)"
  by (simp only: from_le_bytes_def to_le_bytes_def, rule le_word_le_bytes)
     (simp_all add: drop_bit_eq_zero_iff_not_bit_last bit_eq_iff bit_simps)

lemma from_to_le_u32 [simp]: "from_le_bytes (to_le_bytes w) = (w :: u32)"
  by (simp only: from_le_bytes_def to_le_bytes_def, rule le_word_le_bytes)
     (simp_all add: bit_eq_iff bit_simps)

lemma from_to_le_u16 [simp]: "from_le_bytes (to_le_bytes w) = (w :: u16)"
  by (simp only: from_le_bytes_def to_le_bytes_def, rule le_word_le_bytes)
     (simp_all add: bit_eq_iff bit_simps)

lemma from_to_le_u128 [simp]: "from_le_bytes (to_le_bytes w) = (w :: 128 word)"
  by (simp only: from_le_bytes_def to_le_bytes_def, rule le_word_le_bytes)
     (simp_all add: bit_eq_iff bit_simps)

lemma le_bytes_inject:
  "LENGTH('a) \<le> 8 * n \<Longrightarrow> 8 \<le> LENGTH('a) \<Longrightarrow>
     le_bytes n (v :: 'a::len word) = le_bytes n w \<longleftrightarrow> v = w"
  using le_word_le_bytes [of n v] le_word_le_bytes [of n w]
  by (metis drop_bit_word_beyond)

lemma bit_le_word_bound: "bit (le_word bs :: 'a::len word) i \<Longrightarrow> i < 8 * length bs"
proof (induction bs arbitrary: i)
  case Nil
  then show ?case by simp
next
  case (Cons b bs)
  show ?case
  proof (cases "i < 8")
    case True
    then show ?thesis by simp
  next
    case False
    have "\<not> bit b i" using False bit_imp_le_length [of b i] by auto
    with Cons.prems False have "bit (le_word bs :: 'a word) (i - 8)"
      by (auto simp: bit_simps)
    then show ?thesis using Cons.IH [of "i - 8"] False by simp
  qed
qed

lemma le_bytes_le_word:
  "8 * length bs \<le> LENGTH('a) \<Longrightarrow> le_bytes (length bs) (le_word bs :: 'a::len word) = bs"
proof (induction bs)
  case Nil
  then show ?case by simp
next
  case (Cons b bs)
  let ?r = "le_word bs :: 'a word"
  have lo: "(ucast ((ucast b :: 'a word) OR push_bit 8 ?r) :: u8) = b"
    using Cons.prems by (intro bit_eqI) (auto simp: bit_simps)
  have "drop_bit 8 ((ucast b :: 'a word) OR push_bit 8 ?r) = ?r"
  proof (rule bit_eqI)
    fix n assume "possible_bit TYPE('a word) n"
    then have "n < LENGTH('a)" by simp
    have "\<not> bit b (n + 8)" using bit_imp_le_length [of b "n + 8"] by auto
    moreover have "n + 8 < LENGTH('a)" if "bit ?r n"
      using bit_le_word_bound [OF that] Cons.prems by simp
    ultimately show "bit (drop_bit 8 ((ucast b :: 'a word) OR push_bit 8 ?r)) n = bit ?r n"
      by (auto simp: bit_simps add.commute)
  qed
  with lo Cons show ?case by simp
qed

lemma to_from_le_bytes:
  "8 * length bs = LENGTH('a) \<Longrightarrow> to_le_bytes (from_le_bytes bs :: 'a::len word) = bs"
  using le_bytes_le_word [of bs, where 'a = 'a]
  by (simp add: to_le_bytes_def from_le_bytes_def) (metis nonzero_mult_div_cancel_left zero_neq_numeral)

lemma to_le_bytes_u64_inject [simp]: "to_le_bytes (a :: u64) = to_le_bytes b \<longleftrightarrow> a = b"
  by (metis from_to_le_u64)

lemma to_le_bytes_u32_inject [simp]: "to_le_bytes (a :: u32) = to_le_bytes b \<longleftrightarrow> a = b"
  by (metis from_to_le_u32)

lemma length_to_be_bytes [simp]: "length (to_be_bytes (w :: 'a::len word)) = LENGTH('a) div 8"
  by (simp add: to_be_bytes_def)

lemma from_to_be_u64 [simp]: "from_be_bytes (to_be_bytes w) = (w :: u64)"
  by (simp add: from_be_bytes_def to_be_bytes_def)

section \<open>Positional reads and writes\<close>

text \<open>
  \<open>pread\<close> is the data \<open>FileExt::read_at\<close> puts into a buffer of \<open>n\<close> bytes, \<open>pwrite\<close> the file
  after all of \<open>bs\<close> has been written at \<open>off\<close>.
\<close>

definition pread :: "bytes \<Rightarrow> nat \<Rightarrow> nat \<Rightarrow> bytes" where
  "pread f off n = take n (drop off f)"

definition pwrite :: "bytes \<Rightarrow> nat \<Rightarrow> bytes \<Rightarrow> bytes" where
  "pwrite f off bs =
     (if bs = [] then f
      else take off f @ replicate (off - length f) 0 @ bs @ drop (off + length bs) f)"

text \<open>The buffer \<open>buf\<close> after a read that delivered \<open>bs\<close> into its front.\<close>

definition fill_buf :: "bytes \<Rightarrow> bytes \<Rightarrow> bytes" where
  "fill_buf buf bs = bs @ drop (length bs) buf"

lemma replicate_numeral: "replicate (numeral k) x = x # replicate (pred_numeral k) x"
  by (simp add: numeral_eq_Suc)

lemma length_pread [simp]: "length (pread f off n) = min n (length f - off)"
  by (simp add: pread_def)

lemma length_pwrite:
  "length (pwrite f off bs) = (if bs = [] then length f else max (length f) (off + length bs))"
  by (auto simp: pwrite_def)

lemma pwrite_Nil [simp]: "pwrite f off [] = f"
  by (simp add: pwrite_def)

lemma pread_pwrite_same [simp]: "pread (pwrite f off bs) off (length bs) = bs"
  by (cases "off \<le> length f") (auto simp: pwrite_def pread_def min_def)

lemma pwrite_nth:
  "i < length (pwrite f off bs) \<Longrightarrow>
     pwrite f off bs ! i =
       (if off \<le> i \<and> i < off + length bs then bs ! (i - off)
        else if i < length f then f ! i else 0)"
  by (auto simp: pwrite_def nth_append min_def not_less split: if_splits)

lemma pread_nth: "i < length (pread f off n) \<Longrightarrow> pread f off n ! i = f ! (off + i)"
  by (auto simp: pread_def nth_drop)

text \<open>A read is undisturbed by a write that starts at or after its end.\<close>

lemma pread_pwrite_below:
  assumes "off + n \<le> length f" and "off + n \<le> o'"
  shows "pread (pwrite f o' bs) off n = pread f off n"
proof (rule nth_equalityI)
  show len: "length (pread (pwrite f o' bs) off n) = length (pread f off n)"
    using assms by (auto simp: length_pwrite)
  fix i assume i: "i < length (pread (pwrite f o' bs) off n)"
  have i': "i < length (pread f off n)" using i unfolding len .
  then have lt: "off + i < length f" and "off + i < o'" using assms by auto
  have "off + i < length (pwrite f o' bs)" using lt by (auto simp: length_pwrite)
  then show "pread (pwrite f o' bs) off n ! i = pread f off n ! i"
    using i i' lt \<open>off + i < o'\<close> by (simp add: pread_nth pwrite_nth del: length_pread)
qed

lemma pread_full_iff: "length (pread f off n) = n \<longleftrightarrow> n = 0 \<or> off + n \<le> length f"
  by (auto simp: min_def)

lemma take_pread: "take m (pread f off n) = pread f off (min m n)"
  by (simp add: pread_def min_def)

lemma drop_pread: "drop m (pread f off n) = pread f (off + m) (n - m)"
  by (simp add: pread_def drop_take add.commute)

lemma length_fill_buf [simp]: "length (fill_buf buf bs) = max (length buf) (length bs)"
  by (auto simp: fill_buf_def)

text \<open>
  A read into a zeroed buffer: the bytes of the file, continued with zeros past its end. It is
  undisturbed by any write outside its range, even one that extends the file.
\<close>

definition zread :: "bytes \<Rightarrow> nat \<Rightarrow> nat \<Rightarrow> bytes" where
  "zread f off n = map (\<lambda>i. if off + i < length f then f ! (off + i) else 0) [0..<n]"

lemma length_zread [simp]: "length (zread f off n) = n"
  by (simp add: zread_def)

lemma fill_zeros: "fill_buf (replicate n 0) (pread f off n) = zread f off n"
  by (rule nth_equalityI)
     (auto simp: fill_buf_def zread_def pread_nth nth_append simp del: length_pread, auto)

lemma zread_pwrite_same: "length bs = n \<Longrightarrow> zread (pwrite f off bs) off n = bs"
  by (rule nth_equalityI) (auto simp: zread_def pwrite_nth length_pwrite)

lemma zread_pwrite_other:
  assumes "o' + length bs \<le> off \<or> off + n \<le> o'"
  shows "zread (pwrite f o' bs) off n = zread f off n"
  using assms by (intro nth_equalityI) (auto simp: zread_def pwrite_nth length_pwrite split: if_splits)

end
