(* ===== verification/Effects.thy ===== *)
theory Effects
  imports Base
begin

text \<open>
  Results and effects. A Rust function that returns \<open>Result<T, Error>\<close> and acts on shared state
  is a function from the state to a result and the new state. A panic is a result of its own,
  since no caller in the library catches it; only the foreign-function boundary does.
\<close>

section \<open>Errors and results\<close>

text \<open>
  The \<open>ErrorKind\<close>s the library constructs itself, and \<open>OtherKind\<close> with a code for whatever
  else the operating system reports.
\<close>

datatype error_kind =
  InvalidInput | InvalidData | UnexpectedEof | WouldBlock | NotFound | OtherKind nat

datatype err = Error (kind: error_kind) (message: string)

datatype 'a res = Ok 'a | Err err | Panic string

type_synonym ('s, 'a) io = "'s \<Rightarrow> 'a res \<times> 's"

fun is_ok :: "'a res \<Rightarrow> bool" where
  "is_ok (Ok a) = True"
| "is_ok (Err e) = False"
| "is_ok (Panic m) = False"

fun err_kind :: "'a res \<Rightarrow> error_kind option" where
  "err_kind (Err e) = Some (kind e)"
| "err_kind (Ok a) = None"
| "err_kind (Panic m) = None"

section \<open>Combinators\<close>

definition ret :: "'a \<Rightarrow> ('s, 'a) io" where
  "ret a s = (Ok a, s)"

definition fail :: "error_kind \<Rightarrow> string \<Rightarrow> ('s, 'a) io" where
  "fail k m s = (Err (Error k m), s)"

definition panic :: "string \<Rightarrow> ('s, 'a) io" where
  "panic m s = (Panic m, s)"

text \<open>\<open>io_bind m f\<close> is \<open>let a = m?; f(a)\<close>.\<close>

definition io_bind :: "('s, 'a) io \<Rightarrow> ('a \<Rightarrow> ('s, 'b) io) \<Rightarrow> ('s, 'b) io" where
  "io_bind m f s =
     (case m s of
        (Ok a, t) \<Rightarrow> f a t
      | (Err e, t) \<Rightarrow> (Err e, t)
      | (Panic p, t) \<Rightarrow> (Panic p, t))"

definition gets :: "('s \<Rightarrow> 'a) \<Rightarrow> ('s, 'a) io" where
  "gets f s = (Ok (f s), s)"

definition modify :: "('s \<Rightarrow> 's) \<Rightarrow> ('s, unit) io" where
  "modify f s = (Ok (), f s)"

text \<open>\<open>opt.ok_or_else(\<dots>)?\<close> and \<open>opt.expect(\<dots>)\<close>.\<close>

definition ok_or :: "'a option \<Rightarrow> error_kind \<Rightarrow> string \<Rightarrow> ('s, 'a) io" where
  "ok_or x k m = (case x of None \<Rightarrow> fail k m | Some a \<Rightarrow> ret a)"

definition expect :: "'a option \<Rightarrow> string \<Rightarrow> ('s, 'a) io" where
  "expect x m = (case x of None \<Rightarrow> panic m | Some a \<Rightarrow> ret a)"

text \<open>A pure result used where the code writes \<open>f(x)?\<close>.\<close>

definition lift_res :: "'a res \<Rightarrow> ('s, 'a) io" where
  "lift_res r s = (r, s)"

text \<open>
  \<open>on_err m h\<close> runs \<open>m\<close>, and when it returned an error runs the effect \<open>h\<close> and returns the
  same error: \<open>if let Err(e) = m { h; return Err(e) }\<close>.
\<close>

definition on_err :: "('s, 'a) io \<Rightarrow> ('s \<Rightarrow> 's) \<Rightarrow> ('s, 'a) io" where
  "on_err m h s =
     (case m s of
        (Ok a, t) \<Rightarrow> (Ok a, t)
      | (Err e, t) \<Rightarrow> (Err e, h t)
      | (Panic p, t) \<Rightarrow> (Panic p, t))"

lemma ret_eq [io_simps]: "ret a s = (Ok a, s)"
  and fail_eq [io_simps]: "fail k m s = (Err (Error k m), s)"
  and panic_eq [io_simps]: "panic m s = (Panic m, s)"
  and gets_eq [io_simps]: "gets f s = (Ok (f s), s)"
  and modify_eq [io_simps]: "modify g s = (Ok (), g s)"
  and lift_res_eq [io_simps]: "lift_res r s = (r, s)"
  by (simp_all add: ret_def fail_def panic_def gets_def modify_def lift_res_def)

lemma ok_or_eqs [io_simps]:
  "ok_or None k m = fail k m" "ok_or (Some a) k m = ret a"
  by (simp_all add: ok_or_def)

lemma expect_eqs [io_simps]:
  "expect None m = panic m" "expect (Some a) m = ret a"
  by (simp_all add: expect_def)

lemma io_bind_evals:
  "m s = (Ok a, t) \<Longrightarrow> io_bind m f s = f a t"
  "m s = (Err e, t) \<Longrightarrow> io_bind m f s = (Err e, t)"
  "m s = (Panic p, t) \<Longrightarrow> io_bind m f s = (Panic p, t)"
  by (simp_all add: io_bind_def)

lemma io_bind_ret [io_simps]: "io_bind (ret a) f s = f a s"
  by (simp add: io_bind_def io_simps)

lemma io_bind_gets [io_simps]: "io_bind (gets g) f s = f (g s) s"
  by (simp add: io_bind_def io_simps)

lemma io_bind_modify [io_simps]: "io_bind (modify h) f s = f () (h s)"
  by (simp add: io_bind_def io_simps)

lemma io_bind_fail [io_simps]: "io_bind (fail k m) f s = (Err (Error k m), s)"
  by (simp add: io_bind_def io_simps)

lemma io_bind_panic [io_simps]: "io_bind (panic m) f s = (Panic m, s)"
  by (simp add: io_bind_def io_simps)

lemma io_bind_lift [io_simps]:
  "io_bind (lift_res r) f s =
     (case r of Ok a \<Rightarrow> f a s | Err e \<Rightarrow> (Err e, s) | Panic p \<Rightarrow> (Panic p, s))"
  by (simp add: io_bind_def io_simps)

lemma io_bind_Ok_iff:
  "io_bind m f s = (Ok b, u) \<longleftrightarrow> (\<exists>a t. m s = (Ok a, t) \<and> f a t = (Ok b, u))"
  by (auto simp: io_bind_def split: prod.splits res.splits)

lemma io_bind_Err_iff:
  "io_bind m f s = (Err e, u) \<longleftrightarrow>
     m s = (Err e, u) \<or> (\<exists>a t. m s = (Ok a, t) \<and> f a t = (Err e, u))"
  by (auto simp: io_bind_def split: prod.splits res.splits)

lemma io_bind_OkE:
  assumes "io_bind m f s = (Ok b, u)"
  obtains a t where "m s = (Ok a, t)" "f a t = (Ok b, u)"
  using assms by (auto simp: io_bind_Ok_iff)

lemma io_bind_cong:
  "m s = m' s' \<Longrightarrow> (\<And>a t. m' s' = (Ok a, t) \<Longrightarrow> f a t = g a t) \<Longrightarrow>
     io_bind m f s = io_bind m' g s'"
  by (auto simp: io_bind_def split: prod.splits res.splits)

lemma ok_or_Ok_iff: "ok_or x k m s = (Ok a, t) \<longleftrightarrow> x = Some a \<and> t = s"
  by (auto simp: ok_or_def io_simps split: option.splits)

lemma expect_Ok_iff: "expect x m s = (Ok a, t) \<longleftrightarrow> x = Some a \<and> t = s"
  by (auto simp: expect_def io_simps split: option.splits)

lemma on_err_Ok_iff: "on_err m h s = (Ok a, t) \<longleftrightarrow> m s = (Ok a, t)"
  by (auto simp: on_err_def split: prod.splits res.splits)

section \<open>Preserved predicates\<close>

text \<open>
  \<open>preserves P m\<close>: whatever \<open>m\<close> returns, a state with \<open>P\<close> is left in a state with \<open>P\<close>. With
  \<open>P\<close> an equation on a field it is a frame property.
\<close>

definition preserves :: "('s \<Rightarrow> bool) \<Rightarrow> ('s, 'a) io \<Rightarrow> bool" where
  "preserves P m \<longleftrightarrow> (\<forall>s. P s \<longrightarrow> P (snd (m s)))"

lemma preservesI: "(\<And>s. P s \<Longrightarrow> P (snd (m s))) \<Longrightarrow> preserves P m"
  by (simp add: preserves_def)

lemma preservesD: "preserves P m \<Longrightarrow> P s \<Longrightarrow> m s = (r, t) \<Longrightarrow> P t"
  by (force simp: preserves_def)

lemma preserves_ret [pres]: "preserves P (ret a)"
  and preserves_fail [pres]: "preserves P (fail k m)"
  and preserves_panic [pres]: "preserves P (panic m)"
  and preserves_gets [pres]: "preserves P (gets f)"
  and preserves_lift_res [pres]: "preserves P (lift_res r)"
  by (simp_all add: preserves_def io_simps)

lemma preserves_ok_or [pres]: "preserves P (ok_or x k m)"
  by (simp add: ok_or_def preserves_ret preserves_fail split: option.split)

lemma preserves_expect [pres]: "preserves P (expect x m)"
  by (simp add: expect_def preserves_ret preserves_panic split: option.split)

lemma preserves_modify [pres]: "(\<And>s. P s \<Longrightarrow> P (h s)) \<Longrightarrow> preserves P (modify h)"
  by (simp add: preserves_def io_simps)

lemma preserves_bind [pres]:
  "preserves P m \<Longrightarrow> (\<And>a. preserves P (f a)) \<Longrightarrow> preserves P (io_bind m f)"
  unfolding preserves_def io_bind_def
  by (auto split: prod.splits res.splits)

lemma preserves_on_err [pres]:
  "preserves P m \<Longrightarrow> (\<And>s. P s \<Longrightarrow> P (h s)) \<Longrightarrow> preserves P (on_err m h)"
  unfolding preserves_def on_err_def
  by (auto split: prod.splits res.splits)

lemma preserves_if [pres]:
  "(b \<Longrightarrow> preserves P m) \<Longrightarrow> (\<not> b \<Longrightarrow> preserves P n) \<Longrightarrow> preserves P (if b then m else n)"
  by simp

lemma preserves_case_option [pres]:
  "preserves P m \<Longrightarrow> (\<And>a. x = Some a \<Longrightarrow> preserves P (f a)) \<Longrightarrow>
     preserves P (case x of None \<Rightarrow> m | Some a \<Rightarrow> f a)"
  by (cases x) simp_all

lemma preserves_case_prod [pres]:
  "(\<And>a b. x = (a, b) \<Longrightarrow> preserves P (f a b)) \<Longrightarrow> preserves P (case x of (a, b) \<Rightarrow> f a b)"
  by (cases x) simp

lemma preserves_let [pres]: "preserves P (f x) \<Longrightarrow> preserves P (let y = x in f y)"
  by simp

section \<open>Decimal numerals\<close>

text \<open>The \<open>Display\<close> image of an unsigned integer.\<close>

definition digit_char :: "nat \<Rightarrow> char" where
  "digit_char d = char_of (48 + d)"

fun dec :: "nat \<Rightarrow> string" where
  "dec n = (if n < 10 then [digit_char n] else dec (n div 10) @ [digit_char (n mod 10)])"

declare dec.simps [simp del]

end
