(* ===== verification/Disk.thy ===== *)
theory Disk
  imports Bytes Effects "HOL-Library.AList"
begin

text \<open>
  The operating system as the store sees it: the index file, the directory of data files, the
  advisory locks, the open file descriptors and the calls on them that \<open>store.rs\<close> and
  \<open>file_set.rs\<close> make.

  Every call may fail. The script \<open>faults\<close> says how the next calls end: an exhausted script
  means that every further call succeeds, \<open>Fault e k\<close> that the call fails with \<open>e\<close>, a write
  having put its first \<open>k\<close> bytes down before. \<open>io_log\<close> records, newest first, the writes and
  syncs that reached the files; no operation reads it.

  The index and the data directory may be the same directory; the index name is never the name
  of a data file (\<open>FileSet.index_name_is_not_a_data_file\<close>), so the two are kept apart here.
\<close>

section \<open>State\<close>

datatype file_id = IndexFile | DataFile string

datatype dirent = RegFile bytes | SubDir

datatype fault = NoFault | Fault err nat

datatype io_event = EvWrite file_id nat bytes | EvSync file_id

record handle =
  fd :: nat
  hfile :: file_id

record world =
  idx_file :: "bytes option"
  data_dir :: "(string \<times> dirent) list"
  locks :: "(file_id \<times> nat) list"
  next_fd :: nat
  faults :: "fault list"
  io_log :: "io_event list"

definition bytes_of :: "'z world_scheme \<Rightarrow> file_id \<Rightarrow> bytes" where
  "bytes_of w f =
     (case f of
        IndexFile \<Rightarrow> (case idx_file w of None \<Rightarrow> [] | Some b \<Rightarrow> b)
      | DataFile n \<Rightarrow> (case map_of (data_dir w) n of Some (RegFile b) \<Rightarrow> b | _ \<Rightarrow> []))"

definition put_bytes :: "file_id \<Rightarrow> bytes \<Rightarrow> 'z world_scheme \<Rightarrow> 'z world_scheme" where
  "put_bytes f b w =
     (case f of
        IndexFile \<Rightarrow> w\<lparr>idx_file := Some b\<rparr>
      | DataFile n \<Rightarrow> w\<lparr>data_dir := AList.update n (RegFile b) (data_dir w)\<rparr>)"

definition is_file :: "'z world_scheme \<Rightarrow> file_id \<Rightarrow> bool" where
  "is_file w f =
     (case f of
        IndexFile \<Rightarrow> idx_file w \<noteq> None
      | DataFile n \<Rightarrow> (case map_of (data_dir w) n of Some (RegFile b) \<Rightarrow> True | _ \<Rightarrow> False))"

definition is_dir :: "'z world_scheme \<Rightarrow> file_id \<Rightarrow> bool" where
  "is_dir w f =
     (case f of IndexFile \<Rightarrow> False | DataFile n \<Rightarrow> map_of (data_dir w) n = Some SubDir)"

section \<open>System calls\<close>

definition next_fault :: "'z world_scheme \<Rightarrow> fault \<times> 'z world_scheme" where
  "next_fault w = (case faults w of [] \<Rightarrow> (NoFault, w) | f # fs \<Rightarrow> (f, w\<lparr>faults := fs\<rparr>))"

text \<open>\<open>syscall part act\<close>: \<open>act\<close>, unless the script says the call fails after \<open>part k\<close>.\<close>

definition syscall ::
  "(nat \<Rightarrow> 'z world_scheme \<Rightarrow> 'z world_scheme) \<Rightarrow> ('z world_scheme, 'a) io \<Rightarrow>
     ('z world_scheme, 'a) io" where
  "syscall part act w =
     (case next_fault w of
        (NoFault, v) \<Rightarrow> act v
      | (Fault e k, v) \<Rightarrow> (Err e, part k v))"

definition log_write :: "file_id \<Rightarrow> nat \<Rightarrow> bytes \<Rightarrow> 'z world_scheme \<Rightarrow> 'z world_scheme" where
  "log_write f off bs w =
     (if bs = [] then w
      else (put_bytes f (pwrite (bytes_of w f) off bs) w)\<lparr>io_log := EvWrite f off bs # io_log w\<rparr>)"

text \<open>\<open>FileExt::write_all_at\<close>, \<open>read_at\<close>, \<open>read_exact_at\<close> and \<open>File::sync_all\<close>.\<close>

definition write_all_at :: "file_id \<Rightarrow> bytes \<Rightarrow> u64 \<Rightarrow> ('z world_scheme, unit) io" where
  "write_all_at f bs off =
     syscall (\<lambda>k. log_write f (unat off) (take k bs))
             (\<lambda>w. (Ok (), log_write f (unat off) bs w))"

definition read_at :: "file_id \<Rightarrow> nat \<Rightarrow> u64 \<Rightarrow> ('z world_scheme, bytes) io" where
  "read_at f n off =
     syscall (\<lambda>k w. w) (\<lambda>w. (Ok (pread (bytes_of w f) (unat off) n), w))"

definition read_exact_at :: "file_id \<Rightarrow> nat \<Rightarrow> u64 \<Rightarrow> ('z world_scheme, bytes) io" where
  "read_exact_at f n off =
     io_bind (read_at f n off) (\<lambda>bs.
       if length bs = n then ret bs
       else fail UnexpectedEof ''failed to fill whole buffer'')"

definition sync_all :: "file_id \<Rightarrow> ('z world_scheme, unit) io" where
  "sync_all f = syscall (\<lambda>k w. w) (\<lambda>w. (Ok (), w\<lparr>io_log := EvSync f # io_log w\<rparr>))"

text \<open>
  \<open>OpenOptions\<close> with \<open>read\<close> and \<open>write\<close>, and \<open>create\<close> and \<open>truncate\<close> as given. Truncation
  happens in the call itself, before anything else can be asked of the file.
\<close>

definition open_file :: "file_id \<Rightarrow> bool \<Rightarrow> bool \<Rightarrow> ('z world_scheme, handle) io" where
  "open_file f create trunc =
     syscall (\<lambda>k w. w) (\<lambda>w.
       if is_dir w f then (Err (Error (OtherKind 21) ''Is a directory''), w)
       else if \<not> is_file w f \<and> \<not> create
         then (Err (Error NotFound ''No such file or directory''), w)
       else
         (let v = (if \<not> is_file w f \<or> trunc then put_bytes f [] w else w)
          in (Ok \<lparr>fd = next_fd v, hfile = f\<rparr>, v\<lparr>next_fd := Suc (next_fd v)\<rparr>)))"

text \<open>\<open>File::try_lock\<close>: fails while another descriptor holds the lock on the same file.\<close>

definition try_lock :: "handle \<Rightarrow> string \<Rightarrow> ('z world_scheme, unit) io" where
  "try_lock h msg =
     (\<lambda>w. case next_fault w of
            (Fault e k, v) \<Rightarrow> (Err (Error WouldBlock msg), v)
          | (NoFault, v) \<Rightarrow>
              if hfile h \<in> fst ` set (locks v) then (Err (Error WouldBlock msg), v)
              else (Ok (), v\<lparr>locks := (hfile h, fd h) # locks v\<rparr>))"

text \<open>Dropping the last reference to a \<open>File\<close> closes it and gives its lock back.\<close>

definition close_fd :: "nat \<Rightarrow> 'z world_scheme \<Rightarrow> 'z world_scheme" where
  "close_fd n w = w\<lparr>locks := filter (\<lambda>(f, m). m \<noteq> n) (locks w)\<rparr>"

definition close_handles :: "handle list \<Rightarrow> 'z world_scheme \<Rightarrow> 'z world_scheme" where
  "close_handles hs w = fold (\<lambda>h. close_fd (fd h)) hs w"

text \<open>\<open>fs::read_dir\<close>, \<open>DirEntry::metadata\<close> and \<open>fs::remove_file\<close> on the data directory.\<close>

definition read_dir :: "('z world_scheme, (string \<times> dirent) list) io" where
  "read_dir = syscall (\<lambda>k w. w) (gets data_dir)"

definition metadata_len :: "bytes \<Rightarrow> ('z world_scheme, u64) io" where
  "metadata_len b = syscall (\<lambda>k w. w) (ret (u64_of_len (length b)))"

definition remove_file :: "string \<Rightarrow> ('z world_scheme, unit) io" where
  "remove_file n = syscall (\<lambda>k w. w) (modify (data_dir_update (AList.delete n)))"

section \<open>Laws\<close>

lemma bytes_of_put [simp]: "bytes_of (put_bytes f b w) g = (if g = f then b else bytes_of w g)"
  by (auto simp: bytes_of_def put_bytes_def update_conv split: file_id.splits)

lemma is_file_put [simp]: "is_file (put_bytes f b w) g \<longleftrightarrow> g = f \<or> is_file w g"
  by (auto simp: is_file_def put_bytes_def update_conv split: file_id.splits)

lemma is_dir_put: "is_dir (put_bytes f b w) g \<longleftrightarrow> g \<noteq> f \<and> is_dir w g"
  by (auto simp: is_dir_def put_bytes_def update_conv split: file_id.splits)

lemma put_bytes_fields [simp]:
  "locks (put_bytes f b w) = locks w" "next_fd (put_bytes f b w) = next_fd w"
  "faults (put_bytes f b w) = faults w" "io_log (put_bytes f b w) = io_log w"
  "world.more (put_bytes f b w) = world.more w"
  by (simp_all add: put_bytes_def split: file_id.splits)

lemma bytes_of_update [simp]:
  "bytes_of (locks_update l w) f = bytes_of w f"
  "bytes_of (next_fd_update n w) f = bytes_of w f"
  "bytes_of (faults_update g w) f = bytes_of w f"
  "bytes_of (io_log_update e w) f = bytes_of w f"
  "bytes_of (world.more_update m w) f = bytes_of w f"
  by (simp_all add: bytes_of_def split: file_id.splits)

lemma is_file_update [simp]:
  "is_file (locks_update l w) f = is_file w f"
  "is_file (next_fd_update n w) f = is_file w f"
  "is_file (faults_update g w) f = is_file w f"
  "is_file (io_log_update e w) f = is_file w f"
  "is_file (world.more_update m w) f = is_file w f"
  by (simp_all add: is_file_def split: file_id.splits)

lemma bytes_of_log_write [simp]:
  "bytes_of (log_write f off bs w) g =
     (if g = f then pwrite (bytes_of w f) off bs else bytes_of w g)"
  by (simp add: log_write_def)

lemma is_file_log_write: "is_file w g \<Longrightarrow> is_file (log_write f off bs w) g"
  by (simp add: log_write_def)

lemma log_write_fields [simp]:
  "locks (log_write f off bs w) = locks w" "next_fd (log_write f off bs w) = next_fd w"
  "faults (log_write f off bs w) = faults w" "world.more (log_write f off bs w) = world.more w"
  by (simp_all add: log_write_def)

lemma next_fault_more [simp]: "next_fault w = (g, v) \<Longrightarrow> world.more v = world.more w"
  by (auto simp: next_fault_def split: list.splits)

text \<open>With an empty script every call succeeds.\<close>

lemma next_fault_none [simp]: "faults w = [] \<Longrightarrow> next_fault w = (NoFault, w)"
  by (simp add: next_fault_def)

lemma syscall_none [simp]: "faults w = [] \<Longrightarrow> syscall part act w = act w"
  by (simp add: syscall_def)

lemma write_all_at_none [simp]:
  "faults w = [] \<Longrightarrow> write_all_at f bs off w = (Ok (), log_write f (unat off) bs w)"
  by (simp add: write_all_at_def)

lemma read_at_none [simp]:
  "faults w = [] \<Longrightarrow> read_at f n off w = (Ok (pread (bytes_of w f) (unat off) n), w)"
  by (simp add: read_at_def)

lemma read_exact_at_none:
  "faults w = [] \<Longrightarrow> n = 0 \<or> unat off + n \<le> length (bytes_of w f) \<Longrightarrow>
     read_exact_at f n off w = (Ok (pread (bytes_of w f) (unat off) n), w)"
  by (auto simp: read_exact_at_def io_bind_def io_simps)

lemma sync_all_none [simp]:
  "faults w = [] \<Longrightarrow> sync_all f w = (Ok (), w\<lparr>io_log := EvSync f # io_log w\<rparr>)"
  by (simp add: sync_all_def)

text \<open>Whatever the script, a call that returns \<open>Ok\<close> had its whole effect.\<close>

lemma next_fault_state:
  assumes "next_fault w = (g, v)"
  shows "\<exists>fs. v = w\<lparr>faults := fs\<rparr>"
proof (cases "faults w")
  case Nil
  have "w\<lparr>faults := faults w\<rparr> = w" by simp
  with Nil assms show ?thesis by (metis next_fault_none prod.inject)
next
  case (Cons f fs)
  with assms show ?thesis by (auto simp: next_fault_def)
qed

lemma syscallE:
  assumes "syscall part act w = (r, v)"
  obtains (run) fs where "act (w\<lparr>faults := fs\<rparr>) = (r, v)"
    | (fault) e k fs where "r = Err e" "v = part k (w\<lparr>faults := fs\<rparr>)"
proof -
  obtain g u where n: "next_fault w = (g, u)" by fastforce
  with next_fault_state obtain fs where "u = w\<lparr>faults := fs\<rparr>" by blast
  with n assms show ?thesis
    by (cases g) (auto simp: syscall_def intro: run fault)
qed

lemma syscall_OkE:
  assumes "syscall part act w = (Ok a, v)"
  obtains fs where "act (w\<lparr>faults := fs\<rparr>) = (Ok a, v)"
  using assms by (auto elim: syscallE)

lemma read_at_OkE:
  assumes "read_at f n off w = (Ok bs, v)"
  obtains fs where "v = w\<lparr>faults := fs\<rparr>" "bs = pread (bytes_of w f) (unat off) n"
  using assms by (auto simp: read_at_def elim: syscall_OkE)

lemma read_at_state:
  "read_at f n off w = (r, v) \<Longrightarrow> \<exists>fs. v = w\<lparr>faults := fs\<rparr>"
  by (auto simp: read_at_def elim!: syscallE)

lemma read_exact_at_OkE:
  assumes "read_exact_at f n off w = (Ok bs, v)"
  obtains fs where "v = w\<lparr>faults := fs\<rparr>" "bs = pread (bytes_of w f) (unat off) n" "length bs = n"
proof -
  from assms have "read_at f n off w = (Ok bs, v)" "length bs = n"
    by (auto simp: read_exact_at_def io_bind_Ok_iff io_simps split: if_splits)
  then show ?thesis by (auto intro: that elim: read_at_OkE)
qed

lemma read_exact_at_state:
  "read_exact_at f n off w = (r, v) \<Longrightarrow> \<exists>fs. v = w\<lparr>faults := fs\<rparr>"
  by (auto simp: read_exact_at_def io_bind_def io_simps
      split: if_splits prod.splits res.splits dest!: read_at_state)

lemma write_all_at_OkE:
  assumes "write_all_at f bs off w = (Ok u, v)"
  obtains fs where "v = log_write f (unat off) bs (w\<lparr>faults := fs\<rparr>)"
  using assms by (auto simp: write_all_at_def elim: syscall_OkE)

lemma write_all_at_state:
  assumes "write_all_at f bs off w = (r, v)"
  shows "\<exists>fs k. v = log_write f (unat off) (take k bs) (w\<lparr>faults := fs\<rparr>)"
  using assms unfolding write_all_at_def
proof (cases rule: syscallE)
  case (run fs)
  then have "v = log_write f (unat off) (take (length bs) bs) (w\<lparr>faults := fs\<rparr>)" by simp
  then show ?thesis by blast
next
  case fault
  then show ?thesis by blast
qed

lemma sync_all_OkE:
  assumes "sync_all f w = (Ok u, v)"
  obtains fs where "v = w\<lparr>faults := fs, io_log := EvSync f # io_log w\<rparr>"
  using assms by (auto simp: sync_all_def elim: syscall_OkE)

end
