(* ===== verification/FileSet.thy ===== *)
theory FileSet
  imports Disk "HOL-Library.RBT"
begin

text \<open>
  The data files of \<open>file_set.rs\<close>: their names, the translation of a global offset to a file and
  an offset in it, the bounded cache of open handles with its eviction order, opening with an
  advisory lock, the listing of the directory and the validation of what it lists.

  \<open>Option<NonZeroU64>\<close> is \<open>u64 option\<close>; that it never holds \<open>Some 0\<close> is the invariant
  \<open>cap_ok\<close> of the file set, established by \<open>Store::open\<close>.
\<close>

section \<open>File names\<close>

definition DATA_FILE_PREFIX :: string where
  "DATA_FILE_PREFIX = ''blockdb_''"

definition DATA_FILE_SUFFIX :: string where
  "DATA_FILE_SUFFIX = ''.dat''"

definition data_file_name :: "u32 \<Rightarrow> string" where
  "data_file_name index = DATA_FILE_PREFIX @ dec (unat index) @ DATA_FILE_SUFFIX"

text \<open>The name of the index file, \<open>Store::INDEX_FILE_NAME\<close>.\<close>

definition INDEX_FILE_NAME :: string where
  "INDEX_FILE_NAME = ''blockdb.idx''"

definition strip_prefix :: "string \<Rightarrow> string \<Rightarrow> string option" where
  "strip_prefix p s = (if take (length p) s = p then Some (drop (length p) s) else None)"

definition strip_suffix :: "string \<Rightarrow> string \<Rightarrow> string option" where
  "strip_suffix p s =
     (if drop (length s - length p) s = p then Some (take (length s - length p) s) else None)"

text \<open>\<open>str::parse::<u32>\<close>: an optional plus sign, then at least one digit, no overflow.\<close>

fun digits_val :: "nat \<Rightarrow> string \<Rightarrow> nat option" where
  "digits_val acc [] = Some acc"
| "digits_val acc (c # cs) =
     (let d = of_char c :: nat
      in if 48 \<le> d \<and> d \<le> 57 then digits_val (10 * acc + (d - 48)) cs else None)"

definition parse_u32 :: "string \<Rightarrow> u32 option" where
  "parse_u32 s =
     (case s of
        [] \<Rightarrow> None
      | c # cs \<Rightarrow>
          (let ds = (if c = CHR ''+'' then cs else s)
           in if ds = [] then None
              else (case digits_val 0 ds of None \<Rightarrow> None | Some n \<Rightarrow> u32_of_len n)))"

definition parse_data_file_index :: "string \<Rightarrow> u32 option" where
  "parse_data_file_index name =
     (case strip_prefix DATA_FILE_PREFIX name of
        None \<Rightarrow> None
      | Some rest \<Rightarrow>
          (case strip_suffix DATA_FILE_SUFFIX rest of
             None \<Rightarrow> None
           | Some digits \<Rightarrow> parse_u32 digits))"

definition path_for :: "u32 \<Rightarrow> file_id" where
  "path_for index = DataFile (data_file_name index)"

lemma index_name_is_not_a_data_file: "parse_data_file_index INDEX_FILE_NAME = None"
  by code_simp

lemma of_char_digit_char: "d < 10 \<Longrightarrow> (of_char (digit_char d) :: nat) = 48 + d"
  by (simp add: digit_char_def)

lemma digits_val_append:
  "digits_val acc (xs @ ys) =
     (case digits_val acc xs of None \<Rightarrow> None | Some a \<Rightarrow> digits_val a ys)"
  by (induction acc xs rule: digits_val.induct) (auto simp: Let_def)

lemma digits_val_dec: "digits_val acc (dec n) = Some (acc * 10 ^ length (dec n) + n)"
proof (induction n arbitrary: acc rule: dec.induct)
  case (1 n)
  show ?case
  proof (cases "n < 10")
    case True
    then show ?thesis
      by (simp add: dec.simps [of n] of_char_digit_char)
  next
    case False
    then show ?thesis
      using "1.IH" [OF False]
      by (simp add: dec.simps [of n] digits_val_append of_char_digit_char algebra_simps)
  qed
qed

lemma dec_nonempty: "dec n \<noteq> []"
  by (simp add: dec.simps [of n])

lemma hd_dec: "\<exists>d < 10. hd (dec n) = digit_char d"
proof (induction n rule: dec.induct)
  case (1 n)
  then show ?case
    by (cases "n < 10") (auto simp: dec.simps [of n] dec_nonempty hd_append)
qed

lemma parse_u32_dec: "parse_u32 (dec (unat i)) = Some (i :: u32)"
proof -
  obtain d where d: "d < 10" "hd (dec (unat i)) = digit_char d" using hd_dec by blast
  obtain c cs where c: "dec (unat i) = c # cs" using dec_nonempty [of "unat i"] by (cases "dec (unat i)") auto
  have "(of_char (CHR ''+'') :: nat) = 43" by simp
  moreover have "(of_char c :: nat) = 48 + d" using c d by (simp add: of_char_digit_char)
  ultimately have "c \<noteq> CHR ''+''" using d(1) by force
  moreover have "u32_of_len (unat i) = Some i"
    using unat_lt_32 [of i] by (simp add: u32_of_len_Some)
  ultimately show ?thesis
    using c digits_val_dec [of 0 "unat i"] by (simp add: parse_u32_def)
qed

lemma parse_data_file_name [simp]: "parse_data_file_index (data_file_name i) = Some i"
  by (simp add: parse_data_file_index_def data_file_name_def strip_prefix_def strip_suffix_def
      DATA_FILE_PREFIX_def DATA_FILE_SUFFIX_def parse_u32_dec)

lemma data_file_name_inject [simp]: "data_file_name i = data_file_name j \<longleftrightarrow> i = j"
  by (metis parse_data_file_name option.inject)

lemma path_for_inject [simp]: "path_for i = path_for j \<longleftrightarrow> i = j"
  by (simp add: path_for_def)

lemma path_for_not_index [simp]: "path_for i \<noteq> IndexFile" "IndexFile \<noteq> path_for i"
  by (simp_all add: path_for_def)

section \<open>Offsets\<close>

text \<open>\<open>split_offset cap off\<close>: the file and the offset in it, the file index saturating at 32 bits.\<close>

definition split_offset :: "u64 option \<Rightarrow> u64 \<Rightarrow> u32 \<times> u64" where
  "split_offset max_data_file_size off =
     (case max_data_file_size of
        None \<Rightarrow> (0, off)
      | Some cap \<Rightarrow>
          (let idx = off div cap;
               local = off mod cap
           in (case u32_of_u64 idx of None \<Rightarrow> u32_max | Some i \<Rightarrow> i, local)))"

lemma split_offset_None [simp]: "split_offset None off = (0, off)"
  by (simp add: split_offset_def)

lemma split_offset_Some:
  assumes "unat off div unat cap < 2 ^ 32"
  shows "split_offset (Some cap) off = (ucast (off div cap), off mod cap)"
proof -
  have "u32_of_u64 (off div cap) = Some (ucast (off div cap))"
    using assms by (simp add: u32_of_u64_Some unat_div_distrib)
  then show ?thesis by (simp add: split_offset_def Let_def)
qed

lemma unat_split_offset:
  assumes "split_offset (Some cap) off = (i, loc)" and "unat off div unat cap < 2 ^ 32"
  shows "unat i = unat off div unat cap" and "unat loc = unat off mod unat cap"
  using assms by (auto simp: split_offset_Some unat_div_distrib unat_mod_distrib)

section \<open>The cache of open handles\<close>

record 'h inner =
  capacity :: nat
  order :: "u32 list"
  handles :: "(u32 \<times> 'h) list"

definition new_inner :: "nat \<Rightarrow> 'h inner" where
  "new_inner max_data_files = \<lparr>capacity = max max_data_files 1, order = [], handles = []\<rparr>"

definition inner_lookup :: "'h inner \<Rightarrow> u32 \<Rightarrow> 'h option" where
  "inner_lookup c index = map_of (handles c) index"

definition inner_insert :: "u32 \<Rightarrow> 'h \<Rightarrow> 'h inner \<Rightarrow> 'h inner" where
  "inner_insert index h c =
     (let replaced = (inner_lookup c index \<noteq> None);
          c = c\<lparr>handles := AList.update index h (handles c)\<rparr>;
          c = (if replaced then c\<lparr>order := filter (\<lambda>i. i \<noteq> index) (order c)\<rparr>
               else if capacity c < length (handles c) then
                 (case order c of
                    [] \<Rightarrow> c
                  | lru # rest \<Rightarrow>
                      if lru \<noteq> index
                      then c\<lparr>order := rest, handles := AList.delete lru (handles c)\<rparr>
                      else c)
               else c)
      in c\<lparr>order := order c @ [index]\<rparr>)"

definition inner_touch :: "u32 \<Rightarrow> 'h inner \<Rightarrow> 'h inner" where
  "inner_touch index c =
     (if order c \<noteq> [] \<and> last (order c) = index then c
      else if index \<in> set (order c) then c\<lparr>order := remove1 index (order c) @ [index]\<rparr>
      else c)"

definition inner_remove :: "u32 \<Rightarrow> 'h inner \<Rightarrow> 'h inner" where
  "inner_remove index c =
     c\<lparr>handles := AList.delete index (handles c), order := filter (\<lambda>i. i \<noteq> index) (order c)\<rparr>"

definition for_each_open :: "(u32 \<Rightarrow> 'h \<Rightarrow> 's \<Rightarrow> 's) \<Rightarrow> 'h inner \<Rightarrow> 's \<Rightarrow> 's" where
  "for_each_open f c =
     fold (\<lambda>idx s. case inner_lookup c idx of None \<Rightarrow> s | Some h \<Rightarrow> f idx h s) (order c)"

text \<open>What the cache keeps true of its two collections.\<close>

definition lru_inv :: "'h inner \<Rightarrow> bool" where
  "lru_inv c \<longleftrightarrow>
     distinct (order c) \<and> distinct (map fst (handles c)) \<and>
     set (order c) = fst ` set (handles c) \<and>
     length (handles c) \<le> capacity c \<and> 1 \<le> capacity c"

lemma lru_inv_new [simp]: "lru_inv (new_inner n)"
  by (simp add: lru_inv_def new_inner_def)

lemma lru_inv_length: "lru_inv c \<Longrightarrow> length (order c) = length (handles c)"
  unfolding lru_inv_def by (metis distinct_card length_map set_map)

lemma inner_lookup_None: "inner_lookup c i = None \<longleftrightarrow> i \<notin> fst ` set (handles c)"
  by (simp add: inner_lookup_def map_of_eq_None_iff)

text \<open>\<open>for_each_open\<close> hands every cached handle to \<open>f\<close>, once, in the order of use.\<close>

lemma for_each_open_eq:
  assumes "lru_inv c"
  shows "for_each_open f c s = fold (\<lambda>i. f i (the (inner_lookup c i))) (order c) s"
proof -
  have "inner_lookup c i \<noteq> None" if "i \<in> set (order c)" for i
    using assms that by (simp add: inner_lookup_None lru_inv_def)
  then show ?thesis
    unfolding for_each_open_def by (intro fold_cong) (fastforce simp: fun_eq_iff)+
qed

text \<open>Association lists with distinct keys.\<close>

lemma update_fresh: "k \<notin> fst ` set al \<Longrightarrow> AList.update k v al = al @ [(k, v)]"
  by (induction al) auto

lemma delete_append: "AList.delete k (xs @ ys) = AList.delete k xs @ AList.delete k ys"
  by (simp add: AList.delete_eq)

lemma length_delete_present:
  "distinct (map fst al) \<Longrightarrow> k \<in> fst ` set al \<Longrightarrow> Suc (length (AList.delete k al)) = length al"
  by (induction al) auto

lemma length_update_present:
  "k \<in> fst ` set al \<Longrightarrow> length (AList.update k v al) = length al"
  by (induction al) auto

lemma set_keys_delete: "fst ` set (AList.delete k al) = fst ` set al - {k}"
  by (induction al) auto

lemma map_of_delete_eq: "map_of (AList.delete k al) j = (if j = k then None else map_of al j)"
  by (simp add: delete_conv')

text \<open>Inserting an index the cache does not hold: with room, and without.\<close>

lemma inner_insert_room:
  assumes "inner_lookup c i = None" and "length (handles c) < capacity c"
  shows "inner_insert i h c = c\<lparr>handles := handles c @ [(i, h)], order := order c @ [i]\<rparr>"
  using assms by (simp add: inner_insert_def inner_lookup_None update_fresh)

lemma inner_insert_full:
  assumes "inner_lookup c i = None" and "length (handles c) = capacity c"
    and "lru_inv c" and "order c = lru # rest"
  shows "inner_insert i h c =
    c\<lparr>handles := AList.delete lru (handles c) @ [(i, h)], order := rest @ [i]\<rparr>"
proof -
  have "lru \<noteq> i" using assms by (auto simp: lru_inv_def inner_lookup_None)
  then show ?thesis
    using assms by (simp add: inner_insert_def inner_lookup_None update_fresh delete_append)
qed

lemma inner_insert_replace:
  assumes "inner_lookup c i = Some g"
  shows "inner_insert i h c = c\<lparr>handles := AList.update i h (handles c),
     order := filter (\<lambda>j. j \<noteq> i) (order c) @ [i]\<rparr>"
  using assms by (simp add: inner_insert_def)

lemma lru_cases:
  assumes "lru_inv c"
  obtains (replace) g where "inner_lookup c i = Some g"
    | (room) "inner_lookup c i = None" "length (handles c) < capacity c"
    | (full) lru rest where "inner_lookup c i = None" "length (handles c) = capacity c"
        "order c = lru # rest"
proof (cases "inner_lookup c i")
  case (Some g)
  then show ?thesis by (rule replace)
next
  case None
  show ?thesis
  proof (cases "length (handles c) < capacity c")
    case True
    with None show ?thesis by (rule room)
  next
    case False
    then have "length (handles c) = capacity c" using assms by (simp add: lru_inv_def)
    moreover have "order c \<noteq> []"
      using assms calculation lru_inv_length [OF assms] by (auto simp: lru_inv_def)
    ultimately show ?thesis using None full by (metis list.exhaust)
  qed
qed

lemma lru_inv_insert:
  assumes "lru_inv c" shows "lru_inv (inner_insert i h c)"
  using assms
proof (cases rule: lru_cases [of c i])
  case (replace g)
  then have "i \<in> fst ` set (handles c)" using inner_lookup_None [of c i] by auto
  moreover have "length (AList.update i h (handles c)) = length (handles c)"
    using calculation by (rule length_update_present)
  ultimately show ?thesis
    using assms by (simp add: inner_insert_replace [OF replace] lru_inv_def dom_update distinct_update) auto
next
  case room
  then show ?thesis using assms by (auto simp: inner_insert_room lru_inv_def inner_lookup_None)
next
  case (full lru rest)
  have "Suc (length (AList.delete lru (handles c))) = length (handles c)"
    using assms full by (intro length_delete_present) (auto simp: lru_inv_def)
  with full assms show ?thesis
    by (auto simp: inner_insert_full [OF full(1,2) assms full(3)] lru_inv_def inner_lookup_None
        distinct_delete set_keys_delete)
qed

lemma map_of_snoc:
  "map_of (xs @ [(i, h)]) j =
     (case map_of xs j of Some v \<Rightarrow> Some v | None \<Rightarrow> if j = i then Some h else None)"
  by (auto simp: map_add_def split: option.split)

lemma inner_lookup_insert_same:
  assumes "lru_inv c" shows "inner_lookup (inner_insert i h c) i = Some h"
  using assms
proof (cases rule: lru_cases [of c i])
  case (full lru rest)
  then show ?thesis
    using assms by (simp add: inner_insert_full)
      (simp add: inner_lookup_def map_of_snoc map_of_delete_eq del: map_of_append)
qed (simp_all add: inner_insert_room inner_insert_replace inner_lookup_def map_of_snoc
    update_conv' del: map_of_append)

lemma inner_lookup_insert_other:
  assumes "lru_inv c" and "j \<noteq> i"
  shows "inner_lookup (inner_insert i h c) j = None \<or>
    inner_lookup (inner_insert i h c) j = inner_lookup c j"
  using assms(1)
proof (cases rule: lru_cases [of c i])
  case (full lru rest)
  then show ?thesis
    using assms by (simp add: inner_insert_full)
      (simp add: inner_lookup_def map_of_snoc map_of_delete_eq del: map_of_append split: option.split)
qed (use assms in \<open>simp_all add: inner_insert_room inner_insert_replace inner_lookup_def map_of_snoc
    update_conv' del: map_of_append split: option.split\<close>)

lemma inner_lookup_touch [simp]: "inner_lookup (inner_touch i c) = inner_lookup c"
  by (rule ext) (simp add: inner_lookup_def inner_touch_def)

lemma handles_touch [simp]: "handles (inner_touch i c) = handles c"
  and capacity_touch [simp]: "capacity (inner_touch i c) = capacity c"
  by (simp_all add: inner_touch_def)

lemma lru_inv_touch: "lru_inv c \<Longrightarrow> lru_inv (inner_touch i c)"
  by (auto simp: lru_inv_def inner_touch_def notin_set_remove1 set_remove1_eq)

lemma capacity_insert [simp]: "capacity (inner_insert i h c) = capacity c"
  by (simp add: inner_insert_def Let_def split: list.split)

lemma lru_inv_remove: "lru_inv c \<Longrightarrow> lru_inv (inner_remove i c)"
  by (auto simp: lru_inv_def inner_remove_def distinct_delete set_keys_delete
      intro: le_trans [OF length_delete_le])

text \<open>
  The contract the rest of the file set relies on: a cache of handles with lookup, insertion,
  recency update, an invariant and a size, which may forget any other handle on insertion.
\<close>

locale handle_cache =
  fixes look :: "'c \<Rightarrow> u32 \<Rightarrow> 'h option"
    and ins :: "u32 \<Rightarrow> 'h \<Rightarrow> 'c \<Rightarrow> 'c"
    and tch :: "u32 \<Rightarrow> 'c \<Rightarrow> 'c"
    and inv :: "'c \<Rightarrow> bool"
  assumes inv_ins: "inv c \<Longrightarrow> inv (ins i h c)"
    and inv_tch: "inv c \<Longrightarrow> inv (tch i c)"
    and look_tch: "look (tch i c) = look c"
    and look_ins: "inv c \<Longrightarrow> look (ins i h c) i = Some h"
    and look_ins_other: "inv c \<Longrightarrow> j \<noteq> i \<Longrightarrow> look (ins i h c) j = None \<or> look (ins i h c) j = look c j"
begin

text \<open>What holds of every cached handle and of a new one holds of every handle afterwards.\<close>

lemma ins_handles:
  assumes "inv c" and "\<And>j g. look c j = Some g \<Longrightarrow> P j g" and "P i h"
    and "look (ins i h c) j = Some g"
  shows "P j g"
  using assms look_ins [of c i h] look_ins_other [of c j i h] by (cases "j = i") auto

lemma tch_handles:
  assumes "\<And>j g. look c j = Some g \<Longrightarrow> P j g" and "look (tch i c) j = Some g"
  shows "P j g"
  using assms by (simp add: look_tch)

lemma hit_after_ins: "inv c \<Longrightarrow> look (tch i (ins i h c)) i = Some h"
  by (simp add: look_tch look_ins)

end

interpretation lru: handle_cache inner_lookup inner_insert inner_touch lru_inv
  by unfold_locales (simp_all add: lru_inv_insert lru_inv_touch inner_lookup_insert_same
      inner_lookup_insert_other)

section \<open>The file set\<close>

text \<open>
  The fields of \<open>FileSet\<close>, added to those of the system it runs on. Its directory is
  \<open>data_dir\<close>.
\<close>

record fset = world +
  fs_max_data_file_size :: "u64 option"
  fs_inner :: "handle inner"

definition cap_ok :: "u64 option \<Rightarrow> bool" where
  "cap_ok cap \<longleftrightarrow> cap \<noteq> Some 0"

definition fs_lookup :: "u32 \<Rightarrow> ('z fset_scheme, handle option) io" where
  "fs_lookup index s =
     (case inner_lookup (fs_inner s) index of
        None \<Rightarrow> (Ok None, s)
      | Some h \<Rightarrow> (Ok (Some h), s\<lparr>fs_inner := inner_touch index (fs_inner s)\<rparr>))"

text \<open>The handles a change of the cache let go of.\<close>

definition evicted :: "handle inner \<Rightarrow> handle inner \<Rightarrow> handle list" where
  "evicted old new = [h. (i, h) \<leftarrow> handles old, h \<notin> snd ` set (handles new)]"

definition set_inner :: "handle inner \<Rightarrow> 'z fset_scheme \<Rightarrow> 'z fset_scheme" where
  "set_inner c s = close_handles (evicted (fs_inner s) c) (s\<lparr>fs_inner := c\<rparr>)"

definition data_lock_msg :: string where
  "data_lock_msg =
     ''unable to acquire advisory lock: data file may be open in another process''"

definition get_or_open :: "u32 \<Rightarrow> ('z fset_scheme, handle) io" where
  "get_or_open index =
     io_bind (fs_lookup index) (\<lambda>cached.
     case cached of
       Some h \<Rightarrow> ret h
     | None \<Rightarrow>
         io_bind (fs_lookup index) (\<lambda>existing.
         case existing of
           Some h \<Rightarrow> ret h
         | None \<Rightarrow>
             io_bind (open_file (path_for index) True False) (\<lambda>h.
             io_bind (try_lock h data_lock_msg) (\<lambda>_.
             io_bind (modify (\<lambda>s. set_inner (inner_insert index h (fs_inner s)) s)) (\<lambda>_.
             ret h)))))"

definition fs_resolve :: "u64 \<Rightarrow> ('z fset_scheme, handle \<times> u64 \<times> u32) io" where
  "fs_resolve global_offset =
     io_bind (gets fs_max_data_file_size) (\<lambda>cap.
       let (idx, local) = split_offset cap global_offset
       in io_bind (get_or_open idx) (\<lambda>h. ret (h, local, idx)))"

definition fs_evict :: "u32 \<Rightarrow> ('z fset_scheme, unit) io" where
  "fs_evict index = modify (\<lambda>s. set_inner (inner_remove index (fs_inner s)) s)"

section \<open>The directory\<close>

text \<open>\<open>BTreeMap<u32, u64>\<close> is the library's ordered map; each directory entry costs a call.\<close>

fun list_entries ::
  "(string \<times> dirent) list \<Rightarrow> (u32, u64) RBT.rbt \<Rightarrow> ('z world_scheme, (u32, u64) RBT.rbt) io" where
  "list_entries [] out = ret out"
| "list_entries ((name, ent) # es) out =
     io_bind (syscall (\<lambda>k w. w) (ret ())) (\<lambda>_.
     case ent of
       SubDir \<Rightarrow> list_entries es out
     | RegFile b \<Rightarrow>
         (case parse_data_file_index name of
            None \<Rightarrow> list_entries es out
          | Some idx \<Rightarrow>
              io_bind (metadata_len b) (\<lambda>size. list_entries es (RBT.insert idx size out))))"

definition list_on_disk :: "('z world_scheme, (u32, u64) RBT.rbt) io" where
  "list_on_disk = io_bind read_dir (\<lambda>es. list_entries es RBT.empty)"

definition validate_layout ::
  "u64 option \<Rightarrow> (u32, u64) RBT.rbt \<Rightarrow> ('s, u64) io" where
  "validate_layout max_data_file_size files =
     (if RBT.is_empty files then ret 0
      else
        (let max_idx = last (RBT.keys files)
         in case find (\<lambda>i. RBT.lookup files (of_nat i) = None) [0..<Suc (unat max_idx)] of
              Some i \<Rightarrow> fail InvalidData (''data file at index '' @ dec i @ '' is missing'')
            | None \<Rightarrow>
                (case max_data_file_size of
                   None \<Rightarrow>
                     if 0 < max_idx
                     then fail InvalidData
                            ''single-file mode but multiple data files present''
                     else expect (RBT.lookup files 0) ''checked above''
                 | Some cap \<Rightarrow>
                     io_bind (expect (RBT.lookup files max_idx) ''non-empty'') (\<lambda>last_size.
                     ok_or (Option.bind (checked_mul (ucast max_idx) cap)
                              (\<lambda>t. checked_add t last_size))
                       InvalidData
                       (''data file total size overflow: max_idx='' @ dec (unat max_idx) @
                        '' cap='' @ dec (unat cap) @ '' last_size='' @ dec (unat last_size))))))"

text \<open>\<open>remove_existing_data_files\<close> of \<open>store.rs\<close>: what a truncating open does to the directory.\<close>

fun remove_entries :: "(string \<times> dirent) list \<Rightarrow> ('z world_scheme, unit) io" where
  "remove_entries [] = ret ()"
| "remove_entries ((name, ent) # es) =
     io_bind (syscall (\<lambda>k w. w) (ret ())) (\<lambda>_.
     case ent of
       SubDir \<Rightarrow> remove_entries es
     | RegFile b \<Rightarrow>
         if parse_data_file_index name \<noteq> None
         then io_bind (remove_file name) (\<lambda>_. remove_entries es)
         else remove_entries es)"

definition remove_existing_data_files :: "('z world_scheme, unit) io" where
  "remove_existing_data_files = io_bind read_dir remove_entries"

section \<open>Handles and locks\<close>

lemma close_handles_eq:
  "close_handles hs w = w\<lparr>locks := filter (\<lambda>(f, m). m \<notin> fd ` set hs) (locks w)\<rparr>"
proof (induction hs arbitrary: w)
  case Nil
  then show ?case by (simp add: close_handles_def)
next
  case (Cons h hs)
  have "close_handles (h # hs) w = close_handles hs (close_fd (fd h) w)"
    by (simp add: close_handles_def)
  also have "\<dots> = w\<lparr>locks := filter (\<lambda>(f, m). m \<notin> fd ` set (h # hs)) (locks w)\<rparr>"
    by (simp add: Cons.IH close_fd_def) (rule arg_cong [where f = "\<lambda>l. w\<lparr>locks := l\<rparr>"],
        rule filter_cong, auto)
  finally show ?case .
qed

lemma set_inner_eq:
  "set_inner c s =
     s\<lparr>fs_inner := c,
       locks := filter (\<lambda>(f, m). m \<notin> fd ` set (evicted (fs_inner s) c)) (locks s)\<rparr>"
  by (simp add: set_inner_def close_handles_eq)

text \<open>
  The invariant of the file set: the cache is well formed, every cached handle is open on the
  file of its index and holds that file's lock, and no lock is held twice.
\<close>

definition fs_inv :: "'z fset_scheme \<Rightarrow> bool" where
  "fs_inv s \<longleftrightarrow>
     lru_inv (fs_inner s) \<and> cap_ok (fs_max_data_file_size s) \<and>
     (\<forall>i h. inner_lookup (fs_inner s) i = Some h \<longrightarrow>
        hfile h = path_for i \<and> (path_for i, fd h) \<in> set (locks s)) \<and>
     inj_on fst (set (locks s)) \<and> inj_on snd (set (locks s)) \<and>
     (\<forall>f n. (f, n) \<in> set (locks s) \<longrightarrow> n < next_fd s)"

text \<open>Every lock on a data file is the one of a cached handle: no other process has any.\<close>

definition own_locks :: "'z fset_scheme \<Rightarrow> bool" where
  "own_locks s \<longleftrightarrow>
     (\<forall>f n. (f, n) \<in> set (locks s) \<longrightarrow> f \<noteq> IndexFile \<longrightarrow>
        (\<exists>i h. inner_lookup (fs_inner s) i = Some h \<and> hfile h = f \<and> fd h = n))"

lemma fs_inv_handleD:
  "fs_inv s \<Longrightarrow> inner_lookup (fs_inner s) i = Some h \<Longrightarrow>
     hfile h = path_for i \<and> (path_for i, fd h) \<in> set (locks s)"
  unfolding fs_inv_def by blast

text \<open>What opening or finding a handle leaves alone.\<close>

definition same_files :: "'z fset_scheme \<Rightarrow> 'z fset_scheme \<Rightarrow> bool" where
  "same_files s t \<longleftrightarrow>
     bytes_of t = bytes_of s \<and> (\<forall>f. is_file s f \<longrightarrow> is_file t f) \<and> is_dir t = is_dir s \<and>
     idx_file t = idx_file s \<and> io_log t = io_log s \<and>
     fs_max_data_file_size t = fs_max_data_file_size s \<and> fset.more t = fset.more s \<and>
     (faults s = [] \<longrightarrow> faults t = [])"

lemma same_files_refl [simp]: "same_files s s"
  by (simp add: same_files_def)

lemma same_files_trans: "same_files s t \<Longrightarrow> same_files t u \<Longrightarrow> same_files s u"
  by (simp add: same_files_def)

lemma is_dir_update [simp]:
  "is_dir (locks_update l w) f = is_dir w f"
  "is_dir (next_fd_update n w) f = is_dir w f"
  "is_dir (faults_update g w) f = is_dir w f"
  "is_dir (io_log_update e w) f = is_dir w f"
  "is_dir (world.more_update m w) f = is_dir w f"
  by (simp_all add: is_dir_def split: file_id.splits)

lemma fset_update_world [simp]:
  "bytes_of (fs_inner_update g s) f = bytes_of s f"
  "is_file (fs_inner_update g s) f = is_file s f"
  "is_dir (fs_inner_update g s) f = is_dir s f"
  by (simp_all add: bytes_of_def is_file_def is_dir_def split: file_id.splits)

lemma bytes_of_absent: "\<not> is_file w f \<Longrightarrow> bytes_of w f = []"
  by (auto simp: is_file_def bytes_of_def split: file_id.splits option.splits dirent.splits)

text \<open>\<open>created f s\<close>: the state once \<open>f\<close> exists; a new file is empty.\<close>

definition created :: "file_id \<Rightarrow> 'z world_scheme \<Rightarrow> 'z world_scheme" where
  "created f s = (if is_file s f then s else put_bytes f [] s)"

lemma created_simps [simp]:
  "locks (created f s) = locks s" "next_fd (created f s) = next_fd s"
  "faults (created f s) = faults s" "io_log (created f s) = io_log s"
  "world.more (created f s) = world.more s"
  "is_file (created f s) g \<longleftrightarrow> g = f \<or> is_file s g"
  by (auto simp: created_def)

lemma bytes_of_created [simp]: "bytes_of (created f s) g = bytes_of s g"
  by (auto simp: created_def bytes_of_absent)

lemma created_fset [simp]:
  "fs_inner (created f s) = fs_inner s"
  "fs_max_data_file_size (created f s) = fs_max_data_file_size s"
  "fset.more (created f s) = fset.more s"
  by (auto simp: created_def put_bytes_def split: file_id.splits)

lemma is_dir_created: "\<not> is_dir s f \<Longrightarrow> is_dir (created f s) g = is_dir s g"
  by (auto simp: created_def is_dir_put)

lemma idx_file_created [simp]: "idx_file (created (path_for i) s) = idx_file s"
  by (simp add: created_def put_bytes_def path_for_def)

lemma open_file_cases:
  assumes "open_file f True False s = (r, t)"
  obtains (opened) fs where "\<not> is_dir s f" "r = Ok \<lparr>fd = next_fd s, hfile = f\<rparr>"
      "t = (created f s)\<lparr>faults := fs, next_fd := Suc (next_fd s)\<rparr>"
    | (failed) e fs where "r = Err e" "t = s\<lparr>faults := fs\<rparr>"
  using assms unfolding open_file_def
proof (cases rule: syscallE)
  case (run fs)
  have "put_bytes f [] (s\<lparr>faults := fs\<rparr>) = (put_bytes f [] s)\<lparr>faults := fs\<rparr>"
    by (simp add: put_bytes_def split: file_id.splits)
  with run show ?thesis
    by (auto simp: created_def Let_def split: if_splits intro: opened failed)
qed (auto intro: failed)

lemma try_lock_cases:
  assumes "try_lock h m s = (r, t)"
  obtains (locked) fs where "r = Ok ()" "hfile h \<notin> fst ` set (locks s)"
      "t = s\<lparr>faults := fs, locks := (hfile h, fd h) # locks s\<rparr>"
    | (failed) e fs where "r = Err e" "t = s\<lparr>faults := fs\<rparr>"
proof -
  obtain g u where n: "next_fault s = (g, u)" by fastforce
  with next_fault_state obtain fs where "u = s\<lparr>faults := fs\<rparr>" by blast
  with n assms show ?thesis
    by (cases g) (auto simp: try_lock_def split: if_splits intro: locked failed)
qed

text \<open>The outcomes of \<open>get_or_open\<close>: a hit, a newly opened and locked file, or an error.\<close>

lemma get_or_open_cases:
  assumes "get_or_open i s = (r, t)"
  obtains (hit) h where "inner_lookup (fs_inner s) i = Some h" "r = Ok h"
      "t = s\<lparr>fs_inner := inner_touch i (fs_inner s)\<rparr>"
    | (opened) h fs u where "inner_lookup (fs_inner s) i = None" "r = Ok h"
        "h = \<lparr>fd = next_fd s, hfile = path_for i\<rparr>" "path_for i \<notin> fst ` set (locks s)"
        "\<not> is_dir s (path_for i)"
        "u = (created (path_for i) s)\<lparr>faults := fs, next_fd := Suc (next_fd s),
               locks := (path_for i, next_fd s) # locks s\<rparr>"
        "t = set_inner (inner_insert i h (fs_inner s)) u"
    | (lock_failed) e fs where "inner_lookup (fs_inner s) i = None" "r = Err e"
        "\<not> is_dir s (path_for i)"
        "t = (created (path_for i) s)\<lparr>faults := fs, next_fd := Suc (next_fd s)\<rparr>"
    | (failed) e fs where "r = Err e" "t = s\<lparr>faults := fs\<rparr>"
proof (cases "inner_lookup (fs_inner s) i")
  case (Some h)
  with assms show ?thesis
    by (auto simp: get_or_open_def fs_lookup_def io_bind_def io_simps intro: hit)
next
  case None
  obtain r1 u1 where o: "open_file (path_for i) True False s = (r1, u1)" by fastforce
  then show ?thesis
  proof (cases rule: open_file_cases)
    case (failed e fs)
    with assms None o show ?thesis
      by (intro that(4) [of e fs]) (auto simp: get_or_open_def fs_lookup_def io_bind_def io_simps)
  next
    case (opened fs)
    let ?h = "\<lparr>fd = next_fd s, hfile = path_for i\<rparr>"
    obtain r2 u2 where l: "try_lock ?h data_lock_msg u1 = (r2, u2)" by fastforce
    then show ?thesis
    proof (cases rule: try_lock_cases)
      case (failed e fs')
      with assms None o l opened show ?thesis
        by (intro that(3) [of e fs'])
           (auto simp: get_or_open_def fs_lookup_def io_bind_def io_simps)
    next
      case (locked fs')
      with assms None o l opened that(2) [of ?h u2 fs'] show ?thesis
        by (simp add: get_or_open_def fs_lookup_def io_bind_def io_simps)
    qed
  qed
qed

lemma same_files_opened:
  assumes "\<not> is_dir s (path_for i)" and "faults s = [] \<longrightarrow> fs = []"
  shows "same_files s ((created (path_for i) s)\<lparr>faults := fs, next_fd := n, locks := l\<rparr>)"
  using assms by (auto simp: same_files_def fun_eq_iff is_dir_created)

lemma same_files_set_inner: "same_files s t \<Longrightarrow> same_files s (set_inner c t)"
  by (auto simp: same_files_def set_inner_eq fun_eq_iff)

lemma open_file_faults:
  "open_file f c tr s = (r, t) \<Longrightarrow> faults s = [] \<Longrightarrow> faults t = []"
  by (auto simp: open_file_def Let_def split: if_splits)

lemma try_lock_faults:
  "try_lock h m s = (r, t) \<Longrightarrow> faults s = [] \<Longrightarrow> faults t = []"
  by (auto simp: try_lock_def split: if_splits)

lemma fs_lookup_faults: "faults (snd (fs_lookup i s)) = faults s"
  by (simp add: fs_lookup_def split: option.split)

lemma get_or_open_faults:
  assumes "faults s = []" and "get_or_open i s = (r, t)"
  shows "faults t = []"
proof -
  have "preserves (\<lambda>s. faults s = []) (get_or_open i)"
    unfolding get_or_open_def
    by (intro pres) (auto simp: preserves_def fs_lookup_faults set_inner_eq
        dest: open_file_faults try_lock_faults intro: prod.collapse [symmetric]
        open_file_faults [OF prod.collapse [symmetric]] try_lock_faults [OF prod.collapse [symmetric]])
  then show ?thesis using assms by (rule preservesD)
qed

lemma get_or_open_same_files:
  assumes "get_or_open i s = (r, t)"
  shows "same_files s t"
proof -
  note f = get_or_open_faults [OF _ assms]
  from assms show ?thesis
  proof (cases rule: get_or_open_cases)
    case (opened h fs u)
    then have "faults s = [] \<longrightarrow> fs = []" using f by (simp add: set_inner_eq)
    with opened show ?thesis by (simp add: same_files_set_inner same_files_opened)
  next
    case (lock_failed e fs)
    then have "faults s = [] \<longrightarrow> fs = []" using f by simp
    with lock_failed show ?thesis
      by (auto simp: same_files_def fun_eq_iff is_dir_created)
  qed (use f in \<open>auto simp: same_files_def fun_eq_iff\<close>)
qed

lemma get_or_open_data_dir:
  assumes "get_or_open i s = (r, t)" and "is_file s (path_for i)" shows "data_dir t = data_dir s"
  using assms by (cases rule: get_or_open_cases) (simp_all add: created_def set_inner_eq)

lemma get_or_open_index_locks:
  assumes "get_or_open i s = (r, t)" and "(IndexFile, n) \<in> set (locks t)"
  shows "(IndexFile, n) \<in> set (locks s)"
  using assms by (cases rule: get_or_open_cases) (auto simp: set_inner_eq split: if_splits)

lemma get_or_open_path:
  assumes "get_or_open i s = (Ok h, t)" and "fs_inv s"
  shows "hfile h = path_for i"
  using assms by (cases rule: get_or_open_cases) (auto dest: fs_inv_handleD)

lemma is_file_get_or_open:
  assumes "get_or_open i s = (Ok h, t)" and "fs_inv s" and "inner_lookup (fs_inner s) i = None"
  shows "is_file t (path_for i)"
  using assms by (cases rule: get_or_open_cases) (auto simp: set_inner_eq)

lemma in_evicted:
  "g \<in> set (evicted old new) \<longleftrightarrow> g \<in> snd ` set (handles old) \<and> g \<notin> snd ` set (handles new)"
  by (force simp: evicted_def image_iff)

lemma lookup_in_handles: "inner_lookup c i = Some h \<Longrightarrow> (i, h) \<in> set (handles c)"
  by (simp add: inner_lookup_def map_of_SomeD)

lemma handles_in_lookup:
  "lru_inv c \<Longrightarrow> (i, h) \<in> set (handles c) \<Longrightarrow> inner_lookup c i = Some h"
  by (simp add: inner_lookup_def lru_inv_def)

text \<open>
  A change of the cache keeps the invariant when every handle it holds afterwards was open and
  locked before: only locks of descriptors that left the cache are given back.
\<close>

lemma fs_inv_set_inner:
  assumes inv: "lru_inv c" "cap_ok (fs_max_data_file_size s)" "lru_inv (fs_inner s)"
    and old: "\<And>i h. inner_lookup (fs_inner s) i = Some h \<Longrightarrow> hfile h = path_for i \<and> (path_for i, fd h) \<in> set (locks s)"
    and new: "\<And>i h. inner_lookup c i = Some h \<Longrightarrow> hfile h = path_for i \<and> (path_for i, fd h) \<in> set (locks s)"
    and lk: "inj_on fst (set (locks s))" "inj_on snd (set (locks s))"
      "\<And>f n. (f, n) \<in> set (locks s) \<Longrightarrow> n < next_fd s"
  shows "fs_inv (set_inner c s)"
proof -
  have keep: "fd h \<notin> fd ` set (evicted (fs_inner s) c)" if h: "inner_lookup c i = Some h" for i h
  proof
    assume "fd h \<in> fd ` set (evicted (fs_inner s) c)"
    then obtain g j where g: "fd g = fd h" "(j, g) \<in> set (handles (fs_inner s))"
      "g \<notin> snd ` set (handles c)" by (auto simp: in_evicted)
    then have "hfile g = path_for j" "(path_for j, fd g) \<in> set (locks s)"
      using old handles_in_lookup [OF inv(3)] by blast+
    moreover have "hfile h = path_for i" "(path_for i, fd h) \<in> set (locks s)" using new h by blast+
    ultimately have "hfile g = hfile h"
      using lk(2) g(1) by (metis inj_onD prod.inject snd_conv)
    then have "g = h" using g(1) by simp
    then show False using g(3) lookup_in_handles [OF h] by force
  qed
  show ?thesis
    unfolding fs_inv_def set_inner_eq
    using assms keep by (auto simp: inj_on_def)
qed

lemma get_or_open_fs_inv:
  assumes "get_or_open i s = (r, t)" and inv: "fs_inv s"
  shows "fs_inv t"
  using assms(1)
proof (cases rule: get_or_open_cases)
  case (hit h)
  then show ?thesis using inv by (simp add: fs_inv_def lru_inv_touch)
next
  case (opened h fs u)
  have lru: "lru_inv (fs_inner s)" and cap: "cap_ok (fs_max_data_file_size s)"
    using inv by (simp_all add: fs_inv_def)
  have u: "fs_inner u = fs_inner s" "fs_max_data_file_size u = fs_max_data_file_size s"
    "set (locks u) = insert (path_for i, next_fd s) (set (locks s))" "next_fd u = Suc (next_fd s)"
    unfolding opened(6) by simp_all
  have h: "hfile h = path_for i" "fd h = next_fd s" unfolding opened(3) by simp_all
  have old: "hfile g = path_for j \<and> (path_for j, fd g) \<in> set (locks u)"
    if "inner_lookup (fs_inner u) j = Some g" for j g
    using that fs_inv_handleD [OF inv, of j g] unfolding u by blast
  have new: "hfile g = path_for j \<and> (path_for j, fd g) \<in> set (locks u)"
    if "inner_lookup (inner_insert i h (fs_inner s)) j = Some g" for j g
  proof (rule lru.ins_handles [OF lru _ _ that])
    show "hfile h = path_for i \<and> (path_for i, fd h) \<in> set (locks u)" using h u(3) by simp
  qed (use old u(1) in simp)
  have lt: "n < next_fd s" if "(f, n) \<in> set (locks s)" for f n
    using that inv unfolding fs_inv_def by blast
  have fresh: "(f, next_fd s) \<notin> set (locks s)" for f using lt by blast
  have "inj_on fst (set (locks u))" "inj_on snd (set (locks u))"
    using inv opened(4) fresh unfolding u(3) fs_inv_def by (auto simp: inj_on_insert image_iff)
  moreover have "n < next_fd u" if "(f, n) \<in> set (locks u)" for f n
    using that lt unfolding u(3,4) by (auto intro: less_SucI)
  ultimately show ?thesis
    unfolding opened(7)
    by (rule fs_inv_set_inner [rotated -3])
       (use lru_inv_insert [OF lru] lru cap new old u(1,2) in simp_all)
next
  case (lock_failed e fs)
  then show ?thesis using inv by (auto simp: fs_inv_def intro: less_SucI)
next
  case (failed e fs)
  then show ?thesis using inv by (simp add: fs_inv_def)
qed

lemma get_or_open_own_locks:
  assumes "get_or_open i s = (r, t)" and inv: "fs_inv s" and own: "own_locks s"
  shows "own_locks t"
  using assms(1)
proof (cases rule: get_or_open_cases)
  case (opened h fs u)
  let ?c = "inner_insert i h (fs_inner s)"
  have lru: "lru_inv (fs_inner s)" using inv by (simp add: fs_inv_def)
  have "\<exists>j g. inner_lookup ?c j = Some g \<and> hfile g = f \<and> fd g = n"
    if l: "(f, n) \<in> set (locks t)" "f \<noteq> IndexFile" for f n
  proof (cases "(f, n) = (path_for i, next_fd s)")
    case True
    then have "inner_lookup ?c i = Some h" "hfile h = f" "fd h = n"
      using opened(3) by (simp_all add: inner_lookup_insert_same lru)
    then show ?thesis by blast
  next
    case False
    have "fs_inner u = fs_inner s" "locks u = (path_for i, next_fd s) # locks s"
      unfolding opened(6) by simp_all
    with l(1) False have l': "(f, n) \<in> set (locks s)" "n \<notin> fd ` set (evicted (fs_inner s) ?c)"
      unfolding opened(7) set_inner_eq by (auto split: if_splits)
    with own l(2) obtain j g where g: "inner_lookup (fs_inner s) j = Some g" "hfile g = f" "fd g = n"
      unfolding own_locks_def by blast
    then have "g \<in> snd ` set (handles ?c)"
      using l'(2) lookup_in_handles [OF g(1)] by (force simp: in_evicted)
    then obtain j' where "(j', g) \<in> set (handles ?c)" by auto
    then have "inner_lookup ?c j' = Some g"
      by (rule handles_in_lookup [OF lru_inv_insert [OF lru]])
    then show ?thesis using g by blast
  qed
  moreover have "fs_inner t = ?c" unfolding opened(7) set_inner_eq by simp
  ultimately show ?thesis by (simp add: own_locks_def)
qed (use own in \<open>auto simp: own_locks_def\<close>)

text \<open>Without faults, other lock holders or a directory in the way, opening succeeds.\<close>

lemma get_or_open_succeeds:
  assumes "fs_inv s" and "own_locks s" and "faults s = []" and "\<not> is_dir s (path_for i)"
  obtains h t where "get_or_open i s = (Ok h, t)"
proof (cases "inner_lookup (fs_inner s) i")
  case (Some h)
  then show ?thesis using that
    by (auto simp: get_or_open_def fs_lookup_def io_bind_def io_simps)
next
  case None
  have free: "path_for i \<notin> fst ` set (locks s)"
  proof
    assume "path_for i \<in> fst ` set (locks s)"
    then obtain n where "(path_for i, n) \<in> set (locks s)" by auto
    with assms(2) obtain j h where "inner_lookup (fs_inner s) j = Some h" "hfile h = path_for i"
      unfolding own_locks_def by (metis path_for_not_index(1))
    with None fs_inv_handleD [OF assms(1)] show False by (metis option.distinct(1) path_for_inject)
  qed
  have "open_file (path_for i) True False s =
      (Ok \<lparr>fd = next_fd s, hfile = path_for i\<rparr>, (created (path_for i) s)\<lparr>next_fd := Suc (next_fd s)\<rparr>)"
    using assms(3,4) by (auto simp: open_file_def created_def Let_def)
  then show ?thesis
    using None free assms(3) that
    by (simp add: get_or_open_def fs_lookup_def io_bind_def io_simps try_lock_def)
qed

section \<open>Listing and validating the directory\<close>

text \<open>
  A directory in which no name denotes a data file under a spelling other than the one the
  store gives it (\<open>blockdb_007.dat\<close> parses as 7 too).
\<close>

definition dir_ok :: "'z world_scheme \<Rightarrow> bool" where
  "dir_ok w \<longleftrightarrow>
     distinct (map fst (data_dir w)) \<and>
     (\<forall>n b i. (n, RegFile b) \<in> set (data_dir w) \<longrightarrow> parse_data_file_index n = Some i \<longrightarrow>
        n = data_file_name i)"

definition size_of :: "bytes \<Rightarrow> u64" where
  "size_of b = u64_of_len (length b)"

definition listed :: "(string \<times> dirent) list \<Rightarrow> u32 \<Rightarrow> u64 option" where
  "listed es i =
     (case map_of es (data_file_name i) of
        Some (RegFile b) \<Rightarrow> Some (size_of b)
      | _ \<Rightarrow> None)"

lemma list_entries_none:
  assumes "faults s = []" and "distinct (map fst es)"
    and "\<And>n b i. (n, RegFile b) \<in> set es \<Longrightarrow> parse_data_file_index n = Some i \<Longrightarrow> n = data_file_name i"
  obtains m where "list_entries es out s = (Ok m, s)"
    and "\<And>i. RBT.lookup m i = (case listed es i of None \<Rightarrow> RBT.lookup out i | Some v \<Rightarrow> Some v)"
  using assms(2,3)
proof (induction es arbitrary: out thesis)
  case Nil
  then show ?case by (simp add: io_simps listed_def)
next
  case (Cons e es)
  obtain name ent where e: "e = (name, ent)" by fastforce
  have fresh: "map_of es name = None"
    using Cons.prems(2) e by (auto simp: map_of_eq_None_iff)
  have "\<exists>out'. list_entries (e # es) out s = list_entries es out' s \<and>
      (\<forall>i. (case listed es i of None \<Rightarrow> RBT.lookup out' i | Some v \<Rightarrow> Some v) =
           (case listed (e # es) i of None \<Rightarrow> RBT.lookup out i | Some v \<Rightarrow> Some v))"
  proof (cases "\<exists>b idx. ent = RegFile b \<and> parse_data_file_index name = Some idx")
    case True
    then obtain b idx where b: "ent = RegFile b" "parse_data_file_index name = Some idx" by blast
    then have n: "name = data_file_name idx" using Cons.prems(3) e by auto
    have "list_entries (e # es) out s = list_entries es (RBT.insert idx (size_of b) out) s"
      using e b assms(1) by (simp add: io_bind_def io_simps metadata_len_def size_of_def)
    moreover have "(case listed es i of None \<Rightarrow> RBT.lookup (RBT.insert idx (size_of b) out) i
          | Some v \<Rightarrow> Some v) =
        (case listed (e # es) i of None \<Rightarrow> RBT.lookup out i | Some v \<Rightarrow> Some v)" for i
      using fresh by (cases "i = idx"; cases "listed es i") (auto simp: listed_def e b n)
    ultimately show ?thesis by blast
  next
    case False
    then have "list_entries (e # es) out s = list_entries es out s"
      using e assms(1) by (cases ent) (auto simp: io_bind_def io_simps split: option.split)
    moreover have "listed (e # es) i = listed es i" for i
      using False e fresh by (cases ent) (auto simp: listed_def)
    ultimately show ?thesis by auto
  qed
  then obtain out' where out': "list_entries (e # es) out s = list_entries es out' s"
    "\<And>i. (case listed es i of None \<Rightarrow> RBT.lookup out' i | Some v \<Rightarrow> Some v) =
           (case listed (e # es) i of None \<Rightarrow> RBT.lookup out i | Some v \<Rightarrow> Some v)" by blast
  obtain m where "list_entries es out' s = (Ok m, s)"
    "\<And>i. RBT.lookup m i = (case listed es i of None \<Rightarrow> RBT.lookup out' i | Some v \<Rightarrow> Some v)"
    by (rule Cons.IH) (use Cons.prems(2,3) in auto)
  then show ?case using Cons.prems(1) out' by simp
qed

lemma listed_data_dir:
  "listed (data_dir s) i =
     (if is_file s (path_for i) then Some (size_of (bytes_of s (path_for i))) else None)"
  by (auto simp: listed_def is_file_def bytes_of_def path_for_def split: option.splits dirent.splits)

lemma list_on_disk_none:
  assumes "faults s = []" and "dir_ok s"
  obtains m where "list_on_disk s = (Ok m, s)"
    and "\<And>i. RBT.lookup m i =
       (if is_file s (path_for i) then Some (size_of (bytes_of s (path_for i))) else None)"
proof -
  obtain m where m: "list_entries (data_dir s) RBT.empty s = (Ok m, s)"
    "\<And>i. RBT.lookup m i =
       (case listed (data_dir s) i of None \<Rightarrow> RBT.lookup RBT.empty i | Some v \<Rightarrow> Some v)"
    by (rule list_entries_none [of s "data_dir s" RBT.empty])
       (use assms in \<open>auto simp: dir_ok_def\<close>)
  have "list_on_disk s = (Ok m, s)"
    using m(1) assms by (simp add: list_on_disk_def read_dir_def io_bind_def io_simps)
  moreover have "RBT.lookup m i =
      (if is_file s (path_for i) then Some (size_of (bytes_of s (path_for i))) else None)" for i
    using m(2) [of i] by (simp add: listed_data_dir)
  ultimately show ?thesis by (rule that)
qed

lemma sorted_le_last: "sorted xs \<Longrightarrow> x \<in> set xs \<Longrightarrow> x \<le> last xs"
  by (induction xs) auto

lemma validate_layout_max:
  assumes "RBT.lookup m k = Some v"
  shows "k \<le> last (RBT.keys m)" and "\<not> RBT.is_empty m" and "RBT.lookup m (last (RBT.keys m)) \<noteq> None"
proof -
  have k: "k \<in> set (RBT.keys m)" using assms by (simp add: lookup_keys [symmetric] domI)
  then show "k \<le> last (RBT.keys m)" by (simp add: sorted_le_last)
  have "last (RBT.keys m) \<in> set (RBT.keys m)" using k by (cases "RBT.keys m") auto
  then show "RBT.lookup m (last (RBT.keys m)) \<noteq> None"
    by (metis domD lookup_keys option.distinct(1))
  show "\<not> RBT.is_empty m" using assms by auto
qed

end
