(* ===== verification/Layout.thy ===== *)
theory Layout
  imports Bytes Effects
begin

text \<open>
  The on-disk structures of \<open>store.rs\<close>: the 64-byte header of the index file, the 16-byte index
  entries, both the in-memory image of a \<open>repr(C)\<close> struct (\<open>bytemuck::bytes_of\<close>), and the
  22-byte header that precedes every block in a data file. The \<open>reserved\<close> byte arrays are held
  as one little-endian word of their size.
\<close>

section \<open>Index entry\<close>

record index_entry =
  ie_offset :: u64
  ie_size :: u32
  ie_reserved :: u32

definition entry_size :: nat where
  "entry_size = 8 + 4 + 4"

definition default_entry :: index_entry where
  "default_entry = \<lparr>ie_offset = 0, ie_size = 0, ie_reserved = 0\<rparr>"

definition encode_entry :: "index_entry \<Rightarrow> bytes" where
  "encode_entry e =
     to_le_bytes (ie_offset e) @ to_le_bytes (ie_size e) @ to_le_bytes (ie_reserved e)"

definition decode_entry :: "bytes \<Rightarrow> index_entry" where
  "decode_entry b =
     \<lparr>ie_offset = from_le_bytes (pread b 0 8),
      ie_size = from_le_bytes (pread b 8 4),
      ie_reserved = from_le_bytes (pread b 12 4)\<rparr>"

definition zero_entry :: "index_entry \<Rightarrow> bool" where
  "zero_entry e \<longleftrightarrow> ie_offset e = 0 \<and> ie_size e = 0"

section \<open>Index file header\<close>

record index_file_header =
  ih_version :: u64
  ih_max_data_file_size :: u64
  ih_min_height :: u64
  ih_max_height :: u64
  ih_next_write_offset :: u64
  ih_highest_contiguous :: u64
  ih_reserved :: "128 word"

definition INDEX_FILE_VERSION :: u64 where
  "INDEX_FILE_VERSION = 1"

definition header_size :: nat where
  "header_size = 8 + 8 + 8 + 8 + 8 + 8 + 16"

definition default_header :: index_file_header where
  "default_header =
     \<lparr>ih_version = INDEX_FILE_VERSION,
      ih_max_data_file_size = u64_max,
      ih_min_height = 1,
      ih_max_height = 0,
      ih_next_write_offset = 0,
      ih_highest_contiguous = 0,
      ih_reserved = 0\<rparr>"

definition with_lowest_block_height :: "index_file_header \<Rightarrow> u64 \<Rightarrow> index_file_header" where
  "with_lowest_block_height h lowest = h\<lparr>ih_min_height := lowest\<rparr>"

definition encode_header :: "index_file_header \<Rightarrow> bytes" where
  "encode_header h =
     to_le_bytes (ih_version h) @ to_le_bytes (ih_max_data_file_size h) @
     to_le_bytes (ih_min_height h) @ to_le_bytes (ih_max_height h) @
     to_le_bytes (ih_next_write_offset h) @ to_le_bytes (ih_highest_contiguous h) @
     to_le_bytes (ih_reserved h)"

definition decode_header :: "bytes \<Rightarrow> index_file_header" where
  "decode_header b =
     \<lparr>ih_version = from_le_bytes (pread b 0 8),
      ih_max_data_file_size = from_le_bytes (pread b 8 8),
      ih_min_height = from_le_bytes (pread b 16 8),
      ih_max_height = from_le_bytes (pread b 24 8),
      ih_next_write_offset = from_le_bytes (pread b 32 8),
      ih_highest_contiguous = from_le_bytes (pread b 40 8),
      ih_reserved = from_le_bytes (pread b 48 16)\<rparr>"

section \<open>Block header\<close>

record block_header =
  bh_height :: u64
  bh_size :: u32
  bh_checksum :: u64
  bh_version :: u16

definition MAX_BLOCK_SIZE :: u32 where
  "MAX_BLOCK_SIZE = push_bit 30 1"

definition BLOCK_ENTRY_VERSION :: u16 where
  "BLOCK_ENTRY_VERSION = 1"

definition SERIALIZED_SIZE :: nat where
  "SERIALIZED_SIZE = 8 + 4 + 8 + 2"

definition serialize :: "block_header \<Rightarrow> bytes" where
  "serialize h =
     (let buf = replicate SERIALIZED_SIZE 0;
          buf = pwrite buf 0 (to_le_bytes (bh_height h));
          buf = pwrite buf 8 (to_le_bytes (bh_size h));
          buf = pwrite buf 12 (to_le_bytes (bh_checksum h));
          buf = pwrite buf 20 (to_le_bytes (bh_version h))
      in buf)"

text \<open>The local function \<open>take::<N>\<close> of \<open>deserialize\<close>; \<open>buf.get(offset..end)\<close> is checked.\<close>

definition take_field :: "nat \<Rightarrow> bytes \<Rightarrow> nat \<Rightarrow> string \<Rightarrow> bytes res" where
  "take_field n buf off field =
     (if off + n \<le> length buf then Ok (pread buf off n) else Err (Error InvalidData field))"

definition deserialize :: "bytes \<Rightarrow> ('s, block_header) io" where
  "deserialize buf =
     (if length buf \<noteq> SERIALIZED_SIZE then fail InvalidData ''invalid block header size''
      else
        io_bind (lift_res (take_field 8 buf 0 ''invalid block header height field'')) (\<lambda>h.
        io_bind (lift_res (take_field 4 buf 8 ''invalid block header size field'')) (\<lambda>s.
        io_bind (lift_res (take_field 8 buf 12 ''invalid block header checksum field'')) (\<lambda>c.
        io_bind (lift_res (take_field 2 buf 20 ''invalid block header version field'')) (\<lambda>v.
        ret \<lparr>bh_height = from_le_bytes h, bh_size = from_le_bytes s,
             bh_checksum = from_le_bytes c, bh_version = from_le_bytes v\<rparr>)))))"

text \<open>The header a 22-byte buffer decodes to.\<close>

definition header_of :: "bytes \<Rightarrow> block_header" where
  "header_of buf =
     \<lparr>bh_height = from_le_bytes (pread buf 0 8), bh_size = from_le_bytes (pread buf 8 4),
      bh_checksum = from_le_bytes (pread buf 12 8), bh_version = from_le_bytes (pread buf 20 2)\<rparr>"

section \<open>Laws\<close>

lemma length_encode_entry [simp]: "length (encode_entry e) = 16"
  by (simp add: encode_entry_def)

lemma length_encode_header [simp]: "length (encode_header h) = 64"
  by (simp add: encode_header_def)

text \<open>The image of a block header, and its fields at their offsets.\<close>

lemma serialize_eq:
  "serialize h = to_le_bytes (bh_height h) @ to_le_bytes (bh_size h) @
     to_le_bytes (bh_checksum h) @ to_le_bytes (bh_version h)"
  by (simp add: serialize_def SERIALIZED_SIZE_def to_le_bytes_def pwrite_def replicate_numeral
      Let_def)

lemma length_serialize [simp]: "length (serialize h) = 22"
  by (simp add: serialize_eq)

lemma deserialize_eq: "length buf = 22 \<Longrightarrow> deserialize buf s = (Ok (header_of buf), s)"
  by (simp add: deserialize_def SERIALIZED_SIZE_def take_field_def io_bind_def io_simps header_of_def)

lemma deserialize_bad: "length buf \<noteq> 22 \<Longrightarrow>
     deserialize buf s = (Err (Error InvalidData ''invalid block header size''), s)"
  by (simp add: deserialize_def SERIALIZED_SIZE_def io_simps)

lemma pread_append_skip:
  "length xs \<le> off \<Longrightarrow> pread (xs @ ys) off n = pread ys (off - length xs) n"
  by (simp add: pread_def)

lemma pread_append_take: "length xs = n \<Longrightarrow> pread (xs @ ys) 0 n = xs"
  by (simp add: pread_def)

lemma pread_all: "length xs = n \<Longrightarrow> pread xs 0 n = xs"
  by (simp add: pread_def)

lemmas pread_fields = pread_append_skip pread_append_take pread_all

lemma header_of_serialize [simp]: "header_of (serialize h) = h"
  by (simp add: header_of_def serialize_eq pread_fields)

lemma deserialize_serialize [simp]: "deserialize (serialize h) s = (Ok h, s)"
  by (simp add: deserialize_eq)

lemma decode_encode_entry [simp]: "decode_entry (encode_entry e) = e"
  by (simp add: decode_entry_def encode_entry_def pread_fields)

lemma decode_encode_header [simp]: "decode_header (encode_header h) = h"
  by (simp add: decode_header_def encode_header_def pread_fields)

text \<open>The other direction: every byte string of the right length is the image of its decoding.\<close>

lemma pread_cons: "pread b off n @ drop (off + n) b = drop off b"
  by (simp add: pread_def) (metis add.commute append_take_drop_id drop_drop)

lemma pread_last: "off + n = length b \<Longrightarrow> pread b off n = drop off b"
  by (simp add: pread_def)

lemma encode_decode_entry:
  assumes len: "length b = 16" shows "encode_entry (decode_entry b) = b"
proof -
  have "encode_entry (decode_entry b) = pread b 0 8 @ pread b 8 4 @ pread b 12 4"
    using len by (simp add: encode_entry_def decode_entry_def to_from_le_bytes)
  also have "\<dots> = b"
    using len pread_cons [of b 0 8] pread_cons [of b 8 4] by (simp add: pread_last)
  finally show ?thesis .
qed

lemma encode_decode_header:
  assumes len: "length b = 64" shows "encode_header (decode_header b) = b"
proof -
  have "encode_header (decode_header b) =
      pread b 0 8 @ pread b 8 8 @ pread b 16 8 @ pread b 24 8 @ pread b 32 8 @ pread b 40 8 @
      pread b 48 16"
    using len by (simp add: encode_header_def decode_header_def to_from_le_bytes)
  also have "\<dots> = b"
    using len pread_cons [of b 0 8] pread_cons [of b 8 8] pread_cons [of b 16 8]
      pread_cons [of b 24 8] pread_cons [of b 32 8] pread_cons [of b 40 8]
    by (simp add: pread_last)
  finally show ?thesis .
qed

lemma serialize_deserialize:
  assumes "deserialize b s = (Ok h, t)" shows "serialize h = b"
proof -
  have len: "length b = 22" using assms deserialize_bad [of b s] by fastforce
  then have h: "serialize h = pread b 0 8 @ pread b 8 4 @ pread b 12 8 @ pread b 20 2"
    using assms by (auto simp: deserialize_eq header_of_def serialize_eq to_from_le_bytes)
  also have "\<dots> = b"
    using len pread_cons [of b 0 8] pread_cons [of b 8 4] pread_cons [of b 12 8]
    by (simp add: pread_last)
  finally show ?thesis .
qed

lemma encode_default_entry: "encode_entry default_entry = replicate 16 0"
  by (simp add: encode_entry_def default_entry_def to_le_bytes_def replicate_numeral)

end
