(* ===== verification/Codec.thy ===== *)
theory Codec
  imports Bytes Effects
begin

text \<open>
  Compression and checksums. The zstd, snappy and xxHash crates are not part of the repository:
  they are the fields of \<open>libs\<close>, an argument of every operation that uses them. Which codec a
  build uses is fixed by its cargo features; the default is zstd.
\<close>

record libs =
  feat_zstd :: bool
  feat_snappy :: bool
  zstd_encode_all :: "bytes \<Rightarrow> int \<Rightarrow> bytes option"
  zstd_decode_all :: "bytes \<Rightarrow> bytes option"
  snap_encode :: "bytes \<Rightarrow> bytes option"
  snap_decode :: "bytes \<Rightarrow> bytes option"
  xxh64 :: "bytes \<Rightarrow> u64 \<Rightarrow> u64"

definition ZSTD_COMPRESSION_LEVEL :: int where
  "ZSTD_COMPRESSION_LEVEL = 3"

definition compress :: "libs \<Rightarrow> bytes \<Rightarrow> bytes res" where
  "compress L data =
     (if feat_snappy L \<and> \<not> feat_zstd L then
        (case snap_encode L data of
           None \<Rightarrow> Panic ''Failed to write to encoder''
         | Some c \<Rightarrow> Ok c)
      else if feat_zstd L then
        (case zstd_encode_all L data ZSTD_COMPRESSION_LEVEL of
           None \<Rightarrow> Panic ''all in memory''
         | Some c \<Rightarrow> Ok c)
      else Ok data)"

definition decompress :: "libs \<Rightarrow> bytes \<Rightarrow> bytes res" where
  "decompress L compressed_data =
     (if feat_snappy L \<and> \<not> feat_zstd L then
        (case snap_decode L compressed_data of
           None \<Rightarrow> Err (Error InvalidData ''decompress failed'')
         | Some d \<Rightarrow> Ok d)
      else if feat_zstd L then
        (case zstd_decode_all L compressed_data of
           None \<Rightarrow> Err (Error InvalidData ''decompress failed'')
         | Some d \<Rightarrow> Ok d)
      else Ok compressed_data)"

text \<open>The documented behaviour relied on: decoding inverts encoding.\<close>

definition codecs_inverse :: "libs \<Rightarrow> bool" where
  "codecs_inverse L \<longleftrightarrow>
     (\<forall>d c. zstd_encode_all L d ZSTD_COMPRESSION_LEVEL = Some c \<longrightarrow> zstd_decode_all L c = Some d) \<and>
     (\<forall>d c. snap_encode L d = Some c \<longrightarrow> snap_decode L c = Some d)"

text \<open>Encoding into memory does not fail.\<close>

definition codecs_total :: "libs \<Rightarrow> bool" where
  "codecs_total L \<longleftrightarrow>
     (\<forall>d. zstd_encode_all L d ZSTD_COMPRESSION_LEVEL \<noteq> None) \<and> (\<forall>d. snap_encode L d \<noteq> None)"

text \<open>An encoded frame is never empty.\<close>

definition codecs_nonempty :: "libs \<Rightarrow> bool" where
  "codecs_nonempty L \<longleftrightarrow>
     (\<forall>d c. zstd_encode_all L d ZSTD_COMPRESSION_LEVEL = Some c \<longrightarrow> d \<noteq> [] \<longrightarrow> c \<noteq> []) \<and>
     (\<forall>d c. snap_encode L d = Some c \<longrightarrow> d \<noteq> [] \<longrightarrow> c \<noteq> [])"

lemma compress_nonempty:
  "codecs_nonempty L \<Longrightarrow> compress L d = Ok c \<Longrightarrow> d \<noteq> [] \<Longrightarrow> c \<noteq> []"
  by (auto simp: compress_def codecs_nonempty_def split: if_splits option.splits)

lemma decompress_compress:
  "codecs_inverse L \<Longrightarrow> compress L d = Ok c \<Longrightarrow> decompress L c = Ok d"
  by (auto simp: compress_def decompress_def codecs_inverse_def split: if_splits option.splits)

lemma compress_total:
  "codecs_total L \<Longrightarrow> \<exists>c. compress L d = Ok c"
  unfolding codecs_total_def compress_def
  by (cases "snap_encode L d"; cases "zstd_encode_all L d ZSTD_COMPRESSION_LEVEL") force+

lemma decompress_Err_kind: "decompress L c = Err e \<Longrightarrow> kind e = InvalidData"
  by (auto simp: decompress_def split: if_splits option.splits)

lemma decompress_not_panic: "decompress L c \<noteq> Panic m"
  by (auto simp: decompress_def split: option.splits)

text \<open>
  The build without either feature, with a checksum that adds the bytes up: an instance at which
  theorems about \<open>libs\<close> are exercised.
\<close>

definition plain_libs :: libs where
  "plain_libs =
     \<lparr>feat_zstd = False, feat_snappy = False,
      zstd_encode_all = (\<lambda>d l. Some d), zstd_decode_all = Some,
      snap_encode = Some, snap_decode = Some,
      xxh64 = (\<lambda>d seed. seed + sum_list (map ucast d))\<rparr>"

lemma plain_libs_ok [simp]:
  "codecs_inverse plain_libs" "codecs_total plain_libs" "codecs_nonempty plain_libs"
  by (simp_all add: codecs_inverse_def codecs_total_def codecs_nonempty_def plain_libs_def)

lemma plain_libs_id [simp]:
  "compress plain_libs d = Ok d" "decompress plain_libs d = Ok d"
  by (simp_all add: compress_def decompress_def plain_libs_def)

end
