(* ===== verification/Store.thy ===== *)
theory Store
  imports FileSet Layout Codec
begin

text \<open>
  The state of an open \<open>Store\<close> and the operations of \<open>store.rs\<close> on it, apart from opening and
  recovery: the index, the allocation of space, the contiguity counter, the checkpoint, the
  write and the read of a block. The mutex and the atomics are fields; a sequence of calls is
  the composition of their functions. Metrics counters have no effect and are left out, as are
  the fields that exist under \<open>cfg(test)\<close>.
\<close>

section \<open>Options and state\<close>

datatype sync_mode = Async | Sync

definition DEFAULT_MAX_DATA_FILES :: nat where
  "DEFAULT_MAX_DATA_FILES = 10"

record store_options =
  opt_cache_size :: nat
  opt_truncate :: bool
  opt_sync :: sync_mode
  opt_minimum_height :: u64
  opt_max_data_file_size :: "u64 option"
  opt_max_data_files :: nat

definition default_options :: store_options where
  "default_options =
     \<lparr>opt_cache_size = 1024, opt_truncate = False, opt_sync = Async, opt_minimum_height = 1,
      opt_max_data_file_size = None, opt_max_data_files = DEFAULT_MAX_DATA_FILES\<rparr>"

record store = fset +
  index_file :: handle
  data_highwater :: u64
  header :: index_file_header
  sync :: sync_mode
  max_contiguous_height :: u64
  height_highwater :: u64
  last_checkpoint_offset :: u64
  recovered :: bool

definition CHECKPOINT_INTERVAL :: u64 where
  "CHECKPOINT_INTERVAL = 1024"

definition CHECKPOINT_BYTES :: u64 where
  "CHECKPOINT_BYTES = 64 * 1024 * 1024"

definition min_block_height :: "'z store_scheme \<Rightarrow> u64" where
  "min_block_height s = ih_min_height (header s)"

section \<open>The index\<close>

definition index_entry_offset :: "'z store_scheme \<Rightarrow> u64 \<Rightarrow> u64 option" where
  "index_entry_offset s height =
     Option.bind (checked_sub height (ih_min_height (header s))) (\<lambda>d.
     Option.bind (checked_mul d (u64_of_len entry_size)) (\<lambda>o'.
     checked_add o' (u64_of_len header_size)))"

definition read_index_entry :: "u64 \<Rightarrow> ('z store_scheme, index_entry option) io" where
  "read_index_entry height =
     io_bind (gets (\<lambda>s. index_entry_offset s height)) (\<lambda>o'.
     io_bind (ok_or o' InvalidInput ''Invalid block height'') (\<lambda>offset.
     io_bind (read_at IndexFile entry_size offset) (\<lambda>bs.
     ret (Some (decode_entry (fill_buf (encode_entry default_entry) bs))))))"

definition update_index_at :: "u64 \<Rightarrow> index_entry \<Rightarrow> ('z store_scheme, unit) io" where
  "update_index_at offset entry = write_all_at IndexFile (encode_entry entry) offset"

definition update_index_if_changed :: "u64 \<Rightarrow> index_entry \<Rightarrow> ('z store_scheme, unit) io" where
  "update_index_if_changed height entry =
     io_bind (gets (\<lambda>s. index_entry_offset s height)) (\<lambda>o'.
     io_bind (ok_or o' InvalidInput ''Invalid block height'') (\<lambda>offset.
     io_bind (read_at IndexFile entry_size offset) (\<lambda>bs.
     let existing = decode_entry (fill_buf (encode_entry default_entry) bs)
     in if length bs = entry_size \<and> ie_offset existing = ie_offset entry \<and>
           ie_size existing = ie_size entry \<and> ie_reserved existing = ie_reserved entry
        then ret ()
        else update_index_at offset entry)))"

section \<open>Space in the data files\<close>

definition advance_to_next_file :: "u32 \<Rightarrow> u64 \<Rightarrow> ('s, u64) io" where
  "advance_to_next_file current_file_idx cap =
     ok_or (Option.bind (checked_add current_file_idx 1) (\<lambda>i. checked_mul (ucast i) cap))
       InvalidData
       (''data offset overflow during recovery: cannot advance past file '' @
        dec (unat current_file_idx) @ '' with cap '' @ dec (unat cap))"

definition reserve_space :: "u64 \<Rightarrow> ('z store_scheme, u64 \<times> u64 \<times> u64) io" where
  "reserve_space size_with_header =
     io_bind (gets fs_max_data_file_size) (\<lambda>max.
     if (case max of None \<Rightarrow> False | Some cap \<Rightarrow> cap < size_with_header)
     then fail InvalidInput
            (''block size '' @ dec (unat size_with_header) @ '' exceeds max_data_file_size '' @
             (case max of None \<Rightarrow> [] | Some cap \<Rightarrow> dec (unat cap)))
     else
       io_bind (gets data_highwater) (\<lambda>current.
       io_bind
         (case max of
            None \<Rightarrow> ret current
          | Some cap \<Rightarrow>
              io_bind (ok_or (checked_add (current mod cap) size_with_header)
                         InvalidInput
                         (''block end overflow: in-file offset '' @ dec (unat (current mod cap)) @
                          '' + size '' @ dec (unat size_with_header) @ '' > u64::MAX'')) (\<lambda>end_within_file.
              if end_within_file \<le> cap then ret current
              else
                io_bind (ok_or (u32_of_u64 (current div cap))
                           InvalidInput
                           (''file index '' @ dec (unat (current div cap)) @ '' exceeds u32::MAX (cap='' @
                            dec (unat cap) @ '')'')) (\<lambda>current_file_idx.
                advance_to_next_file current_file_idx cap))) (\<lambda>write_offset.
       io_bind (ok_or (checked_add write_offset size_with_header)
                  InvalidInput
                  (''data highwater overflow: write_offset '' @ dec (unat write_offset) @ '' + size '' @
                   dec (unat size_with_header) @ '' > u64::MAX'')) (\<lambda>new_highwater.
       io_bind (modify (\<lambda>s. s\<lparr>data_highwater := new_highwater\<rparr>)) (\<lambda>_.
       ret (write_offset, new_highwater, current))))))"

definition release_reservation :: "u64 \<Rightarrow> u64 \<Rightarrow> 'z store_scheme \<Rightarrow> 'z store_scheme" where
  "release_reservation previous_highwater reserved_end s =
     (if data_highwater s = reserved_end then s\<lparr>data_highwater := previous_highwater\<rparr> else s)"

section \<open>Heights\<close>

definition update_highwater :: "u64 \<Rightarrow> ('z store_scheme, bool) io" where
  "update_highwater height s =
     (if height_highwater s < height then (Ok True, s\<lparr>height_highwater := height\<rparr>)
      else (Ok False, s))"

lemma unat_entry_size [simp]: "unat (u64_of_len entry_size) = 16"
  and unat_header_size [simp]: "unat (u64_of_len header_size) = 64"
  by (simp_all add: entry_size_def header_size_def)

lemma index_entry_offset_Some:
  "index_entry_offset s h = Some o' \<longleftrightarrow>
     unat (ih_min_height (header s)) \<le> unat h \<and>
     (unat h - unat (ih_min_height (header s))) * 16 + 64 < 2 ^ 64 \<and>
     unat o' = (unat h - unat (ih_min_height (header s))) * 16 + 64"
  (is "?l \<longleftrightarrow> ?r")
proof
  assume ?l
  then show ?r by (auto simp: index_entry_offset_def bind_eq_Some_conv checked)
next
  assume r: ?r
  let ?m = "ih_min_height (header s)"
  have d: "unat (h - ?m) = unat h - unat ?m"
    using r by (simp add: unat_minus_le word_le_nat_alt)
  have "unat ((h - ?m) * u64_of_len entry_size) = (unat h - unat ?m) * 16"
    using r d by (subst unat_times_fits) simp_all
  with r d have "checked_sub h ?m = Some (h - ?m)"
    "checked_mul (h - ?m) (u64_of_len entry_size) = Some ((h - ?m) * u64_of_len entry_size)"
    "checked_add ((h - ?m) * u64_of_len entry_size) (u64_of_len header_size) = Some o'"
    by (auto simp: checked)
  then show ?l by (simp add: index_entry_offset_def)
qed

lemma read_index_entry_cases:
  assumes "read_index_entry h s = (r, t)"
  obtains (bad) "index_entry_offset s h = None" "r = Err (Error InvalidInput ''Invalid block height'')" "t = s"
    | (ok) off fs where "index_entry_offset s h = Some off" "t = s\<lparr>faults := fs\<rparr>"
        "r = Ok (Some (decode_entry (fill_buf (encode_entry default_entry)
               (pread (bytes_of s IndexFile) (unat off) 16))))"
    | (failed) off e fs where "index_entry_offset s h = Some off" "r = Err e" "t = s\<lparr>faults := fs\<rparr>"
proof (cases "index_entry_offset s h")
  case None
  then show ?thesis
    using assms by (intro bad) (auto simp: read_index_entry_def io_bind_def io_simps)
next
  case (Some off)
  obtain r' u where rd: "read_at IndexFile entry_size off s = (r', u)" by fastforce
  then obtain fs where u: "u = s\<lparr>faults := fs\<rparr>" using read_at_state by blast
  show ?thesis
  proof (cases r')
    case (Ok bs)
    then have "bs = pread (bytes_of s IndexFile) (unat off) 16"
      using rd by (auto simp: entry_size_def elim: read_at_OkE)
    then show ?thesis
      using assms Some rd Ok u
      by (intro ok [of off fs]) (auto simp: read_index_entry_def io_bind_def io_simps)
  next
    case (Err e)
    then show ?thesis
      using assms Some rd u
      by (intro failed [of off e fs]) (auto simp: read_index_entry_def io_bind_def io_simps)
  next
    case (Panic p)
    then show ?thesis using rd by (auto simp: read_at_def elim: syscallE)
  qed
qed

text \<open>
  The loop of \<open>advance_max_contiguous_height\<close>: \<open>cur\<close> is the height the counter has just been
  raised to. It stops at a gap, at the end of the addressable index, on a failed read, and when
  another writer has moved the counter.
\<close>

function cascade :: "u64 \<Rightarrow> 'z store_scheme \<Rightarrow> 'z store_scheme" where
  "cascade cur s =
     (case read_index_entry (cur + 1) s of
        (Ok (Some entry), t) \<Rightarrow>
          if zero_entry entry then t
          else if max_contiguous_height t = cur
          then cascade (cur + 1) (t\<lparr>max_contiguous_height := cur + 1\<rparr>)
          else t
      | (_, t) \<Rightarrow> t)"
  by pat_completeness auto

text \<open>
  The next height wraps to 0 after the last one. Height 0 is readable only with \<open>min_height = 0\<close>,
  and then the last height is not, so every step makes progress.
\<close>

definition cascade_measure :: "u64 \<Rightarrow> 'z store_scheme \<Rightarrow> nat" where
  "cascade_measure cur s =
     (if cur = u64_max then (if ih_min_height (header s) = 0 then 2 ^ 64 else 0)
      else 2 ^ 64 - 1 - unat cur)"

lemma unat_u64_max: "unat u64_max = 2 ^ 64 - 1"
  using unat_max_word [where 'a = 64] by simp

lemma unat_Suc_u64: "cur \<noteq> u64_max \<Longrightarrow> unat (cur + 1 :: u64) = unat cur + 1"
  using unat_lt_64 [of cur] unat_u64_max word_unat_eq_iff [of cur u64_max]
  by (subst unat_plus_fits) auto

lemma cascade_measure_decreases:
  assumes "index_entry_offset s (cur + 1) \<noteq> None" and "header t = header s"
  shows "cascade_measure (cur + 1) t < cascade_measure cur s"
proof -
  let ?m = "unat (ih_min_height (header s))"
  from assms(1) have r: "?m \<le> unat (cur + 1)" "(unat (cur + 1) - ?m) * 16 + 64 < 2 ^ 64"
    by (auto simp: index_entry_offset_Some)
  show ?thesis
  proof (cases "cur = u64_max")
    case True
    then have "ih_min_height (header s) = 0" using r(1) by (simp add: unat_eq_zero)
    with True show ?thesis by (simp add: cascade_measure_def)
  next
    case False
    note n = unat_Suc_u64 [OF False]
    show ?thesis
    proof (cases "cur + 1 = u64_max")
      case True
      then have "unat (cur + 1) = 2 ^ 64 - 1" by (simp only: unat_u64_max)
      then have "ih_min_height (header s) \<noteq> 0" using r(2) by auto
      then have "cascade_measure (cur + 1) t = 0"
        using True assms(2) by (simp only: cascade_measure_def) simp
      moreover have "unat cur < 2 ^ 64 - 1" using n unat_lt_64 [of "cur + 1"] by linarith
      ultimately show ?thesis using \<open>cur \<noteq> u64_max\<close> by (simp add: cascade_measure_def)
    next
      case False
      with \<open>cur \<noteq> u64_max\<close> n unat_lt_64 [of "cur + 1"] show ?thesis
        by (simp add: cascade_measure_def)
    qed
  qed
qed

lemma cascade_step_decreases:
  assumes "read_index_entry (cur + 1) s = (Ok (Some entry), t)"
  shows "cascade_measure (cur + 1) (t\<lparr>max_contiguous_height := cur + 1\<rparr>) < cascade_measure cur s"
proof -
  from assms have "index_entry_offset s (cur + 1) \<noteq> None" "header t = header s"
    by (auto elim: read_index_entry_cases)
  then show ?thesis
    using cascade_measure_decreases [of s cur "t\<lparr>max_contiguous_height := cur + 1\<rparr>"] by simp
qed

termination cascade
  by (relation "measure (\<lambda>(cur, s). cascade_measure cur s)")
     (auto intro!: cascade_step_decreases dest: sym)

declare cascade.simps [simp del]

definition advance_max_contiguous_height :: "u64 \<Rightarrow> 'z store_scheme \<Rightarrow> 'z store_scheme" where
  "advance_max_contiguous_height height s =
     (let prev = saturating_sub height 1
      in if max_contiguous_height s = prev
         then cascade (prev + 1) (s\<lparr>max_contiguous_height := height\<rparr>)
         else s)"

section \<open>Checkpoint\<close>

definition checkpoint :: "u64 \<Rightarrow> ('z store_scheme, unit) io" where
  "checkpoint saved_offset =
     io_bind (gets (\<lambda>s. (height_highwater s, header s, sync s))) (\<lambda>(highwater, hdr, mode).
     if saved_offset = 0 \<and> ih_min_height hdr \<le> highwater
     then fail InvalidData ''refusing to checkpoint next_write_offset=0''
     else
       io_bind (if mode = Sync then sync_all IndexFile else ret ()) (\<lambda>_.
       io_bind (gets (\<lambda>s. hdr\<lparr>ih_next_write_offset := saved_offset,
                             ih_max_height := height_highwater s,
                             ih_highest_contiguous := max_contiguous_height s\<rparr>)) (\<lambda>hdr'.
       io_bind (write_all_at IndexFile (encode_header hdr') 0) (\<lambda>_.
       modify (\<lambda>s. s\<lparr>last_checkpoint_offset := saved_offset\<rparr>)))))"

section \<open>Writing a block\<close>

text \<open>The closure of \<open>write_block\<close>: payload, then header, then the sync.\<close>

definition write_data :: "u64 \<Rightarrow> bytes \<Rightarrow> block_header \<Rightarrow> ('z store_scheme, unit) io" where
  "write_data offset compressed_block hdr =
     io_bind (fs_resolve offset) (\<lambda>(data_file, local_offset, _).
     io_bind (write_all_at (hfile data_file) compressed_block
                (local_offset + u64_of_len SERIALIZED_SIZE)) (\<lambda>_.
     io_bind (write_all_at (hfile data_file) (serialize hdr) local_offset) (\<lambda>_.
     io_bind (gets sync) (\<lambda>mode.
     if mode = Sync then sync_all (hfile data_file) else ret ()))))"

definition maybe_checkpoint :: "u64 \<Rightarrow> bool \<Rightarrow> u64 \<Rightarrow> ('z store_scheme, unit) io" where
  "maybe_checkpoint height tip_rose saved_offset =
     io_bind (gets (\<lambda>s. saturating_sub saved_offset (last_checkpoint_offset s)))
       (\<lambda>bytes_since_checkpoint.
     if tip_rose \<and> height mod CHECKPOINT_INTERVAL = 0 \<or> CHECKPOINT_BYTES \<le> bytes_since_checkpoint
     then checkpoint saved_offset
     else ret ())"

text \<open>The message of the panic of \<open>compressed_block.len().try_into().unwrap()\<close>.\<close>

definition try_from_int_error :: string where
  "try_from_int_error = ''called `Result::unwrap()` on an `Err` value: TryFromIntError(())''"

definition write_block :: "libs \<Rightarrow> u64 \<Rightarrow> bytes \<Rightarrow> ('z store_scheme, unit) io" where
  "write_block L height block =
     (if block = [] then fail InvalidInput ''Block is empty''
      else
        io_bind (ok_or (u32_of_len (length block)) InvalidInput ''Block too large'') (\<lambda>_.
        io_bind (lift_res (compress L block)) (\<lambda>compressed_block.
        io_bind (expect (u32_of_len (length compressed_block)) try_from_int_error)
          (\<lambda>compressed_block_len.
        io_bind (gets (\<lambda>s. index_entry_offset s height)) (\<lambda>o'.
        io_bind (ok_or o' InvalidInput ''Invalid block height'') (\<lambda>index_offset.
        io_bind (expect (checked_add (u64_of_len (length compressed_block))
                           (u64_of_len SERIALIZED_SIZE))
                   ''blocks will never be so large as to overflow u64'') (\<lambda>size_with_header.
        let hdr = \<lparr>bh_height = height, bh_size = compressed_block_len,
                   bh_checksum = xxh64 L block 0, bh_version = BLOCK_ENTRY_VERSION\<rparr>
        in
          io_bind (reserve_space size_with_header)
            (\<lambda>(offset, saved_offset, previous_highwater).
          io_bind (on_err (write_data offset compressed_block hdr)
                     (release_reservation previous_highwater saved_offset)) (\<lambda>_.
          io_bind (update_index_at index_offset
                     \<lparr>ie_offset = offset, ie_size = compressed_block_len, ie_reserved = 0\<rparr>) (\<lambda>_.
          io_bind (modify (advance_max_contiguous_height height)) (\<lambda>_.
          io_bind (update_highwater height) (\<lambda>tip_rose.
          maybe_checkpoint height tip_rose saved_offset))))))))))))"

section \<open>Reading a block\<close>

definition read_block :: "libs \<Rightarrow> u64 \<Rightarrow> ('z store_scheme, bytes option) io" where
  "read_block L height =
     io_bind (read_index_entry height) (\<lambda>found.
     case found of
       None \<Rightarrow> ret None
     | Some entry \<Rightarrow>
         if ie_size entry = 0 then ret None
         else if MAX_BLOCK_SIZE < ie_size entry
         then fail InvalidData ''block size too large''
         else
           io_bind (expect (checked_add (ucast (ie_size entry)) (u64_of_len SERIALIZED_SIZE))
                      ''block size overflow'') (\<lambda>read_size.
           io_bind (fs_resolve (ie_offset entry)) (\<lambda>(data_file, local_offset, _).
           io_bind (read_exact_at (hfile data_file) (unat read_size) local_offset) (\<lambda>buf.
           io_bind (deserialize (take SERIALIZED_SIZE buf)) (\<lambda>hdr.
           if bh_size hdr \<noteq> ie_size entry
           then fail InvalidData ''block size in index file does not match data''
           else
             io_bind (lift_res (decompress L (drop SERIALIZED_SIZE buf))) (\<lambda>block.
             if xxh64 L block 0 \<noteq> bh_checksum hdr
             then fail InvalidData ''checksum mismatch''
             else ret (Some block)))))))"

end
