(* ===== verification/Blocks.thy ===== *)
theory Blocks
  imports Store
begin

text \<open>
  The abstract view of a store: the finite map from heights to blocks that its files hold, as
  a pure function of the bytes on disk, and the invariant that ties the index to the data
  files. \<open>peek\<close> is what a read must return; \<open>contents\<close> is the map; \<open>sound\<close> says that every
  index entry lies below the high-water mark, within one data file, over bytes that exist.
\<close>

section \<open>The view\<close>

definition entry_at :: "'z store_scheme \<Rightarrow> u64 \<Rightarrow> index_entry" where
  "entry_at s off = decode_entry (zread (bytes_of s IndexFile) (unat off) 16)"

definition region :: "'z store_scheme \<Rightarrow> u64 \<Rightarrow> nat \<Rightarrow> bytes" where
  "region s off n =
     (case split_offset (fs_max_data_file_size s) off of
        (i, local) \<Rightarrow> pread (bytes_of s (path_for i)) (unat local) n)"

text \<open>The block in a buffer that should hold a header and \<open>sz\<close> payload bytes.\<close>

definition block_in :: "libs \<Rightarrow> u32 \<Rightarrow> bytes \<Rightarrow> bytes res" where
  "block_in L sz buf =
     (if length buf \<noteq> 22 + unat sz
      then Err (Error UnexpectedEof ''failed to fill whole buffer'')
      else if bh_size (header_of (take 22 buf)) \<noteq> sz
      then Err (Error InvalidData ''block size in index file does not match data'')
      else
        (case decompress L (drop 22 buf) of
           Ok block \<Rightarrow>
             if xxh64 L block 0 \<noteq> bh_checksum (header_of (take 22 buf))
             then Err (Error InvalidData ''checksum mismatch'')
             else Ok block
         | Err e \<Rightarrow> Err e
         | Panic m \<Rightarrow> Panic m))"

fun res_map :: "('a \<Rightarrow> 'b) \<Rightarrow> 'a res \<Rightarrow> 'b res" where
  "res_map f (Ok a) = Ok (f a)"
| "res_map f (Err e) = Err e"
| "res_map f (Panic m) = Panic m"

definition peek :: "libs \<Rightarrow> 'z store_scheme \<Rightarrow> u64 \<Rightarrow> bytes option res" where
  "peek L s height =
     (case index_entry_offset s height of
        None \<Rightarrow> Err (Error InvalidInput ''Invalid block height'')
      | Some off \<Rightarrow>
          (let e = entry_at s off
           in if ie_size e = 0 then Ok None
              else if MAX_BLOCK_SIZE < ie_size e
              then Err (Error InvalidData ''block size too large'')
              else res_map Some
                     (block_in L (ie_size e) (region s (ie_offset e) (22 + unat (ie_size e))))))"

definition contents :: "libs \<Rightarrow> 'z store_scheme \<Rightarrow> u64 \<Rightarrow> bytes option" where
  "contents L s height = (case peek L s height of Ok x \<Rightarrow> x | Err e \<Rightarrow> None | Panic m \<Rightarrow> None)"

section \<open>The invariant\<close>

text \<open>The \<open>n\<close> bytes at \<open>off\<close> were reserved together and have been written.\<close>

definition unsplit :: "'z store_scheme \<Rightarrow> u64 \<Rightarrow> nat \<Rightarrow> bool" where
  "unsplit s off n \<longleftrightarrow>
     (case fs_max_data_file_size s of
        None \<Rightarrow> True
      | Some cap \<Rightarrow> unat off mod unat cap + n \<le> unat cap)"

definition placed :: "'z store_scheme \<Rightarrow> u64 \<Rightarrow> nat \<Rightarrow> bool" where
  "placed s off n \<longleftrightarrow>
     unat off + n \<le> unat (data_highwater s) \<and> unsplit s off n \<and> length (region s off n) = n"

definition entry_ok :: "'z store_scheme \<Rightarrow> u64 \<Rightarrow> bool" where
  "entry_ok s height \<longleftrightarrow>
     (case index_entry_offset s height of
        None \<Rightarrow> True
      | Some off \<Rightarrow>
          (let e = entry_at s off in ie_size e = 0 \<or> placed s (ie_offset e) (22 + unat (ie_size e))))"

definition sound :: "'z store_scheme \<Rightarrow> bool" where
  "sound s \<longleftrightarrow> (\<forall>height. entry_ok s height)"

text \<open>Every byte below the high-water mark is in a file whose index fits in 32 bits.\<close>

definition addressable :: "'z store_scheme \<Rightarrow> bool" where
  "addressable s \<longleftrightarrow>
     (case fs_max_data_file_size s of
        None \<Rightarrow> True
      | Some cap \<Rightarrow> unat (data_highwater s) div unat cap < 2 ^ 32)"

text \<open>
  A store whose calls succeed: no fault is scripted, no other process holds a data file, and no
  directory has the name of one.
\<close>

definition ready :: "'z store_scheme \<Rightarrow> bool" where
  "ready s \<longleftrightarrow>
     fs_inv s \<and> own_locks s \<and> faults s = [] \<and> (\<forall>i. \<not> is_dir s (path_for i))"

section \<open>States with the same blocks\<close>

definition same_blocks :: "'z store_scheme \<Rightarrow> 'z store_scheme \<Rightarrow> bool" where
  "same_blocks s t \<longleftrightarrow>
     (\<forall>i. bytes_of t (path_for i) = bytes_of s (path_for i)) \<and>
     (\<forall>off. 64 \<le> off \<longrightarrow>
        zread (bytes_of t IndexFile) off 16 = zread (bytes_of s IndexFile) off 16) \<and>
     fs_max_data_file_size t = fs_max_data_file_size s \<and>
     header t = header s \<and> data_highwater t = data_highwater s"

lemma same_blocks_refl [simp]: "same_blocks s s"
  by (simp add: same_blocks_def)

lemma same_blocks_trans: "same_blocks s t \<Longrightarrow> same_blocks t u \<Longrightarrow> same_blocks s u"
  by (simp add: same_blocks_def)

lemma index_entry_offset_header:
  "header t = header s \<Longrightarrow> index_entry_offset t = index_entry_offset s"
  by (simp add: index_entry_offset_def fun_eq_iff)

lemma index_entry_offset_ge: "index_entry_offset s h = Some off \<Longrightarrow> 64 \<le> unat off"
  by (simp add: index_entry_offset_Some)

lemma region_cong:
  "(\<And>i. bytes_of t (path_for i) = bytes_of s (path_for i)) \<Longrightarrow>
     fs_max_data_file_size t = fs_max_data_file_size s \<Longrightarrow> region t off n = region s off n"
  by (simp add: region_def split: prod.split)

lemma same_blocks_view:
  assumes "same_blocks s t"
  shows "peek L t h = peek L s h" and "contents L t h = contents L s h"
    and "entry_ok t h = entry_ok s h" and "sound t = sound s"
    and "addressable t = addressable s"
proof -
  have o: "index_entry_offset t = index_entry_offset s"
    using assms by (intro index_entry_offset_header) (simp add: same_blocks_def)
  have r: "region t = region s"
    using assms by (intro ext region_cong) (simp_all add: same_blocks_def)
  have e: "entry_at t off = entry_at s off" if "index_entry_offset s h = Some off" for off h
    using assms index_entry_offset_ge [OF that] by (simp add: same_blocks_def entry_at_def)
  have p: "placed t = placed s"
    using assms r by (simp add: placed_def unsplit_def same_blocks_def fun_eq_iff)
  show pk: "peek L t h = peek L s h" for h
    using o r e by (simp add: peek_def Let_def split: option.split)
  then show "contents L t h = contents L s h" by (simp add: contents_def)
  show ok: "entry_ok t h = entry_ok s h" for h
    using o p e by (simp add: entry_ok_def Let_def split: option.split)
  then show "sound t = sound s" by (simp add: sound_def)
  show "addressable t = addressable s" using assms by (simp add: addressable_def same_blocks_def split: option.split)
qed

lemma same_files_blocks:
  assumes "same_files s t" shows "same_blocks s t"
proof -
  have "store.data_highwater t = store.data_highwater s" "header t = header s"
    using assms by (cases s, cases t, simp add: same_files_def)+
  then show ?thesis using assms by (auto simp: same_files_def same_blocks_def)
qed

lemma fs_inv_cong:
  "fs_inner t = fs_inner s \<Longrightarrow> locks t = locks s \<Longrightarrow> next_fd t = next_fd s \<Longrightarrow>
     fs_max_data_file_size t = fs_max_data_file_size s \<Longrightarrow> fs_inv t = fs_inv s"
  by (simp add: fs_inv_def)

lemma own_locks_cong:
  "fs_inner t = fs_inner s \<Longrightarrow> locks t = locks s \<Longrightarrow> own_locks t = own_locks s"
  by (simp add: own_locks_def)

lemma ready_cong:
  "fs_inner t = fs_inner s \<Longrightarrow> locks t = locks s \<Longrightarrow> next_fd t = next_fd s \<Longrightarrow>
     fs_max_data_file_size t = fs_max_data_file_size s \<Longrightarrow> faults t = faults s \<Longrightarrow>
     is_dir t = is_dir s \<Longrightarrow> ready t = ready s"
  by (simp add: ready_def cong: fs_inv_cong own_locks_cong)

section \<open>Opening the file of an offset\<close>

lemma fs_resolve_eq:
  "fs_resolve off s =
     (case split_offset (fs_max_data_file_size s) off of
        (i, local) \<Rightarrow> io_bind (get_or_open i) (\<lambda>h. ret (h, local, i)) s)"
  by (simp add: fs_resolve_def io_simps split: prod.split)

lemma fs_resolve_cases:
  assumes "fs_resolve off s = (r, t)" and inv: "fs_inv s"
    and sp: "split_offset (fs_max_data_file_size s) off = (i, local)"
  obtains (ok) h where "r = Ok (h, local, i)" "hfile h = path_for i" "same_files s t" "fs_inv t"
    | (failed) e where "r = Err e" "same_files s t" "fs_inv t"
proof -
  obtain r' u where g: "get_or_open i s = (r', u)" by fastforce
  note u = get_or_open_same_files [OF g] get_or_open_fs_inv [OF g inv]
  have t: "io_bind (get_or_open i) (\<lambda>h. ret (h, local, i)) s = (r, t)"
    using assms(1) sp by (simp add: fs_resolve_eq)
  show ?thesis
  proof (cases r')
    case (Ok h)
    then show ?thesis
      using t g u get_or_open_path [OF _ inv] by (intro ok) (auto simp: io_bind_def io_simps)
  next
    case (Err e)
    then show ?thesis using t g u by (intro failed) (auto simp: io_bind_def)
  next
    case (Panic m)
    then show ?thesis using g by (auto elim: get_or_open_cases)
  qed
qed

lemma fs_resolve_ready:
  assumes "ready s" and sp: "split_offset (fs_max_data_file_size s) off = (i, local)"
  obtains h t where "fs_resolve off s = (Ok (h, local, i), t)" "hfile h = path_for i"
    "same_files s t" "ready t"
proof -
  have s: "fs_inv s" "own_locks s" "faults s = []" "\<not> is_dir s (path_for i)"
    using assms by (auto simp: ready_def)
  obtain h t where g: "get_or_open i s = (Ok h, t)" by (rule get_or_open_succeeds [OF s])
  note st = get_or_open_same_files [OF g]
  have "ready t"
    using assms(1) st get_or_open_fs_inv [OF g s(1)] get_or_open_own_locks [OF g s(1,2)]
    by (simp add: ready_def same_files_def)
  moreover have "fs_resolve off s = (Ok (h, local, i), t)"
    using sp g by (simp add: fs_resolve_eq io_bind_def io_simps)
  ultimately show ?thesis using that get_or_open_path [OF g s(1)] st by blast
qed

section \<open>Reading refines the view\<close>

lemma entry_at_fill:
  "decode_entry (fill_buf (encode_entry default_entry) (pread (bytes_of s IndexFile) (unat off) 16)) =
     entry_at s off"
  by (simp add: entry_at_def encode_default_entry fill_zeros)

text \<open>The part of \<open>read_block\<close> that follows the read of the bytes.\<close>

lemma decode_tail_eq:
  "length buf = 22 + unat sz \<Longrightarrow>
   io_bind (deserialize (take SERIALIZED_SIZE buf)) (\<lambda>hdr.
     if bh_size hdr \<noteq> sz
     then fail InvalidData ''block size in index file does not match data''
     else
       io_bind (lift_res (decompress L (drop SERIALIZED_SIZE buf))) (\<lambda>block.
       if xxh64 L block 0 \<noteq> bh_checksum hdr
       then fail InvalidData ''checksum mismatch''
       else ret (Some block))) s =
   (res_map Some (block_in L sz buf), s)"
  by (cases "decompress L (drop 22 buf)")
     (simp_all add: io_bind_def SERIALIZED_SIZE_def deserialize_eq block_in_def io_simps)

lemma unat_read_size:
  "checked_add (ucast (sz :: u32)) (u64_of_len SERIALIZED_SIZE) = Some n \<longleftrightarrow>
     unat n = 22 + unat sz"
proof -
  have u: "unat (ucast sz :: u64) = unat sz" by (simp add: unat_ucast_up_64)
  have l: "unat sz + 22 < 2 ^ 64" using unat_lt_32 [of sz] by simp
  then have "unat (ucast sz + 22 :: u64) = unat sz + 22"
    using u unat_plus_fits [of "ucast sz :: u64" 22] by simp
  then show ?thesis
    using u l by (auto simp: checked SERIALIZED_SIZE_def word_unat_eq_iff)
qed

lemma read_size_exists:
  "\<exists>n. checked_add (ucast (sz :: u32)) (u64_of_len SERIALIZED_SIZE) = Some n \<and> unat n = 22 + unat sz"
proof -
  have "unat (word_of_nat (22 + unat sz) :: u64) = 22 + unat sz"
    using unat_lt_32 [of sz] by (subst unat_of_nat) simp
  then show ?thesis using unat_read_size by blast
qed

lemma read_block_entry:
  assumes e: "read_index_entry h s = (Ok (Some e), u)"
    and nz: "ie_size e \<noteq> 0" and mx: "\<not> MAX_BLOCK_SIZE < ie_size e"
  shows "read_block L h s =
    io_bind (fs_resolve (ie_offset e)) (\<lambda>(f, local, _).
    io_bind (read_exact_at (hfile f) (22 + unat (ie_size e)) local) (\<lambda>buf.
    \<lambda>v. (res_map Some (block_in L (ie_size e) buf), v))) u"
proof -
  obtain n where n: "checked_add (ucast (ie_size e)) (u64_of_len SERIALIZED_SIZE) = Some n"
    "unat n = 22 + unat (ie_size e)" using read_size_exists by blast
  have "read_block L h s =
    io_bind (fs_resolve (ie_offset e)) (\<lambda>(f, local, _).
    io_bind (read_exact_at (hfile f) (22 + unat (ie_size e)) local) (\<lambda>buf.
    io_bind (deserialize (take SERIALIZED_SIZE buf)) (\<lambda>hdr.
     if bh_size hdr \<noteq> ie_size e
     then fail InvalidData ''block size in index file does not match data''
     else
       io_bind (lift_res (decompress L (drop SERIALIZED_SIZE buf))) (\<lambda>block.
       if xxh64 L block 0 \<noteq> bh_checksum hdr
       then fail InvalidData ''checksum mismatch''
       else ret (Some block))))) u"
    using n nz mx by (simp add: read_block_def io_bind_evals(1) [where m = "read_index_entry h", OF e] io_simps)
  also have "\<dots> = io_bind (fs_resolve (ie_offset e)) (\<lambda>(f, local, _).
    io_bind (read_exact_at (hfile f) (22 + unat (ie_size e)) local) (\<lambda>buf.
    \<lambda>v. (res_map Some (block_in L (ie_size e) buf), v))) u"
    by (auto intro!: io_bind_cong decode_tail_eq elim!: read_exact_at_OkE split: prod.split)
  finally show ?thesis .
qed

lemma read_block_no_entry:
  "index_entry_offset s h = None \<Longrightarrow>
     read_block L h s = (Err (Error InvalidInput ''Invalid block height''), s)"
  by (simp add: read_block_def read_index_entry_def io_bind_def io_simps)

lemma read_block_small_entry:
  assumes e: "read_index_entry h s = (Ok (Some e), u)"
  shows "ie_size e = 0 \<Longrightarrow> read_block L h s = (Ok None, u)"
    and "ie_size e \<noteq> 0 \<Longrightarrow> MAX_BLOCK_SIZE < ie_size e \<Longrightarrow>
      read_block L h s = (Err (Error InvalidData ''block size too large''), u)"
  by (simp_all add: read_block_def io_bind_evals(1) [where m = "read_index_entry h", OF e] io_simps)

lemma faults_update_files [simp]:
  "same_files s (s\<lparr>faults := fs\<rparr>) \<longleftrightarrow> faults s = [] \<longrightarrow> fs = []"
  by (auto simp: same_files_def fun_eq_iff)

lemma read_at_faults: "read_at f n off s = (r, t) \<Longrightarrow> faults s = [] \<Longrightarrow> faults t = []"
  by (auto)

lemma read_exact_at_faults:
  "read_exact_at f n off s = (r, t) \<Longrightarrow> faults s = [] \<Longrightarrow> faults t = []"
  by (auto simp: read_exact_at_def io_bind_def io_simps split: if_splits)

lemma read_index_entry_faults:
  "read_index_entry h s = (r, t) \<Longrightarrow> faults s = [] \<Longrightarrow> faults t = []"
  by (auto simp: read_index_entry_def io_bind_def ok_or_def io_simps split: option.splits)

lemma fs_inv_faults [simp]: "fs_inv (s\<lparr>faults := fs\<rparr>) = fs_inv s"
  and own_locks_faults [simp]: "own_locks (s\<lparr>faults := fs\<rparr>) = own_locks s"
  by (simp_all add: fs_inv_def own_locks_def)

lemma same_blocks_faults [simp]: "same_blocks s (s\<lparr>faults := fs\<rparr>)"
  by (simp add: same_blocks_def)

text \<open>Whatever a read returns, it leaves the files and the invariant as they were.\<close>

lemma read_exact_at_frame:
  fixes s :: "'z fset_scheme"
  assumes "read_exact_at f n off s = (r, t)"
  shows "same_files s t" and "fs_inv t = fs_inv s"
proof -
  obtain fs where t: "t = s\<lparr>faults := fs\<rparr>" using read_exact_at_state [OF assms] by blast
  moreover have "faults s = [] \<longrightarrow> fs = []" using read_exact_at_faults [OF assms] t by simp
  ultimately show "same_files s t" "fs_inv t = fs_inv s" by simp_all
qed

lemma read_block_frame:
  assumes r: "read_block L h s = (r, t)" and inv: "fs_inv s"
  shows "same_files s t \<and> fs_inv t"
proof -
  obtain r' u where e: "read_index_entry h s = (r', u)" by fastforce
  note f = read_index_entry_faults [OF e]
  from e show ?thesis
  proof (cases rule: read_index_entry_cases)
    case bad
    then show ?thesis using r inv by (simp add: read_block_no_entry)
  next
    case (failed off e' fs)
    then show ?thesis using r e f inv by (auto simp: read_block_def io_bind_def)
  next
    case (ok off fs)
    then obtain ent where ent: "r' = Ok (Some ent)" by blast
    have su: "same_files s u" and iu: "fs_inv u" using ok f inv by auto
    note e' = e [unfolded ent]
    show ?thesis
    proof (cases "ie_size ent = 0 \<or> MAX_BLOCK_SIZE < ie_size ent")
      case True
      then show ?thesis
        using read_block_small_entry [OF e', of L] r su iu by auto
    next
      case False
      obtain i local where sp: "split_offset (fs_max_data_file_size u) (ie_offset ent) = (i, local)"
        by fastforce
      obtain r2 v where rs: "fs_resolve (ie_offset ent) u = (r2, v)" by fastforce
      from rs iu sp have v: "same_files u v" "fs_inv v" by (auto elim: fs_resolve_cases)
      have "same_files v t \<and> fs_inv t"
        using r False rs v
        by (auto simp: read_block_entry [OF e'] io_bind_def split: prod.splits res.splits
            dest: read_exact_at_frame)
      then show ?thesis using su v same_files_trans by blast
    qed
  qed
qed

lemma same_files_region:
  "same_files s t \<Longrightarrow> region t off n = region s off n"
  by (simp add: same_files_def region_def)

text \<open>A read that returns returned the view; with working calls it always does.\<close>

lemma region_eq:
  "split_offset (fs_max_data_file_size s) off = (i, local) \<Longrightarrow>
     region s off n = pread (bytes_of s (path_for i)) (unat local) n"
  by (simp add: region_def)

lemma read_block_Ok:
  assumes r: "read_block L h s = (Ok x, t)" and inv: "fs_inv s"
  shows "peek L s h = Ok x"
proof -
  obtain r' u where e: "read_index_entry h s = (r', u)" by fastforce
  from e show ?thesis
  proof (cases rule: read_index_entry_cases)
    case bad
    then show ?thesis using r by (simp add: read_block_no_entry)
  next
    case (failed off e' fs)
    then show ?thesis using r e by (auto simp: read_block_def io_bind_def)
  next
    case (ok off fs)
    let ?e = "entry_at s off"
    have e': "read_index_entry h s = (Ok (Some ?e), u)" using e ok by (simp add: entry_at_fill)
    have u: "region u = region s" "fs_inv u" "fs_max_data_file_size u = fs_max_data_file_size s"
      using ok inv by (auto simp: region_def fun_eq_iff)
    show ?thesis
    proof (cases "ie_size ?e = 0 \<or> MAX_BLOCK_SIZE < ie_size ?e")
      case True
      then show ?thesis
        using read_block_small_entry [OF e', of L] r ok(1) by (auto simp: peek_def Let_def)
    next
      case False
      obtain i local where sp: "split_offset (fs_max_data_file_size u) (ie_offset ?e) = (i, local)"
        by fastforce
      from r False obtain f l j v buf where
        rs: "fs_resolve (ie_offset ?e) u = (Ok (f, l, j), v)" and
        rd: "read_exact_at (hfile f) (22 + unat (ie_size ?e)) l v = (Ok buf, t)" and
        x: "Ok x = res_map Some (block_in L (ie_size ?e) buf)"
        by (auto simp: read_block_entry [OF e'] io_bind_Ok_iff)
      from rs u(2) sp have "l = local" "hfile f = path_for i" and v: "same_files u v"
        by (auto elim: fs_resolve_cases)
      with rd have "buf = pread (bytes_of u (path_for i)) (unat local) (22 + unat (ie_size ?e))"
        by (auto elim!: read_exact_at_OkE simp: same_files_def)
      then have "buf = region s (ie_offset ?e) (22 + unat (ie_size ?e))"
        using sp u(1) by (metis region_eq)
      then show ?thesis using False ok(1) x by (simp add: peek_def Let_def)
    qed
  qed
qed

lemma read_index_entry_none:
  "faults s = [] \<Longrightarrow> index_entry_offset s h = Some off \<Longrightarrow>
     read_index_entry h s = (Ok (Some (entry_at s off)), s)"
  by (simp add: read_index_entry_def io_bind_def io_simps entry_size_def entry_at_fill)

lemma block_in_short: "length buf < 22 + unat sz \<Longrightarrow>
  block_in L sz buf = Err (Error UnexpectedEof ''failed to fill whole buffer'')"
  by (simp add: block_in_def)

lemma read_exact_at_ready:
  "faults s = [] \<Longrightarrow>
   io_bind (read_exact_at f (22 + unat sz) local) (\<lambda>buf v. (res_map Some (block_in L sz buf), v)) s =
     (res_map Some (block_in L sz (pread (bytes_of s f) (unat local) (22 + unat sz))), s)"
  by (auto simp: read_exact_at_def io_bind_def io_simps block_in_def)

lemma read_block_ready:
  assumes s: "ready s"
  obtains t where "read_block L h s = (peek L s h, t)" "same_files s t" "ready t"
proof (cases "index_entry_offset s h")
  case None
  then show ?thesis using that [of s] s by (simp add: read_block_no_entry peek_def)
next
  case (Some off)
  let ?e = "entry_at s off"
  have e: "read_index_entry h s = (Ok (Some ?e), s)"
    using s Some by (simp add: read_index_entry_none ready_def)
  show ?thesis
  proof (cases "ie_size ?e = 0 \<or> MAX_BLOCK_SIZE < ie_size ?e")
    case True
    then show ?thesis
      using that [of s] s read_block_small_entry [OF e, of L] Some by (auto simp: peek_def Let_def)
  next
    case False
    obtain i local where sp: "split_offset (fs_max_data_file_size s) (ie_offset ?e) = (i, local)"
      by fastforce
    from s sp obtain f t where t: "fs_resolve (ie_offset ?e) s = (Ok (f, local, i), t)"
      "hfile f = path_for i" "same_files s t" "ready t" by (rule fs_resolve_ready)
    have "read_block L h s = (res_map Some (block_in L (ie_size ?e)
        (pread (bytes_of t (path_for i)) (unat local) (22 + unat (ie_size ?e)))), t)"
      using False t by (simp add: read_block_entry [OF e] io_bind_evals(1) [where m = "fs_resolve _"]
          read_exact_at_ready ready_def)
    also have "\<dots> = (peek L s h, t)"
      using False Some sp t(3) by (simp add: peek_def Let_def region_eq same_files_def)
    finally show ?thesis using t(3,4) by (rule that)
  qed
qed

section \<open>Allocation\<close>

lemma mod_add_block: "(c::nat) > 0 \<Longrightarrow> (q + 1) * c mod c = 0 \<and> (q + 1) * c div c = q + 1"
  by simp

lemma advance_to_next_file_cases:
  assumes "advance_to_next_file i cap s = (r, t)"
  obtains (ok) off where "r = Ok off" "t = s" "unat i + 1 < 2 ^ 32"
      "unat off = (unat i + 1) * unat cap"
    | (failed) e where "r = Err e" "t = s"
proof (cases "Option.bind (checked_add i 1) (\<lambda>i. checked_mul (ucast i :: u64) cap)")
  case None
  then show ?thesis
    using assms by (intro failed) (auto simp: advance_to_next_file_def io_simps)
next
  case (Some off)
  then obtain j where j: "checked_add i 1 = Some j" "checked_mul (ucast j :: u64) cap = Some off"
    by (auto simp: bind_eq_Some_conv)
  then have "unat i + 1 < 2 ^ 32" "unat off = (unat i + 1) * unat cap"
    using unat_lt_32 [of j] by (auto simp: checked unat_ucast_up_64)
  then show ?thesis
    using assms Some by (intro ok) (auto simp: advance_to_next_file_def io_simps)
qed

text \<open>The last step of a reservation.\<close>

lemma take_space_cases:
  assumes "io_bind (ok_or (checked_add off n) k m) (\<lambda>new.
      io_bind (modify (\<lambda>s. s\<lparr>data_highwater := new\<rparr>)) (\<lambda>_. ret (off, new, cur))) s = (r, t)"
  obtains (ok) new where "r = Ok (off, new, cur)" "t = s\<lparr>data_highwater := new\<rparr>"
      "unat new = unat off + unat n"
    | (failed) e where "r = Err e" "t = s"
proof (cases "checked_add off n")
  case None
  then show ?thesis using assms by (intro failed) (auto simp: io_simps)
next
  case (Some new)
  then have "unat new = unat off + unat n" by (simp add: checked)
  then show ?thesis using assms Some by (intro ok) (auto simp: io_simps)
qed

abbreviation space_msg :: "u64 \<Rightarrow> u64 \<Rightarrow> string" where
  "space_msg off n \<equiv> ''data highwater overflow: write_offset '' @ dec (unat off) @ '' + size '' @
     dec (unat n) @ '' > u64::MAX''"

lemma reserve_space_None:
  "fs_max_data_file_size s = None \<Longrightarrow> reserve_space n s =
     io_bind (ok_or (checked_add (data_highwater s) n) InvalidInput (space_msg (data_highwater s) n))
       (\<lambda>new. io_bind (modify (\<lambda>s. s\<lparr>data_highwater := new\<rparr>))
          (\<lambda>_. ret (data_highwater s, new, data_highwater s))) s"
  by (simp add: reserve_space_def io_simps)

lemma reserve_space_fits:
  "fs_max_data_file_size s = Some c \<Longrightarrow> \<not> c < n \<Longrightarrow>
   checked_add (data_highwater s mod c) n = Some e \<Longrightarrow> e \<le> c \<Longrightarrow> reserve_space n s =
     io_bind (ok_or (checked_add (data_highwater s) n) InvalidInput (space_msg (data_highwater s) n))
       (\<lambda>new. io_bind (modify (\<lambda>s. s\<lparr>data_highwater := new\<rparr>))
          (\<lambda>_. ret (data_highwater s, new, data_highwater s))) s"
  by (simp add: reserve_space_def io_simps io_bind_def [of "io_bind _ _"])

lemma reserve_space_skips:
  "fs_max_data_file_size s = Some c \<Longrightarrow> \<not> c < n \<Longrightarrow>
   checked_add (data_highwater s mod c) n = Some e \<Longrightarrow> \<not> e \<le> c \<Longrightarrow>
   u32_of_u64 (data_highwater s div c) = Some i \<Longrightarrow>
   advance_to_next_file i c s = (Ok off, s) \<Longrightarrow> reserve_space n s =
     io_bind (ok_or (checked_add off n) InvalidInput (space_msg off n))
       (\<lambda>new. io_bind (modify (\<lambda>s. s\<lparr>data_highwater := new\<rparr>))
          (\<lambda>_. ret (off, new, data_highwater s))) s"
  by (simp add: reserve_space_def io_simps io_bind_def [of "io_bind _ _"])

lemma reserve_space_cases:
  assumes "reserve_space n s = (r, t)" and cap: "cap_ok (fs_max_data_file_size s)"
  obtains (ok) off new where "r = Ok (off, new, data_highwater s)"
      "t = s\<lparr>data_highwater := new\<rparr>" "unat new = unat off + unat n"
      "unat (data_highwater s) \<le> unat off" "unsplit s off (unat n)"
      "fs_max_data_file_size s = None \<Longrightarrow> off = data_highwater s"
      "\<And>c. fs_max_data_file_size s = Some c \<Longrightarrow> addressable s \<Longrightarrow> unat off div unat c < 2 ^ 32"
    | (failed) e where "r = Err e" "t = s"
proof (cases "fs_max_data_file_size s")
  case None
  from assms(1) [unfolded reserve_space_None [OF None]] show ?thesis
    by (cases rule: take_space_cases) (use None in \<open>auto simp: unsplit_def intro: that\<close>)
next
  case (Some c)
  let ?hw = "data_highwater s"
  have c: "0 < unat c" using cap Some by (auto simp: cap_ok_def unat_gt_0)
  show ?thesis
  proof (cases "c < n \<or> checked_add (?hw mod c) n = None")
    case True
    then show ?thesis
      using assms(1) Some
      by (cases "c < n") (auto simp: reserve_space_def io_simps io_bind_def intro: failed)
  next
    case False
    then obtain e where e: "\<not> c < n" "checked_add (?hw mod c) n = Some e" and n: "unat n \<le> unat c"
      by (auto simp: word_le_nat_alt not_less)
    then have ee: "unat e = unat ?hw mod unat c + unat n" by (simp add: checked unat_mod_distrib)
    show ?thesis
    proof (cases "e \<le> c")
      case True
      then have "unsplit s ?hw (unat n)" using ee Some by (simp add: word_le_nat_alt unsplit_def)
      with assms(1) [unfolded reserve_space_fits [OF Some e True]] show ?thesis
        by (cases rule: take_space_cases) (use Some in \<open>auto simp: addressable_def intro: that\<close>)
    next
      case no: False
      show ?thesis
      proof (cases "u32_of_u64 (?hw div c)")
        case None
        then show ?thesis
          using assms(1) Some e no by (intro failed) (auto simp: reserve_space_def io_simps io_bind_def)
      next
        case i: (Some i)
        then have iu: "unat i = unat ?hw div unat c"
          by (auto simp: u32_of_u64_Some unat_div_distrib)
        obtain r' t' where adv: "advance_to_next_file i c s = (r', t')" by fastforce
        then show ?thesis
        proof (cases rule: advance_to_next_file_cases)
          case (ok off)
          have "unat ?hw < (unat i + 1) * unat c"
            using c iu dividend_less_div_times [of "unat c" "unat ?hw"] by (simp add: mult.commute)
          then have le: "unat ?hw \<le> unat off" using ok by simp
          have off: "unsplit s off (unat n)" "unat off div unat c < 2 ^ 32"
            using ok c n Some by (simp_all add: unsplit_def del: mult_Suc mult_Suc_right)
          have "advance_to_next_file i c s = (Ok off, s)" using adv ok by simp
          from assms(1) [unfolded reserve_space_skips [OF Some e no i this]] show ?thesis
            by (cases rule: take_space_cases) (use Some le off in \<open>auto intro: that\<close>)
        next
          case (failed e')
          then show ?thesis
            using assms(1) Some e no i adv
            by (intro that(2)) (auto simp: reserve_space_def io_simps io_bind_def)
        qed
      qed
    qed
  qed
qed

section \<open>Writing the data of a block\<close>

lemma log_write_fset [simp]:
  "fs_inner (log_write f off bs s) = fs_inner s"
  "fs_max_data_file_size (log_write f off bs s) = fs_max_data_file_size s"
  "fset.more (log_write f off bs s) = fset.more s"
  by (simp_all add: log_write_def put_bytes_def split: file_id.split)

lemma log_write_store [simp]:
  "header (log_write f off bs s) = header s"
  "data_highwater (log_write f off bs s) = data_highwater s"
  "sync (log_write f off bs s) = sync s"
  "max_contiguous_height (log_write f off bs s) = max_contiguous_height s"
  "height_highwater (log_write f off bs s) = height_highwater s"
  "last_checkpoint_offset (log_write f off bs s) = last_checkpoint_offset s"
  "recovered (log_write f off bs s) = recovered s"
  by (simp_all add: log_write_def put_bytes_def split: file_id.split)

lemma fs_inv_log_write [simp]: "fs_inv (log_write f off bs s) = fs_inv s"
  by (simp add: fs_inv_def)

lemma own_locks_log_write [simp]: "own_locks (log_write f off bs s) = own_locks s"
  by (simp add: own_locks_def)

lemma fs_inv_io_log [simp]: "fs_inv (s\<lparr>io_log := l\<rparr>) = fs_inv s"
  by (simp add: fs_inv_def)

lemma own_locks_io_log [simp]: "own_locks (s\<lparr>io_log := l\<rparr>) = own_locks s"
  by (simp add: own_locks_def)

lemma is_dir_log_write: "\<not> is_dir s f \<Longrightarrow> is_dir (log_write f off bs s) g = is_dir s g"
  by (auto simp: log_write_def is_dir_put)

lemma unat_SERIALIZED: "unat (u64_of_len SERIALIZED_SIZE) = 22"
  by (simp add: SERIALIZED_SIZE_def u64_of_len_def)

text \<open>What \<open>write_data\<close> may leave in the file: a prefix of the payload, a prefix of the header.\<close>

definition torn :: "bytes \<Rightarrow> nat \<Rightarrow> bytes \<Rightarrow> bytes \<Rightarrow> bytes" where
  "torn b local hb pb = pwrite (pwrite b (local + 22) pb) local hb"

definition data_written ::
  "u32 \<Rightarrow> nat \<Rightarrow> bytes \<Rightarrow> bytes \<Rightarrow> 'z store_scheme \<Rightarrow> 'z store_scheme \<Rightarrow> bool" where
  "data_written i local hb pb s t \<longleftrightarrow>
     (\<forall>f. bytes_of t f =
        (if f = path_for i then torn (bytes_of s f) local hb pb else bytes_of s f)) \<and>
     fs_max_data_file_size t = fs_max_data_file_size s \<and> fset.more t = fset.more s \<and> fs_inv t"

lemma sync_all_cases:
  assumes "sync_all f s = (r, t)"
  obtains fs l where "t = s\<lparr>faults := fs, io_log := l\<rparr>" "\<And>m. r \<noteq> Panic m"
proof -
  have "\<exists>fs l. t = s\<lparr>faults := fs, io_log := l\<rparr> \<and> (\<forall>m. r \<noteq> Panic m)"
    using assms unfolding sync_all_def
  proof (cases rule: syscallE)
    case (run fs)
    then show ?thesis by (intro exI [of _ fs]) auto
  next
    case (fault e k fs)
    have "s\<lparr>faults := fs, io_log := io_log s\<rparr> = s\<lparr>faults := fs\<rparr>" by simp
    with fault show ?thesis by (metis res.distinct(5))
  qed
  then show ?thesis using that by blast
qed

lemma write_all_at_cases:
  assumes "write_all_at f bs off s = (r, t)"
  obtains k fs where "t = log_write f (unat off) (take k bs) (s\<lparr>faults := fs\<rparr>)"
    "r = Ok () \<Longrightarrow> k = length bs" "\<And>m. r \<noteq> Panic m"
proof -
  have "\<exists>k fs. t = log_write f (unat off) (take k bs) (s\<lparr>faults := fs\<rparr>) \<and>
      (r = Ok () \<longrightarrow> k = length bs) \<and> (\<forall>m. r \<noteq> Panic m)"
    using assms unfolding write_all_at_def
  proof (cases rule: syscallE)
    case (run fs)
    then show ?thesis by (intro exI [of _ "length bs"] exI [of _ fs]) auto
  qed auto
  then show ?thesis using that by blast
qed

lemma write_data_cases:
  assumes w: "write_data off p hdr s = (r, t)" and inv: "fs_inv s"
    and sp: "split_offset (fs_max_data_file_size s) off = (i, local)"
    and lt: "unat local + 22 < 2 ^ 64"
  obtains j k where "data_written i (unat local) (take j (serialize hdr)) (take k p) s t"
    "r = Ok () \<Longrightarrow> k = length p \<and> j = 22" "\<And>m. r \<noteq> Panic m" "j = 0 \<or> k = length p"
proof -
  have plus: "unat (local + u64_of_len SERIALIZED_SIZE) = unat local + 22"
    using lt unat_plus_fits [of local "u64_of_len SERIALIZED_SIZE"] by (simp add: unat_SERIALIZED)
  note bind = io_bind_def [of "fs_resolve _"] io_bind_def [of "write_all_at _ _ _"]
  obtain r1 u where rs: "fs_resolve off s = (r1, u)" by fastforce
  from rs inv sp show ?thesis
  proof (cases rule: fs_resolve_cases)
    case (failed e)
    then show ?thesis
      using w rs by (intro that [of 0 0]) (auto simp: write_data_def bind data_written_def torn_def same_files_def)
  next
    case (ok h)
    obtain r2 v where wr: "write_all_at (path_for i) p (local + u64_of_len SERIALIZED_SIZE) u = (r2, v)"
      by fastforce
    from wr obtain k fs where v': "v = log_write (path_for i)
        (unat (local + u64_of_len SERIALIZED_SIZE)) (take k p) (u\<lparr>faults := fs\<rparr>)"
      "r2 = Ok () \<Longrightarrow> k = length p" "\<And>m. r2 \<noteq> Panic m"
      by (rule write_all_at_cases) blast
    note v = v' [unfolded plus]
    have dv: "data_written i (unat local) [] (take k p) s v"
      using v(1) ok by (simp add: data_written_def torn_def same_files_def)
    show ?thesis
    proof (cases r2)
      case (Ok x)
      obtain r3 x where wh: "write_all_at (path_for i) (serialize hdr) local v = (r3, x)" by fastforce
      then obtain j gs where x: "x = log_write (path_for i) (unat local) (take j (serialize hdr)) (v\<lparr>faults := gs\<rparr>)"
        "r3 = Ok () \<Longrightarrow> j = length (serialize hdr)" "\<And>m. r3 \<noteq> Panic m" by (rule write_all_at_cases) blast
      have dx: "data_written i (unat local) (take j (serialize hdr)) (take k p) s x"
        using x(1) dv by (simp add: data_written_def torn_def)
      have fin: "(r, t) = (case r3 of Ok a \<Rightarrow>
           (if sync x = Sync then sync_all (path_for i) x else (Ok (), x))
         | Err e \<Rightarrow> (Err e, x) | Panic m \<Rightarrow> (Panic m, x))"
        using w rs ok(1,2) wr Ok wh by (auto simp: write_data_def bind io_simps split: res.split)
      show ?thesis
      proof (cases "r3 = Ok () \<and> sync x = Sync")
        case True
        then have sy: "sync_all (path_for i) x = (r, t)" using fin by simp
        then obtain gs l where t: "t = x\<lparr>faults := gs, io_log := l\<rparr>" "\<And>m. r \<noteq> Panic m"
          by (rule sync_all_cases) blast
        have "data_written i (unat local) (take j (serialize hdr)) (take k p) s t"
          using t(1) dx by (simp add: data_written_def)
        then show ?thesis using True x(2) v(2) Ok t(2) by (intro that [of j k]) simp_all
      next
        case False
        then have "t = x" "r = r3" using fin x(3) by (cases r3; simp)+
        then show ?thesis using dx x v Ok by (intro that [of j k]) simp_all
      qed
    next
      case (Err e)
      then show ?thesis
        using w rs ok(1,2) wr v dv by (intro that [of 0 k]) (auto simp: write_data_def bind)
    qed (use v(3) in auto)
  qed
qed

end
