(* ===== verification/WriteRead.thy ===== *)
theory WriteRead
  imports Blocks
begin

text \<open>
  What a write does to the map of \<open>Blocks\<close>. The write of a block is cut into its stages; each
  stage is shown to keep the regions and the entries of all other heights, whatever system call
  fails, and the last stages (contiguity, high-water mark, checkpoint) to touch neither.
\<close>

section \<open>Regions\<close>

lemma split_local_le: "split_offset cap off = (i, local) \<Longrightarrow> unat local \<le> unat off"
  by (auto simp: split_offset_def unat_mod_distrib Let_def split: option.splits)

lemma regions_apart:
  assumes "split_offset (fs_max_data_file_size s) off = (i, l)"
    and "split_offset (fs_max_data_file_size s) woff = (i, l')"
    and le: "unat off + n \<le> unat woff" and us: "unsplit s off n"
    and lt: "\<And>c. fs_max_data_file_size s = Some c \<Longrightarrow> unat woff div unat c < 2 ^ 32"
  shows "unat l + n \<le> unat l'"
proof (cases "fs_max_data_file_size s")
  case None
  then show ?thesis using assms by simp
next
  case (Some c)
  have "unat off div unat c \<le> unat woff div unat c" using le by (simp add: div_le_mono)
  with lt [OF Some] have lt': "unat off div unat c < 2 ^ 32" by linarith
  let ?q = "unat woff div unat c"
  have q: "unat off div unat c = ?q" and l: "unat l = unat off mod unat c" "unat l' = unat woff mod unat c"
    using unat_split_offset [OF assms(1) [unfolded Some] lt']
      unat_split_offset [OF assms(2) [unfolded Some] lt [OF Some]] by simp_all
  have "?q * unat c + unat l = unat off" "?q * unat c + unat l' = unat woff"
    using q l by (metis div_mult_mod_eq)+
  then show ?thesis using le by linarith
qed

lemma pread_torn_below:
  "local + n \<le> length b \<Longrightarrow> local + n \<le> local' \<Longrightarrow>
     pread (torn b local' hb pb) local n = pread b local n"
  unfolding torn_def
  by (subst pread_pwrite_below) (auto simp: length_pwrite pread_pwrite_below)

lemma pread_torn_full:
  assumes "length hb = 22"
  shows "pread (torn b local hb pb) local (22 + length pb) = hb @ pb"
proof (rule nth_equalityI)
  have nb: "hb \<noteq> []" using assms by auto
  show len: "length (pread (torn b local hb pb) local (22 + length pb)) = length (hb @ pb)"
    using assms nb by (cases "pb = []") (simp_all add: torn_def length_pwrite)
  fix k assume "k < length (pread (torn b local hb pb) local (22 + length pb))"
  then show "pread (torn b local hb pb) local (22 + length pb) ! k = (hb @ pb) ! k"
    using len assms nb
    by (simp add: pread_nth torn_def pwrite_nth length_pwrite nth_append del: length_pread)
       (auto simp: pwrite_nth length_pwrite)
qed

text \<open>A region below the place of a write is as it was; the place of the write holds the write.\<close>

lemma region_kept:
  assumes dw: "data_written i (unat local) hb pb s t"
    and sp: "split_offset (fs_max_data_file_size s) woff = (i, local)"
    and le: "unat off + n \<le> unat woff" and us: "unsplit s off n"
    and len: "length (region s off n) = n" and pos: "0 < n"
    and lt: "\<And>c. fs_max_data_file_size s = Some c \<Longrightarrow> unat woff div unat c < 2 ^ 32"
  shows "region t off n = region s off n"
proof -
  obtain j l where sp': "split_offset (fs_max_data_file_size s) off = (j, l)" by fastforce
  show ?thesis
  proof (cases "j = i")
    case True
    have "unat l + n \<le> unat local"
      using sp' sp unfolding True by (rule regions_apart [OF _ _ le us lt])
    moreover have "unat l + n \<le> length (bytes_of s (path_for i))"
      using len pos sp' unfolding region_eq [OF sp'] pread_full_iff True by simp
    ultimately show ?thesis
      using dw sp' True by (simp add: region_def data_written_def pread_torn_below)
  next
    case False
    then show ?thesis using dw sp' by (simp add: region_def data_written_def)
  qed
qed

lemma region_written:
  assumes dw: "data_written i (unat local) (serialize hdr) p s t"
    and sp: "split_offset (fs_max_data_file_size s) woff = (i, local)"
  shows "region t woff (22 + length p) = serialize hdr @ p"
  using dw sp by (simp add: region_def data_written_def pread_torn_full)

section \<open>Entries\<close>

lemma index_slots_apart:
  assumes "index_entry_offset s h = Some a" and "index_entry_offset s h' = Some b" and "h \<noteq> h'"
  shows "unat a + 16 \<le> unat b \<or> unat b + 16 \<le> unat a"
proof -
  have "unat h \<noteq> unat h'" using assms(3) by (simp add: word_unat_eq_iff)
  then show ?thesis using assms(1,2) by (auto simp: index_entry_offset_Some)
qed

lemma entry_written:
  "entry_at (log_write IndexFile (unat a) (encode_entry e) s) a = e"
  by (simp add: entry_at_def zread_pwrite_same)

lemma entry_kept:
  "unat a + length bs \<le> unat b \<or> unat b + 16 \<le> unat a \<Longrightarrow>
     entry_at (log_write IndexFile (unat a) bs s) b = entry_at s b"
  by (simp add: entry_at_def zread_pwrite_other)

section \<open>The last stages\<close>

text \<open>
  \<open>contig_only s t\<close>: only the contiguity counter and the fault script may have moved.
\<close>

definition contig_only :: "'z store_scheme \<Rightarrow> 'z store_scheme \<Rightarrow> bool" where
  "contig_only s t \<longleftrightarrow>
     t = s\<lparr>faults := faults t, max_contiguous_height := max_contiguous_height t\<rparr> \<and>
     (faults s = [] \<longrightarrow> faults t = [])"

lemma contig_only_refl [simp]: "contig_only s s"
  by (simp add: contig_only_def)

lemma contig_onlyI:
  "(faults s = [] \<Longrightarrow> fs = []) \<Longrightarrow> contig_only s (s\<lparr>faults := fs, max_contiguous_height := m\<rparr>)"
  by (simp add: contig_only_def)

lemma contig_only_trans: "contig_only s t \<Longrightarrow> contig_only t u \<Longrightarrow> contig_only s u"
  by (cases s, cases t, cases u) (simp add: contig_only_def)

lemma read_index_entry_contig:
  assumes "read_index_entry h s = (r, t)"
  shows "contig_only s t"
proof -
  have "\<exists>fs. t = s\<lparr>faults := fs\<rparr>"
    using assms by (cases rule: read_index_entry_cases) (auto intro: exI [of _ "faults s"])
  then obtain fs where "t = s\<lparr>faults := fs\<rparr>" by blast
  with read_index_entry_faults [OF assms] show ?thesis by (simp add: contig_only_def)
qed

lemma cascade_contig: "contig_only s (cascade cur s)"
proof (induction cur s rule: cascade.induct)
  case (1 cur s)
  obtain r t where e: "read_index_entry (cur + 1) s = (r, t)" by fastforce
  note t = read_index_entry_contig [OF e]
  show ?case
  proof (cases "\<exists>ent. r = Ok (Some ent) \<and> \<not> zero_entry ent \<and> max_contiguous_height t = cur")
    case True
    then obtain ent where r: "r = Ok (Some ent)" "\<not> zero_entry ent" "max_contiguous_height t = cur"
      by blast
    let ?u = "t\<lparr>max_contiguous_height := cur + 1\<rparr>"
    have "contig_only t ?u" by (simp add: contig_only_def)
    moreover have "contig_only ?u (cascade (cur + 1) ?u)" using "1.IH" e r by auto
    ultimately have "contig_only s (cascade (cur + 1) ?u)" using t contig_only_trans by blast
    then show ?thesis using e r by (simp add: cascade.simps [of cur s])
  next
    case False
    then have "cascade cur s = t"
      using e by (auto simp: cascade.simps [of cur s] split: res.split option.split)
    then show ?thesis using t by simp
  qed
qed

lemma advance_contig: "contig_only s (advance_max_contiguous_height h s)"
proof -
  have "contig_only s (s\<lparr>max_contiguous_height := h\<rparr>)" by (simp add: contig_only_def)
  then show ?thesis
    using cascade_contig contig_only_trans
    unfolding advance_max_contiguous_height_def Let_def by (simp, blast)
qed

text \<open>
  \<open>bookkeeping s t\<close>: nothing a reader or the allocator looks at has changed, apart from the
  fault script; the header of the index and the counters may have.
\<close>

definition bookkeeping :: "'z store_scheme \<Rightarrow> 'z store_scheme \<Rightarrow> bool" where
  "bookkeeping s t \<longleftrightarrow>
     same_blocks s t \<and> fs_inner t = fs_inner s \<and> locks t = locks s \<and> next_fd t = next_fd s \<and>
     (\<forall>i. is_dir t (path_for i) = is_dir s (path_for i)) \<and> data_dir t = data_dir s \<and>
     sync t = sync s \<and> recovered t = recovered s \<and> (faults s = [] \<longrightarrow> faults t = [])"

lemma bookkeeping_trans: "bookkeeping s t \<Longrightarrow> bookkeeping t u \<Longrightarrow> bookkeeping s u"
  by (auto simp: bookkeeping_def intro: same_blocks_trans)

lemma bookkeeping_refl [simp]: "bookkeeping s s"
  by (simp add: bookkeeping_def)

lemma contig_bookkeeping:
  assumes "contig_only s t" shows "bookkeeping s t"
proof -
  obtain fs m where t: "t = s\<lparr>faults := fs, max_contiguous_height := m\<rparr>" and "faults s = [] \<longrightarrow> fs = []"
    using assms unfolding contig_only_def by metis
  then show ?thesis by (simp add: bookkeeping_def same_blocks_def is_dir_def path_for_def
      bytes_of_def split: file_id.split)
qed

lemma bookkeeping_counters:
  "bookkeeping s (s\<lparr>height_highwater := m\<rparr>)"
  "bookkeeping s (s\<lparr>last_checkpoint_offset := m\<rparr>)"
  "bookkeeping s (s\<lparr>faults := fs, io_log := l\<rparr>) \<longleftrightarrow> faults s = [] \<longrightarrow> fs = []"
  by (auto simp: bookkeeping_def same_blocks_def is_dir_def path_for_def bytes_of_def
      split: file_id.split)

lemma is_dir_log_write_index [simp]: "is_dir (log_write IndexFile off bs s) f = is_dir s f"
  by (rule is_dir_log_write) (simp add: is_dir_def)

lemma data_dir_log_write_index [simp]: "data_dir (log_write IndexFile off bs s) = data_dir s"
  by (simp add: log_write_def put_bytes_def)

text \<open>The header of the index lies below every entry.\<close>

lemma bookkeeping_header:
  assumes "faults s = [] \<longrightarrow> fs = []" and "length bs \<le> 64"
  shows "bookkeeping s (log_write IndexFile 0 bs (s\<lparr>faults := fs\<rparr>))"
  using assms
  by (auto simp: bookkeeping_def same_blocks_def zread_pwrite_other)

lemma write_all_at_faults:
  "write_all_at f bs off s = (r, t) \<Longrightarrow> faults s = [] \<Longrightarrow> faults t = []"
  by auto

lemma sync_all_faults: "sync_all f s = (r, t) \<Longrightarrow> faults s = [] \<Longrightarrow> faults t = []"
  by auto

lemma sync_bookkeeping:
  assumes "sync_all f s = (r, t)" shows "bookkeeping s t"
proof -
  obtain fs l where t: "t = s\<lparr>faults := fs, io_log := l\<rparr>" using assms by (rule sync_all_cases)
  then show ?thesis using sync_all_faults [OF assms] by (simp add: bookkeeping_counters)
qed

lemma write_header_bookkeeping:
  assumes w: "write_all_at IndexFile (encode_header h) 0 s = (r, t)"
  shows "bookkeeping s t" and "\<And>m. r \<noteq> Panic m"
proof -
  from w obtain k fs where t: "t = log_write IndexFile (unat (0 :: u64)) (take k (encode_header h)) (s\<lparr>faults := fs\<rparr>)"
    and np: "\<And>m. r \<noteq> Panic m"
    by (rule write_all_at_cases) blast
  moreover have "faults s = [] \<longrightarrow> fs = []" using write_all_at_faults [OF w] t by simp
  ultimately show "bookkeeping s t" by (simp add: bookkeeping_header)
  show "\<And>m. r \<noteq> Panic m" by (rule np)
qed

lemma checkpoint_bookkeeping:
  assumes "checkpoint off s = (r, t)"
  shows "bookkeeping s t" and "\<And>m. r \<noteq> Panic m"
proof -
  let ?hdr = "\<lambda>v. (header s)\<lparr>ih_next_write_offset := off, ih_max_height := height_highwater v,
     ih_highest_contiguous := max_contiguous_height v\<rparr>"
  have "bookkeeping s t \<and> (\<forall>m. r \<noteq> Panic m)"
  proof (cases "off = 0 \<and> ih_min_height (header s) \<le> height_highwater s")
    case True
    then show ?thesis using assms by (auto simp: checkpoint_def io_simps)
  next
    case False
    let ?sync = "if sync s = Sync then sync_all IndexFile else ret ()"
    obtain r1 v where sy: "?sync s = (r1, v)" by fastforce
    then have v: "bookkeeping s v" "\<forall>m. r1 \<noteq> Panic m"
      by (auto simp: io_simps dest: sync_bookkeeping elim: sync_all_cases split: if_splits)
    have eq: "(r, t) = io_bind ?sync (\<lambda>_. \<lambda>v.
        io_bind (write_all_at IndexFile (encode_header (?hdr v)) 0)
          (\<lambda>_. modify (\<lambda>s. s\<lparr>last_checkpoint_offset := off\<rparr>)) v) s"
      using assms False by (auto simp: checkpoint_def io_simps io_bind_def split: prod.split res.split)
    show ?thesis
    proof (cases r1)
      case (Ok x)
      obtain r2 u where wr: "write_all_at IndexFile (encode_header (?hdr v)) 0 v = (r2, u)" by fastforce
      note u = write_header_bookkeeping [OF wr]
      have "(r, t) = (case r2 of Ok x \<Rightarrow> (Ok (), u\<lparr>last_checkpoint_offset := off\<rparr>)
          | Err e \<Rightarrow> (Err e, u) | Panic m \<Rightarrow> (Panic m, u))"
        using eq sy Ok wr by (cases r2) (simp_all add: io_bind_def io_simps)
      moreover have su: "bookkeeping s u" using v(1) u(1) by (rule bookkeeping_trans)
      moreover have "bookkeeping s (u\<lparr>last_checkpoint_offset := off\<rparr>)"
        by (rule bookkeeping_trans [OF su bookkeeping_counters(2)])
      ultimately show ?thesis using u(2) by (cases r2) auto
    next
      case (Err e)
      then show ?thesis using eq sy v by (simp add: io_bind_def)
    qed (use v in auto)
  qed
  then show "bookkeeping s t" "\<And>m. r \<noteq> Panic m" by blast+
qed

text \<open>Everything \<open>write_block\<close> does once the index entry is down.\<close>

definition finish_write :: "u64 \<Rightarrow> u64 \<Rightarrow> ('z store_scheme, unit) io" where
  "finish_write height saved_offset =
     io_bind (modify (advance_max_contiguous_height height)) (\<lambda>_.
     io_bind (update_highwater height) (\<lambda>tip_rose.
     maybe_checkpoint height tip_rose saved_offset))"

lemma finish_write_eq:
  "finish_write h off s =
     (let u = advance_max_contiguous_height h s; tip = height_highwater u < h
      in maybe_checkpoint h tip off (if tip then u\<lparr>height_highwater := h\<rparr> else u))"
  by (simp add: finish_write_def update_highwater_def io_bind_def io_simps Let_def)

lemma maybe_checkpoint_cases:
  assumes "maybe_checkpoint h tip off s = (r, t)"
  obtains (taken) "checkpoint off s = (r, t)" | (skipped) "r = Ok ()" "t = s"
  using assms by (auto simp: maybe_checkpoint_def io_simps split: if_splits)

lemma finish_write_bookkeeping:
  assumes f: "finish_write h off s = (r, t)"
  shows "bookkeeping s t" and "\<And>m. r \<noteq> Panic m"
proof -
  let ?u = "advance_max_contiguous_height h s"
  let ?v = "if height_highwater ?u < h then ?u\<lparr>height_highwater := h\<rparr> else ?u"
  have "bookkeeping s ?u" by (rule contig_bookkeeping [OF advance_contig])
  moreover have "bookkeeping ?u ?v" by (simp add: bookkeeping_counters)
  ultimately have v: "bookkeeping s ?v" by (rule bookkeeping_trans)
  have m: "maybe_checkpoint h (height_highwater ?u < h) off ?v = (r, t)"
    using f by (simp add: finish_write_eq Let_def)
  then show "bookkeeping s t" and "\<And>m. r \<noteq> Panic m"
    using v by (auto elim!: maybe_checkpoint_cases dest: checkpoint_bookkeeping intro: bookkeeping_trans)
qed

section \<open>The stages of a write\<close>

definition block_header_of :: "libs \<Rightarrow> u64 \<Rightarrow> bytes \<Rightarrow> u32 \<Rightarrow> block_header" where
  "block_header_of L height block len =
     \<lparr>bh_height = height, bh_size = len, bh_checksum = xxh64 L block 0,
      bh_version = BLOCK_ENTRY_VERSION\<rparr>"

text \<open>The parameters of a write that has got as far as asking for space.\<close>

definition write_request ::
  "libs \<Rightarrow> 'z store_scheme \<Rightarrow> u64 \<Rightarrow> bytes \<Rightarrow> bytes \<Rightarrow> u32 \<Rightarrow> u64 \<Rightarrow> u64 \<Rightarrow> bool" where
  "write_request L s height block payload len slot n \<longleftrightarrow>
     block \<noteq> [] \<and> length block < 2 ^ 32 \<and> compress L block = Ok payload \<and>
     length payload < 2 ^ 32 \<and> unat len = length payload \<and>
     index_entry_offset s height = Some slot \<and> unat n = 22 + length payload"

lemma write_block_cases:
  assumes w: "write_block L h block s = (r, t)"
  obtains (refused) "t = s" "r \<noteq> Ok ()"
      "\<nexists>payload len slot n. write_request L s h block payload len slot n"
    | (requested) payload len slot n where "write_request L s h block payload len slot n"
      "(r, t) = io_bind (reserve_space n) (\<lambda>(off, saved, prev).
          io_bind (on_err (write_data off payload (block_header_of L h block len))
                     (release_reservation prev saved)) (\<lambda>_.
          io_bind (update_index_at slot \<lparr>ie_offset = off, ie_size = len, ie_reserved = 0\<rparr>)
            (\<lambda>_. finish_write h saved))) s"
proof (cases "block = [] \<or> 2 ^ 32 \<le> length block \<or> \<not> is_ok (compress L block)")
  case True
  then show ?thesis
    using w by (intro refused)
      (auto simp: write_block_def io_simps ok_or_def io_bind_def u32_of_len_def write_request_def
        split: if_splits res.splits option.splits)
next
  case False
  then obtain payload where c: "compress L block = Ok payload" by (cases "compress L block") auto
  obtain bl where bl: "u32_of_len (length block) = Some bl" using False by (auto simp: u32_of_len_def)
  show ?thesis
  proof (cases "u32_of_len (length payload)")
    case None
    then have "write_block L h block s = (Panic try_from_int_error, s)"
      using c bl False by (simp add: write_block_def io_simps)
    moreover have "2 ^ 32 \<le> length payload" using None by (simp add: checked)
    ultimately show ?thesis using w c by (intro refused) (auto simp: write_request_def)
  next
    case len: (Some len)
    then have l: "length payload < 2 ^ 32" "unat len = length payload" by (simp_all add: checked)
    show ?thesis
    proof (cases "index_entry_offset s h")
      case None
      then show ?thesis
        using w c bl len False by (intro refused) (auto simp: write_block_def io_simps write_request_def)
    next
      case (Some slot)
      obtain n where n: "checked_add (u64_of_len (length payload)) (u64_of_len SERIALIZED_SIZE) = Some n"
        "unat n = 22 + length payload"
      proof -
        have "unat (u64_of_len (length payload)) = length payload" using l by simp
        then have "unat (u64_of_len (length payload) + u64_of_len SERIALIZED_SIZE) = 22 + length payload"
          using l by (subst unat_plus_fits) (simp_all add: unat_SERIALIZED)
        with that show ?thesis using l by (auto simp: checked unat_SERIALIZED)
      qed
      have "write_request L s h block payload len slot n"
        using False c l Some n by (simp add: write_request_def not_le)
      moreover have "(r, t) = io_bind (reserve_space n) (\<lambda>(off, saved, prev).
          io_bind (on_err (write_data off payload (block_header_of L h block len))
                     (release_reservation prev saved)) (\<lambda>_.
          io_bind (update_index_at slot \<lparr>ie_offset = off, ie_size = len, ie_reserved = 0\<rparr>)
            (\<lambda>_. finish_write h saved))) s"
        using w False c bl len Some n
        by (simp add: write_block_def io_simps block_header_of_def finish_write_def)
      ultimately show ?thesis by (rule requested)
    qed
  qed
qed

lemma serialize_not_Nil [simp]: "serialize h \<noteq> []"
  by (metis length_serialize list.size(3) zero_neq_numeral)

lemma store_fields:
  assumes "fset.more t = fset.more s"
  shows "data_highwater t = data_highwater s" "header t = header s" "sync t = sync s"
    "max_contiguous_height t = max_contiguous_height s" "height_highwater t = height_highwater s"
    "last_checkpoint_offset t = last_checkpoint_offset s" "recovered t = recovered s"
  using assms by (cases s; cases t; simp)+

text \<open>How far a requested write got.\<close>

lemma store_faults_id: "(s :: 'z store_scheme)\<lparr>faults := faults s\<rparr> = s"
  by simp

lemma write_data_faults:
  assumes "write_data off payload hdr s = (r, t)" and "faults s = []" shows "faults t = []"
proof -
  have "preserves (\<lambda>s. faults s = []) (fs_resolve off)"
    by (rule preservesI) (auto simp: fs_resolve_eq io_bind_def io_simps dest: get_or_open_faults
        split: prod.split res.split)
  moreover have "preserves (\<lambda>s. faults s = []) (write_all_at f bs o')"
    and "preserves (\<lambda>s. faults s = []) (sync_all f)" for f bs o'
    by (rule preservesI, rule write_all_at_faults [OF prod.collapse [symmetric]], assumption)
       (rule preservesI, rule sync_all_faults [OF prod.collapse [symmetric]], assumption)
  ultimately have "preserves (\<lambda>s. faults s = []) (write_data off payload hdr)"
    unfolding write_data_def by (intro pres)
  from preservesD [OF this assms(2,1)] show ?thesis .
qed

lemma write_stages:
  assumes q: "write_request L s h block payload len slot n"
    and eq: "(r, t) = io_bind (reserve_space n) (\<lambda>(off, saved, prev).
          io_bind (on_err (write_data off payload (block_header_of L h block len))
                     (release_reservation prev saved)) (\<lambda>_.
          io_bind (update_index_at slot \<lparr>ie_offset = off, ie_size = len, ie_reserved = 0\<rparr>)
            (\<lambda>_. finish_write h saved))) s"
    and inv: "fs_inv s"
  obtains (no_space) e where "r = Err e" "t = s"
    | (reserved) off new i local j k u where
        "reserve_space n s = (Ok (off, new, data_highwater s), s\<lparr>data_highwater := new\<rparr>)"
        "split_offset (fs_max_data_file_size s) off = (i, local)"
        "data_written i (unat local) (take j (serialize (block_header_of L h block len)))
           (take k payload) (s\<lparr>data_highwater := new\<rparr>) u"
        "(\<exists>e. r = Err e) \<and> t = u\<lparr>data_highwater := data_highwater s\<rparr> \<or>
         k = length payload \<and> j = 22 \<and>
         (\<exists>m fs. (faults s = [] \<longrightarrow> fs = []) \<and> (let v = log_write IndexFile (unat slot)
              (take m (encode_entry \<lparr>ie_offset = off, ie_size = len, ie_reserved = 0\<rparr>))
              (u\<lparr>faults := fs\<rparr>)
           in (\<exists>e. r = Err e) \<and> t = v \<or> m = 16 \<and> finish_write h new v = (r, t)))"
        "snd (write_data off payload (block_header_of L h block len) (s\<lparr>data_highwater := new\<rparr>)) = u"
        "j = 0 \<or> k = length payload"
proof -
  have cap: "cap_ok (fs_max_data_file_size s)" using inv by (simp add: fs_inv_def)
  obtain r1 s1 where rs: "reserve_space n s = (r1, s1)" by fastforce
  from rs cap show ?thesis
  proof (cases rule: reserve_space_cases)
    case (failed e)
    then show ?thesis using eq rs by (intro no_space) (simp_all add: io_bind_def)
  next
    case (ok off new)
    let ?hdr = "block_header_of L h block len"
    obtain i local where sp: "split_offset (fs_max_data_file_size s) off = (i, local)" by fastforce
    have "unat local + 22 < 2 ^ 64"
      using split_local_le [OF sp] ok(3) q unat_lt_64 [of new] by (simp add: write_request_def)
    moreover obtain r2 u where wd: "write_data off payload ?hdr s1 = (r2, u)" by fastforce
    moreover have "fs_inv s1" "split_offset (fs_max_data_file_size s1) off = (i, local)"
      using inv sp ok(2) by (simp_all add: fs_inv_def)
    ultimately obtain j k where dw:
      "data_written i (unat local) (take j (serialize ?hdr)) (take k payload) s1 u"
      "r2 = Ok () \<Longrightarrow> k = length payload \<and> j = 22" "\<And>m. r2 \<noteq> Panic m" "j = 0 \<or> k = length payload"
      by (metis write_data_cases)
    have "data_highwater u = new"
      using dw(1) ok(2) store_fields(1) [of u s1] by (simp add: data_written_def)
    then have rel: "release_reservation (data_highwater s) new u = u\<lparr>data_highwater := data_highwater s\<rparr>"
      by (simp add: release_reservation_def)
    have eq': "(r, t) = io_bind (on_err (write_data off payload ?hdr)
                     (release_reservation (data_highwater s) new)) (\<lambda>_.
          io_bind (update_index_at slot \<lparr>ie_offset = off, ie_size = len, ie_reserved = 0\<rparr>)
            (\<lambda>_. finish_write h new)) s1"
      using eq rs ok(1) by (simp add: io_bind_def [of "reserve_space _"])
    have us: "snd (write_data off payload ?hdr s1) = u" using wd by simp
    have rs': "reserve_space n s = (Ok (off, new, data_highwater s), s\<lparr>data_highwater := new\<rparr>)"
      using rs unfolding ok(1,2) .
    note res = reserved [OF rs' sp dw(1) [unfolded ok(2)] _ us [unfolded ok(2)] dw(4)]
    show ?thesis
    proof (cases r2)
      case (Err e)
      then have "r = Err e" "t = u\<lparr>data_highwater := data_highwater s\<rparr>"
        using eq' wd rel by (simp_all add: io_bind_def on_err_def)
      then show ?thesis by (intro res disjI1) simp
    next
      case (Ok x)
      then have full: "k = length payload \<and> j = 22" using dw(2) by simp
      obtain r3 v where ix: "update_index_at slot \<lparr>ie_offset = off, ie_size = len, ie_reserved = 0\<rparr> u = (r3, v)"
        by fastforce
      obtain m fs where v: "v = log_write IndexFile (unat slot)
            (take m (encode_entry \<lparr>ie_offset = off, ie_size = len, ie_reserved = 0\<rparr>)) (u\<lparr>faults := fs\<rparr>)"
        "r3 = Ok () \<Longrightarrow> m = 16" "\<And>m. r3 \<noteq> Panic m" "faults s = [] \<Longrightarrow> fs = []"
      proof (cases "faults s = []")
        case True
        then have fu: "faults u = []" using write_data_faults [OF wd] ok(2) by simp
        then have id: "u\<lparr>faults := []\<rparr> = u" by (metis store_faults_id)
        have r: "r3 = Ok ()" and v: "v = log_write IndexFile (unat slot)
            (encode_entry \<lparr>ie_offset = off, ie_size = len, ie_reserved = 0\<rparr>) u"
          using ix fu by (simp_all add: update_index_at_def)
        show ?thesis by (rule that [of 16 "[]"]) (simp_all only: v r id, simp_all)
      next
        case False
        from ix obtain m fs where "v = log_write IndexFile (unat slot)
            (take m (encode_entry \<lparr>ie_offset = off, ie_size = len, ie_reserved = 0\<rparr>)) (u\<lparr>faults := fs\<rparr>)"
          "r3 = Ok () \<Longrightarrow> m = 16" "\<And>m. r3 \<noteq> Panic m"
          unfolding update_index_at_def by (rule write_all_at_cases) fastforce
        then show ?thesis using that False by blast
      qed
      have "(\<exists>e. r = Err e) \<and> t = v \<or> m = 16 \<and> finish_write h new v = (r, t)"
        using eq' wd Ok ix v(2,3) by (cases r3) (auto simp: io_bind_def on_err_def)
      then have "\<exists>m fs. (faults s = [] \<longrightarrow> fs = []) \<and> (let v = log_write IndexFile (unat slot)
              (take m (encode_entry \<lparr>ie_offset = off, ie_size = len, ie_reserved = 0\<rparr>)) (u\<lparr>faults := fs\<rparr>)
           in (\<exists>e. r = Err e) \<and> t = v \<or> m = 16 \<and> finish_write h new v = (r, t))"
        unfolding v(1) Let_def using v(4) by blast
      then show ?thesis using full by (intro res disjI2) (rule conjI, simp)+
    qed (use dw(3) in auto)
  qed
qed

section \<open>The effect of a write\<close>

text \<open>A height reads the same when its slot and every placed region are as they were.\<close>

lemma view_kept:
  assumes ok: "entry_ok s h"
    and hd: "header t = header s" "fs_max_data_file_size t = fs_max_data_file_size s"
    and hw: "unat (data_highwater s) \<le> unat (data_highwater t)"
    and en: "\<And>slot. index_entry_offset s h = Some slot \<Longrightarrow> entry_at t slot = entry_at s slot"
    and rg: "\<And>off n. placed s off n \<Longrightarrow> 0 < n \<Longrightarrow> region t off n = region s off n"
  shows "peek L t h = peek L s h" and "entry_ok t h"
proof -
  have o: "index_entry_offset t h = index_entry_offset s h"
    by (simp add: index_entry_offset_header [OF hd(1)])
  have pl: "placed t off n" if "placed s off n" "0 < n" for off n
    using that(1) hw unfolding placed_def unsplit_def hd(2) rg [OF that] by linarith
  have "peek L t h = peek L s h \<and> entry_ok t h"
  proof (cases "index_entry_offset s h")
    case None
    then show ?thesis using o by (simp add: peek_def entry_ok_def)
  next
    case (Some slot)
    let ?e = "entry_at s slot"
    show ?thesis
    proof (cases "ie_size ?e = 0")
      case True
      then show ?thesis using o en [OF Some] Some by (simp add: peek_def entry_ok_def Let_def)
    next
      case False
      then have "placed s (ie_offset ?e) (22 + unat (ie_size ?e))"
        using ok Some by (simp add: entry_ok_def Let_def)
      then show ?thesis
        using o en [OF Some] Some rg pl by (simp add: peek_def entry_ok_def Let_def)
    qed
  qed
  then show "peek L t h = peek L s h" and "entry_ok t h" by blast+
qed

lemma placed_reserved:
  assumes rs: "reserve_space n s = (Ok (off, new, data_highwater s), s1)" and inv: "fs_inv s"
  shows "s1 = s\<lparr>data_highwater := new\<rparr>" "unat new = unat off + unat n"
    "unat (data_highwater s) \<le> unat off" "unsplit s off (unat n)"
    "\<And>c. fs_max_data_file_size s = Some c \<Longrightarrow> addressable s \<Longrightarrow> unat off div unat c < 2 ^ 32"
  using rs inv unfolding fs_inv_def by (auto elim!: reserve_space_cases)

lemma data_written_keeps:
  assumes rs: "reserve_space n s = (Ok (off, new, data_highwater s), s\<lparr>data_highwater := new\<rparr>)"
    and inv: "fs_inv s" and ad: "addressable s"
    and sp: "split_offset (fs_max_data_file_size s) off = (i, local)"
    and dw: "data_written i (unat local) hb pb (s\<lparr>data_highwater := new\<rparr>) u"
    and pl: "placed s a m" "0 < m"
  shows "region u a m = region s a m"
proof -
  note p = placed_reserved [OF rs inv]
  have r: "region (s\<lparr>data_highwater := new\<rparr>) = region s"
    by (intro ext region_cong) (simp_all add: bytes_of_def split: file_id.split)
  have "region u a m = region (s\<lparr>data_highwater := new\<rparr>) a m"
  proof (rule region_kept [OF dw, where woff = off])
    show "split_offset (fs_max_data_file_size (s\<lparr>data_highwater := new\<rparr>)) off = (i, local)"
      using sp by simp
    show "unat a + m \<le> unat off" using pl(1) p(3) by (simp add: placed_def)
    show "unsplit (s\<lparr>data_highwater := new\<rparr>) a m" using pl(1) by (simp add: placed_def unsplit_def)
    show "length (region (s\<lparr>data_highwater := new\<rparr>) a m) = m" using pl(1) r by (simp add: placed_def)
  qed (use pl p(5) ad in simp_all)
  then show ?thesis using r by simp
qed

lemma region_log_index [simp]: "region (log_write IndexFile o' bs s) = region s"
  by (intro ext region_cong) simp_all

lemma region_updates [simp]:
  "region (s\<lparr>data_highwater := x\<rparr>) = region s" "region (s\<lparr>faults := fs\<rparr>) = region s"
  by (intro ext region_cong; simp add: bytes_of_def split: file_id.split)+

lemma entry_at_updates [simp]:
  "entry_at (s\<lparr>data_highwater := x\<rparr>) = entry_at s" "entry_at (s\<lparr>faults := fs\<rparr>) = entry_at s"
  by (simp_all add: entry_at_def bytes_of_def fun_eq_iff)

lemma entry_at_data_written:
  "data_written i local hb pb s u \<Longrightarrow> entry_at u = entry_at s"
  by (simp add: entry_at_def data_written_def fun_eq_iff)

lemma bookkeeping_region: "bookkeeping s t \<Longrightarrow> region t = region s"
  by (intro ext region_cong) (simp_all add: bookkeeping_def same_blocks_def)

lemma bookkeeping_entry_at:
  "bookkeeping s t \<Longrightarrow> 64 \<le> unat slot \<Longrightarrow> entry_at t slot = entry_at s slot"
  by (simp add: entry_at_def bookkeeping_def same_blocks_def)

text \<open>
  A write to \<open>h\<close>, whatever it returns and whatever fails, leaves every other height with a
  sound entry as it was.
\<close>

lemma write_keeps_others:
  assumes w: "write_block L h block s = (r, t)" and inv: "fs_inv s" and ad: "addressable s"
    and ne: "h' \<noteq> h" and ok: "entry_ok s h'"
  shows "peek K t h' = peek K s h' \<and> entry_ok t h'"
  using w
proof (cases rule: write_block_cases)
  case refused
  then show ?thesis using ok by simp
next
  case (requested payload len slot n)
  from requested inv show ?thesis
  proof (cases rule: write_stages)
    case (no_space e)
    then show ?thesis using ok by simp
  next
    case (reserved off new i local j k u)
    note p = placed_reserved [OF reserved(1) inv]
    note keep = data_written_keeps [OF reserved(1) inv ad reserved(2,3)]
    have uf: "header u = header s" "fs_max_data_file_size u = fs_max_data_file_size s"
      "data_highwater u = new"
      using reserved(3) store_fields(1,2) [of u "s\<lparr>data_highwater := new\<rparr>"]
      by (simp_all add: data_written_def)
    have eu: "entry_at u = entry_at s" using entry_at_data_written [OF reserved(3)] by simp
    from reserved(4) show ?thesis
    proof (elim disjE conjE exE)
      fix e assume "t = u\<lparr>data_highwater := data_highwater s\<rparr>"
      then show ?thesis using view_kept [OF ok, of t] uf eu keep by simp
    next
      fix m fs
      assume "let v = log_write IndexFile (unat slot)
              (take m (encode_entry \<lparr>ie_offset = off, ie_size = len, ie_reserved = 0\<rparr>))
              (u\<lparr>faults := fs\<rparr>)
           in (\<exists>e. r = Err e) \<and> t = v \<or> m = 16 \<and> finish_write h new v = (r, t)"
      then obtain v where v: "v = log_write IndexFile (unat slot)
              (take m (encode_entry \<lparr>ie_offset = off, ie_size = len, ie_reserved = 0\<rparr>))
              (u\<lparr>faults := fs\<rparr>)" "t = v \<or> finish_write h new v = (r, t)"
        by (auto simp: Let_def)
      have bk: "bookkeeping v t" using v(2) finish_write_bookkeeping(1) by fastforce
      have tf: "header t = header s" "fs_max_data_file_size t = fs_max_data_file_size s"
        "data_highwater t = new" "region t = region u"
        using bk v(1) uf bookkeeping_region [OF bk] by (simp_all add: bookkeeping_def same_blocks_def)
      have "entry_at t sl = entry_at s sl" if sl: "index_entry_offset s h' = Some sl" for sl
      proof -
        have "index_entry_offset s h = Some slot" using requested(1) by (simp add: write_request_def)
        with sl ne have "unat slot + 16 \<le> unat sl \<or> unat sl + 16 \<le> unat slot"
          by (metis index_slots_apart)
        then have "entry_at v sl = entry_at s sl"
          using eu unfolding v(1) by (subst entry_kept) auto
        then show ?thesis using bookkeeping_entry_at [OF bk] index_entry_offset_ge [OF sl] by simp
      qed
      then show ?thesis using view_kept [OF ok, of t] tf keep p(2,3) by simp
    qed
  qed
qed

text \<open>What a write that returned \<open>Ok\<close> has put into the index and the data files.\<close>

lemma write_Ok_stored:
  assumes w: "write_block L h block s = (Ok (), t)" and inv: "fs_inv s" and ad: "addressable s"
  obtains payload len slot off where
    "compress L block = Ok payload" "block \<noteq> []" "unat len = length payload"
    "index_entry_offset t h = Some slot"
    "entry_at t slot = \<lparr>ie_offset = off, ie_size = len, ie_reserved = 0\<rparr>"
    "region t off (22 + length payload) = serialize (block_header_of L h block len) @ payload"
    "placed t off (22 + length payload)"
    "unat (data_highwater s) \<le> unat off" "unat (data_highwater t) = unat off + 22 + length payload"
  using w
proof (cases rule: write_block_cases)
  case (requested payload len slot n)
  note q = requested(1) [unfolded write_request_def]
  from requested inv show ?thesis
  proof (cases rule: write_stages)
    case (reserved off new i local j k u)
    note p = placed_reserved [OF reserved(1) inv]
    let ?e = "\<lparr>ie_offset = off, ie_size = len, ie_reserved = 0\<rparr>"
    from reserved(4) obtain fs where kj: "k = length payload" "j = 22" and
      fw: "finish_write h new (log_write IndexFile (unat slot) (take 16 (encode_entry ?e))
              (u\<lparr>faults := fs\<rparr>)) = (Ok (), t)"
      by (auto simp: Let_def)
    define v where "v = log_write IndexFile (unat slot) (encode_entry ?e) (u\<lparr>faults := fs\<rparr>)"
    have bk: "bookkeeping v t" using finish_write_bookkeeping(1) [OF fw] by (simp add: v_def)
    have uf: "header u = header s" "fs_max_data_file_size u = fs_max_data_file_size s"
      "data_highwater u = new"
      using reserved(3) store_fields(1,2) [of u "s\<lparr>data_highwater := new\<rparr>"]
      by (simp_all add: data_written_def)
    have tf: "header t = header s" "fs_max_data_file_size t = fs_max_data_file_size s"
      "data_highwater t = new" "region t = region u"
      using bk uf bookkeeping_region [OF bk]
      by (simp_all add: bookkeeping_def same_blocks_def v_def)
    have slot: "index_entry_offset s h = Some slot" using q by blast
    have io: "index_entry_offset t h = Some slot"
      by (simp add: index_entry_offset_header [OF tf(1)] slot)
    have "entry_at t slot = ?e"
      using bookkeeping_entry_at [OF bk index_entry_offset_ge [OF slot]]
      by (simp add: v_def entry_written)
    moreover have rg: "region t off (22 + length payload) =
        serialize (block_header_of L h block len) @ payload"
    proof -
      have "region u off (22 + length payload) = serialize (block_header_of L h block len) @ payload"
        by (rule region_written [OF reserved(3) [unfolded kj, simplified]]) (use reserved(2) in simp)
      then show ?thesis using tf(4) by simp
    qed
    moreover have "placed t off (22 + length payload)"
      using p(2,4) q tf(2,3) rg by (simp add: placed_def unsplit_def)
    moreover have "unat (data_highwater t) = unat off + 22 + length payload"
      using p(2) q tf(3) by simp
    ultimately show ?thesis using that q io p(3) by blast
  qed simp
qed simp

lemma block_in_stored:
  assumes "compress L block = Ok payload" and "codecs_inverse L" and "unat len = length payload"
  shows "block_in L len (serialize (block_header_of L h block len) @ payload) = Ok block"
  using assms decompress_compress [OF assms(2,1)]
  by (simp add: block_in_def block_header_of_def)

lemma write_Ok_entry_ok:
  assumes "write_block L h block s = (Ok (), t)" and "fs_inv s" and "addressable s"
  shows "entry_ok t h"
  using assms by (rule write_Ok_stored) (simp add: entry_ok_def Let_def)

text \<open>
  The block is what the height reads as afterwards, when its compressed form is within the
  limit the reader imposes.
\<close>

lemma write_Ok_peek:
  assumes w: "write_block L h block s = (Ok (), t)" and inv: "fs_inv s" and ad: "addressable s"
    and L: "codecs_inverse L" "codecs_nonempty L"
    and sz: "\<And>payload. compress L block = Ok payload \<Longrightarrow> length payload \<le> 2 ^ 30"
  shows "peek L t h = Ok (Some block)"
proof -
  obtain payload len slot off where st:
    "compress L block = Ok payload" "block \<noteq> []" "unat len = length payload"
    "index_entry_offset t h = Some slot"
    "entry_at t slot = \<lparr>ie_offset = off, ie_size = len, ie_reserved = 0\<rparr>"
    "region t off (22 + length payload) = serialize (block_header_of L h block len) @ payload"
    using w inv ad by (rule write_Ok_stored)
  have "payload \<noteq> []" using compress_nonempty [OF L(2) st(1,2)] .
  then have "len \<noteq> 0" using st(3) by (auto simp: unat_eq_zero)
  moreover have "\<not> MAX_BLOCK_SIZE < len"
    using sz [OF st(1)] st(3) by (simp add: word_less_nat_alt MAX_BLOCK_SIZE_def not_less)
  ultimately show ?thesis
    using st block_in_stored [OF st(1) L(1) st(3)] by (simp add: peek_def Let_def)
qed

text \<open>Every write keeps the invariant of the file set.\<close>

lemma bookkeeping_fs_inv:
  assumes "bookkeeping s t" shows "fs_inv t = fs_inv s" and "own_locks t = own_locks s"
proof -
  have "fs_inner t = fs_inner s" "locks t = locks s" "next_fd t = next_fd s"
    "fs_max_data_file_size t = fs_max_data_file_size s"
    using assms by (simp_all add: bookkeeping_def same_blocks_def)
  then show "fs_inv t = fs_inv s" and "own_locks t = own_locks s"
    by (simp_all add: fs_inv_def own_locks_def)
qed

lemma bookkeeping_ready: "bookkeeping s t \<Longrightarrow> ready s \<Longrightarrow> ready t"
  using bookkeeping_fs_inv [of s t] by (simp add: ready_def bookkeeping_def)

lemma fs_inv_data_highwater [simp]: "fs_inv (s\<lparr>data_highwater := x\<rparr>) = fs_inv s"
  by (simp add: fs_inv_def)

lemma write_block_fs_inv:
  assumes w: "write_block L h block s = (r, t)" and inv: "fs_inv s"
  shows "fs_inv t" and "header t = header s"
    and "fs_max_data_file_size t = fs_max_data_file_size s"
proof -
  have "fs_inv t \<and> header t = header s \<and> fs_max_data_file_size t = fs_max_data_file_size s"
    using w
  proof (cases rule: write_block_cases)
    case refused
    then show ?thesis using inv by simp
  next
    case (requested payload len slot n)
    from requested inv show ?thesis
    proof (cases rule: write_stages)
      case (no_space e)
      then show ?thesis using inv by simp
    next
      case (reserved off new i local j k u)
      have u: "fs_inv u" "header u = header s" "fs_max_data_file_size u = fs_max_data_file_size s"
        using reserved(3) store_fields(2) [of u "s\<lparr>data_highwater := new\<rparr>"]
        by (simp_all add: data_written_def)
      have fin: "fs_inv t \<and> header t = header s \<and> fs_max_data_file_size t = fs_max_data_file_size s"
        if "finish_write h new (log_write IndexFile a bs (u\<lparr>faults := fs\<rparr>)) = (r, t)" for a bs fs
        using finish_write_bookkeeping(1) [OF that] u
          bookkeeping_fs_inv(1) [OF finish_write_bookkeeping(1) [OF that]]
        by (simp add: bookkeeping_def same_blocks_def)
      show ?thesis using reserved(4) u fin by (auto simp: Let_def)
    qed
  qed
  then show "fs_inv t" "header t = header s" "fs_max_data_file_size t = fs_max_data_file_size s"
    by blast+
qed

section \<open>Writes succeed\<close>

text \<open>Space for \<open>n\<close> more bytes, in the current data file or in the next one.\<close>

definition room :: "'z store_scheme \<Rightarrow> nat \<Rightarrow> bool" where
  "room s n \<longleftrightarrow>
     (case fs_max_data_file_size s of
        None \<Rightarrow> unat (data_highwater s) + n < 2 ^ 64
      | Some cap \<Rightarrow>
          n \<le> unat cap \<and> unat (data_highwater s) div unat cap + 1 < 2 ^ 32 \<and>
          (unat (data_highwater s) div unat cap + 1) * unat cap + n < 2 ^ 64)"

lemma checked_add_fits: "unat a + unat b < 2 ^ LENGTH('a) \<Longrightarrow> checked_add a b = Some (a + b :: 'a::len word)"
  by (simp add: checked unat_plus_fits)

lemma checked_mul_fits: "unat a * unat b < 2 ^ LENGTH('a) \<Longrightarrow> checked_mul a b = Some (a * b :: 'a::len word)"
  by (simp add: checked unat_times_fits)

lemma reserve_space_room:
  assumes rm: "room s (unat n)" and cap: "cap_ok (fs_max_data_file_size s)"
  obtains off new where
    "reserve_space n s = (Ok (off, new, data_highwater s), s\<lparr>data_highwater := new\<rparr>)"
proof (cases "fs_max_data_file_size s")
  case None
  then have "checked_add (data_highwater s) n = Some (data_highwater s + n)"
    using rm by (intro checked_add_fits) (simp add: room_def)
  then show ?thesis using that None by (simp add: reserve_space_None io_simps)
next
  case (Some c)
  let ?hw = "data_highwater s"
  let ?q = "unat ?hw div unat c"
  have c: "0 < unat c" using cap Some by (auto simp: cap_ok_def unat_gt_0)
  have rm': "unat n \<le> unat c" "?q + 1 < 2 ^ 32" "(?q + 1) * unat c + unat n < 2 ^ 64"
    using rm Some by (simp_all add: room_def)
  have lt: "\<not> c < n" using rm'(1) by (simp add: word_less_nat_alt)
  have hw: "unat ?hw < (?q + 1) * unat c"
    using dividend_less_div_times [OF c, of "unat ?hw"] by (simp add: mult.commute)
  have "unat (?hw mod c) \<le> unat ?hw" by (simp add: unat_mod_distrib)
  then have e: "checked_add (?hw mod c) n = Some (?hw mod c + n)"
    using hw rm'(3) by (intro checked_add_fits) simp
  show ?thesis
  proof (cases "?hw mod c + n \<le> c")
    case True
    have "checked_add ?hw n = Some (?hw + n)" using hw rm'(3) by (intro checked_add_fits) simp
    then show ?thesis using that reserve_space_fits [OF Some lt e True] by (simp add: io_simps)
  next
    case False
    have "unat (?hw div c) < 2 ^ 32" using rm'(2) by (simp add: unat_div_distrib)
    then obtain i where i: "u32_of_u64 (?hw div c) = Some i"
      by (cases "u32_of_u64 (?hw div c)") (auto simp: u32_of_u64_None)
    then have iq: "unat i = ?q" by (auto simp: u32_of_u64_Some unat_div_distrib)
    have "checked_add i 1 = Some (i + 1)" using rm'(2) iq by (intro checked_add_fits) simp
    moreover have j: "unat (ucast (i + 1) :: u64) = ?q + 1"
      using rm'(2) iq by (simp add: unat_ucast_up_64 unat_plus_fits)
    moreover have "checked_mul (ucast (i + 1)) c = Some (ucast (i + 1) * c)"
      using rm'(3) j by (intro checked_mul_fits) simp
    ultimately have adv: "advance_to_next_file i c s = (Ok (ucast (i + 1) * c), s)"
      by (simp add: advance_to_next_file_def io_simps)
    have "unat (ucast (i + 1) * c) = (?q + 1) * unat c"
      using rm'(3) j by (subst unat_times_fits) simp_all
    then have "checked_add (ucast (i + 1) * c) n = Some (ucast (i + 1) * c + n)"
      using rm'(3) by (intro checked_add_fits) simp
    then show ?thesis
      using that reserve_space_skips [OF Some lt e False i adv] by (simp add: io_simps)
  qed
qed

lemma ready_log_write [simp]:
  "ready s \<Longrightarrow> ready (log_write (path_for i) off bs s)"
  "ready s \<Longrightarrow> ready (log_write IndexFile off bs s)"
  by (simp_all add: ready_def is_dir_log_write)

lemma ready_updates [simp]:
  "ready (s\<lparr>data_highwater := x\<rparr>) = ready s" "ready (s\<lparr>io_log := l\<rparr>) = ready s"
  by (simp_all add: ready_def own_locks_def is_dir_def path_for_def)

lemma write_data_ready:
  assumes "ready s"
  obtains u where "write_data off p hdr s = (Ok (), u)" "ready u"
proof -
  obtain i local where sp: "split_offset (fs_max_data_file_size s) off = (i, local)" by fastforce
  from assms sp obtain f v where v: "fs_resolve off s = (Ok (f, local, i), v)"
    "hfile f = path_for i" "ready v" by (rule fs_resolve_ready)
  let ?x = "log_write (path_for i) (unat local) (serialize hdr)
      (log_write (path_for i) (unat (local + u64_of_len SERIALIZED_SIZE)) p v)"
  let ?y = "if sync ?x = Sync then ?x\<lparr>io_log := EvSync (path_for i) # io_log ?x\<rparr> else ?x"
  have "faults v = []" using v(3) by (simp add: ready_def)
  then have "write_data off p hdr s = (Ok (), ?y)"
    using v(1,2) by (simp add: write_data_def io_bind_def io_simps)
  moreover have "ready ?y" using v(3) by simp
  ultimately show ?thesis by (rule that)
qed

lemma finish_write_ready:
  assumes s: "ready s" and nz: "off \<noteq> 0"
  obtains t where "finish_write h off s = (Ok (), t)" "ready t"
proof -
  obtain r t where f: "finish_write h off s = (r, t)" by fastforce
  let ?u = "advance_max_contiguous_height h s"
  let ?v = "if height_highwater ?u < h then ?u\<lparr>height_highwater := h\<rparr> else ?u"
  have "faults ?u = []" using s advance_contig [of s h] by (simp add: contig_only_def ready_def)
  then have fv: "faults ?v = []" by simp
  have "checkpoint off ?v = (r', t') \<Longrightarrow> r' = Ok ()" for r' t'
    using fv nz by (auto simp: checkpoint_def io_bind_def io_simps split: if_splits)
  moreover have "maybe_checkpoint h (height_highwater ?u < h) off ?v = (r, t)"
    using f by (simp add: finish_write_eq Let_def)
  ultimately have "r = Ok ()" by (auto elim!: maybe_checkpoint_cases)
  then show ?thesis using that f bookkeeping_ready [OF finish_write_bookkeeping(1) [OF f] s] by blast
qed

text \<open>Once the space is reserved, nothing is left to fail.\<close>

lemma reserved_write_ready:
  assumes s: "ready s" and rq: "write_request L s h block payload len slot n"
    and eq: "(r, t) = io_bind (reserve_space n) (\<lambda>(off, saved, prev).
          io_bind (on_err (write_data off payload (block_header_of L h block len))
                     (release_reservation prev saved)) (\<lambda>_.
          io_bind (update_index_at slot \<lparr>ie_offset = off, ie_size = len, ie_reserved = 0\<rparr>)
            (\<lambda>_. finish_write h saved))) s"
    and rs: "reserve_space n s = (Ok (off, new, data_highwater s), s\<lparr>data_highwater := new\<rparr>)"
  shows "r = Ok ()" and "ready t"
proof -
  have "unat new \<noteq> 0"
    using placed_reserved(2) [OF rs] s rq by (simp add: ready_def write_request_def)
  then have nz: "new \<noteq> 0" by (auto simp: unat_eq_zero)
  have "ready (s\<lparr>data_highwater := new\<rparr>)" using s by simp
  then obtain u where u: "write_data off payload (block_header_of L h block len)
      (s\<lparr>data_highwater := new\<rparr>) = (Ok (), u)" "ready u"
    by (rule write_data_ready)
  let ?v = "log_write IndexFile (unat slot)
      (encode_entry \<lparr>ie_offset = off, ie_size = len, ie_reserved = 0\<rparr>) u"
  have "ready ?v" using u(2) by simp
  then obtain t' where t': "finish_write h new ?v = (Ok (), t')" "ready t'"
    using nz by (rule finish_write_ready)
  have "(r, t) = (Ok (), t')"
    using eq rs u t'(1) by (simp add: io_bind_def on_err_def update_index_at_def ready_def)
  then show "r = Ok ()" and "ready t" using t'(2) by simp_all
qed

lemma write_block_ready:
  assumes s: "ready s" and rq: "write_request L s h block payload len slot n"
    and rm: "room s (unat n)"
  obtains t where "write_block L h block s = (Ok (), t)" "ready t"
proof -
  obtain r t where w: "write_block L h block s = (r, t)" by fastforce
  then show ?thesis
  proof (cases rule: write_block_cases)
    case refused
    then show ?thesis using rq by blast
  next
    case (requested payload' len' slot' n')
    have "unat n' = unat n" using requested(1) rq by (simp add: write_request_def)
    then have n: "n' = n" by (simp add: word_unat_eq_iff)
    have "cap_ok (fs_max_data_file_size s)" using s by (simp add: ready_def fs_inv_def)
    with rm obtain off new where
      "reserve_space n' s = (Ok (off, new, data_highwater s), s\<lparr>data_highwater := new\<rparr>)"
      unfolding n by (rule reserve_space_room)
    note k = reserved_write_ready [OF s requested this]
    then show ?thesis using that w by simp
  qed
qed

text \<open>On a store whose calls succeed, a write returns \<open>Ok\<close> or does nothing.\<close>

lemma ready_write_cases:
  assumes s: "ready s" and w: "write_block L h block s = (r, t)"
  shows "ready t \<and> (r = Ok () \<or> t = s)"
  using w
proof (cases rule: write_block_cases)
  case refused
  then show ?thesis using s by simp
next
  case (requested payload len slot n)
  have inv: "fs_inv s" using s by (simp add: ready_def)
  from requested inv show ?thesis
  proof (cases rule: write_stages)
    case (no_space e)
    then show ?thesis using s by simp
  next
    case (reserved off new i local j k u)
    then show ?thesis using reserved_write_ready [OF s requested reserved(1)] by simp
  qed
qed

section \<open>An empty store\<close>

text \<open>The state of a store just created over an empty directory.\<close>

definition empty_store :: "u64 option \<Rightarrow> u64 \<Rightarrow> sync_mode \<Rightarrow> nat \<Rightarrow> store" where
  "empty_store cap min_height mode max_files =
     (let hdr = (with_lowest_block_height default_header min_height)
            \<lparr>ih_max_data_file_size := case cap of None \<Rightarrow> u64_max | Some c \<Rightarrow> c\<rparr>
      in \<lparr>idx_file = Some (encode_header hdr), data_dir = [], locks = [(IndexFile, 0)], next_fd = 1,
          faults = [], io_log = [EvWrite IndexFile 0 (encode_header hdr)],
          fs_max_data_file_size = cap, fs_inner = new_inner max_files,
          index_file = \<lparr>fd = 0, hfile = IndexFile\<rparr>,
          data_highwater = 0, header = hdr, sync = mode,
          max_contiguous_height = saturating_sub min_height 1,
          height_highwater = saturating_sub min_height 1,
          last_checkpoint_offset = 0, recovered = True\<rparr>)"

lemma zread_beyond: "length f \<le> off \<Longrightarrow> zread f off n = replicate n 0"
  by (rule nth_equalityI) (simp_all add: zread_def)

lemma decode_zeros: "decode_entry (replicate 16 0) = default_entry"
  by (metis decode_encode_entry encode_default_entry)

lemma empty_store_entry: "64 \<le> unat slot \<Longrightarrow> entry_at (empty_store c m y n) slot = default_entry"
  by (simp add: entry_at_def empty_store_def Let_def bytes_of_def zread_beyond decode_zeros)

lemma empty_store_sound [simp]: "sound (empty_store c m y n)"
  by (auto simp: sound_def entry_ok_def Let_def empty_store_entry index_entry_offset_ge
      default_entry_def split: option.split)

lemma empty_store_contents: "contents L (empty_store c m y n) h = None"
  by (auto simp: contents_def peek_def Let_def empty_store_entry index_entry_offset_ge
      default_entry_def split: option.split)

lemma empty_store_ready [simp]: "c \<noteq> Some 0 \<Longrightarrow> ready (empty_store c m y n)"
  by (auto simp: ready_def fs_inv_def own_locks_def empty_store_def Let_def cap_ok_def is_dir_def
      path_for_def inner_lookup_def new_inner_def lru_inv_def)

lemma empty_store_fields [simp]:
  "data_highwater (empty_store c m y n) = 0" "fs_max_data_file_size (empty_store c m y n) = c"
  "ih_min_height (header (empty_store c m y n)) = m"
  by (simp_all add: empty_store_def Let_def with_lowest_block_height_def)

lemma empty_store_addressable [simp]: "addressable (empty_store c m y n)"
  by (simp add: addressable_def split: option.split)

end
