(* ===== verification/StoreContract.thy ===== *)
theory StoreContract
  imports WriteRead
begin

text \<open>
  The contract of a store of blocks, as its clients see it: reads return a view, a write that
  succeeds is the update of the view at one height. The store of \<open>Store\<close> is an instance, with
  \<open>contents\<close> as the view and \<open>sound\<close> as part of the invariant; the theorems of this theory are
  the claims about a single open store.
\<close>

section \<open>The contract\<close>

text \<open>
  A run of writes that stops at the first failure, \<open>for (h, b) in ps { write(h, b)?; }\<close>, and
  the condition that every write of it finds a state that can take its block.
\<close>

primrec write_seq ::
  "(u64 \<Rightarrow> bytes \<Rightarrow> ('s, unit) io) \<Rightarrow> (u64 \<times> bytes) list \<Rightarrow> ('s, unit) io" where
  "write_seq wr [] = ret ()"
| "write_seq wr (p # ps) = io_bind (wr (fst p) (snd p)) (\<lambda>_. write_seq wr ps)"

primrec fits_seq ::
  "(u64 \<Rightarrow> bytes \<Rightarrow> ('s, unit) io) \<Rightarrow> ('s \<Rightarrow> bytes \<Rightarrow> bool) \<Rightarrow> (u64 \<times> bytes) list \<Rightarrow> 's \<Rightarrow> bool" where
  "fits_seq wr fits [] s \<longleftrightarrow> True"
| "fits_seq wr fits (p # ps) s \<longleftrightarrow>
     fits s (snd p) \<and>
     (case wr (fst p) (snd p) s of
        (Ok u, t) \<Rightarrow> fits_seq wr fits ps t
      | (Err e, t) \<Rightarrow> True
      | (Panic m, t) \<Rightarrow> True)"

locale block_map =
  fixes wr :: "u64 \<Rightarrow> bytes \<Rightarrow> ('s, unit) io"
    and rd :: "u64 \<Rightarrow> ('s, bytes option) io"
    and view :: "'s \<Rightarrow> u64 \<Rightarrow> bytes option"
    and inv :: "'s \<Rightarrow> bool"
    and fits :: "'s \<Rightarrow> bytes \<Rightarrow> bool"
  assumes rd_view: "inv s \<Longrightarrow> rd h s = (Ok x, t) \<Longrightarrow> x = view s h"
    and rd_keeps: "inv s \<Longrightarrow> rd h s = (r, t) \<Longrightarrow> view t = view s \<and> inv t"
    and wr_view: "inv s \<Longrightarrow> fits s b \<Longrightarrow> wr h b s = (Ok (), t) \<Longrightarrow> view t = (view s)(h \<mapsto> b) \<and> inv t"
begin

lemma read_after_write:
  assumes "inv s" and "fits s b" and "wr h b s = (Ok (), t)" and "rd h' t = (Ok x, u)"
  shows "x = (if h' = h then Some b else view s h')"
  using assms wr_view [OF assms(1,2,3)] rd_view [of t h' x u] by simp

text \<open>Reads in between do not disturb a later read.\<close>

lemma read_twice:
  assumes "inv s" and "rd h s = (Ok x, t)" and "rd h' t = (r, u)" and "rd h u = (Ok y, v)"
  shows "y = x"
  using assms rd_view rd_keeps by metis

lemma write_seq_view:
  assumes "inv s" and "write_seq wr ps s = (Ok (), t)" and "fits_seq wr fits ps s"
  shows "view t = view s ++ map_of (rev ps) \<and> inv t"
  using assms
proof (induction ps arbitrary: s)
  case Nil
  then show ?case by (simp add: io_simps)
next
  case (Cons p ps)
  from Cons.prems(2) obtain u where u: "wr (fst p) (snd p) s = (Ok (), u)" "write_seq wr ps u = (Ok (), t)"
    by (auto elim: io_bind_OkE)
  then have v: "view u = (view s)(fst p \<mapsto> snd p)" "inv u"
    using wr_view [of s "snd p" "fst p" u] Cons.prems by auto
  have t: "view t = view u ++ map_of (rev ps) \<and> inv t"
    by (rule Cons.IH [OF v(2) u(2)]) (use Cons.prems(3) u(1) in simp)
  have "view s ++ map_of (rev (p # ps)) = (view s)(fst p \<mapsto> snd p) ++ map_of (rev ps)"
    by (cases p) (simp add: map_add_def fun_upd_def fun_eq_iff split: option.split)
  then show ?case using t v(1) by metis
qed

end

section \<open>The store is an instance\<close>

definition store_ok :: "'z store_scheme \<Rightarrow> bool" where
  "store_ok s \<longleftrightarrow> fs_inv s \<and> sound s"

text \<open>
  A block the store can take: its compressed form is one the reader accepts, and the space below
  the high-water mark is addressable.
\<close>

definition acceptable :: "libs \<Rightarrow> 'z store_scheme \<Rightarrow> bytes \<Rightarrow> bool" where
  "acceptable L s block \<longleftrightarrow>
     codecs_inverse L \<and> codecs_nonempty L \<and> addressable s \<and>
     (\<forall>payload. compress L block = Ok payload \<longrightarrow> length payload \<le> 2 ^ 30)"

text \<open>The part of it that does not depend on the store.\<close>

definition storable :: "libs \<Rightarrow> bytes \<Rightarrow> bool" where
  "storable L b \<longleftrightarrow>
     codecs_inverse L \<and> codecs_nonempty L \<and> (\<forall>payload. compress L b = Ok payload \<longrightarrow> length payload \<le> 2 ^ 30)"

lemma store_write_view:
  assumes inv: "store_ok s" and fits: "acceptable L s block"
    and w: "write_block L h block s = (Ok (), t)"
  shows "contents L t = (contents L s)(h \<mapsto> block) \<and> store_ok t"
proof -
  have s: "fs_inv s" "addressable s" "\<And>h. entry_ok s h"
    using inv fits by (simp_all add: store_ok_def sound_def acceptable_def)
  have "peek L t h = Ok (Some block)"
    using fits by (intro write_Ok_peek [OF w s(1,2)]) (simp_all add: acceptable_def)
  moreover have other: "peek L t h' = peek L s h' \<and> entry_ok t h'" if "h' \<noteq> h" for h'
    using write_keeps_others [OF w s(1,2) that s(3)] .
  ultimately have "contents L t = (contents L s)(h \<mapsto> block)"
    by (simp add: contents_def fun_eq_iff)
  moreover have "sound t"
    using other write_Ok_entry_ok [OF w s(1,2)] unfolding sound_def by metis
  ultimately show ?thesis using write_block_fs_inv(1) [OF w s(1)] by (simp add: store_ok_def)
qed

lemma store_read_keeps:
  assumes inv: "store_ok s" and r: "read_block L h s = (r, t)"
  shows "contents K t = contents K s \<and> store_ok t"
proof -
  from read_block_frame [OF r] inv have "same_files s t" "fs_inv t" by (auto simp: store_ok_def)
  then have "same_blocks s t" by (simp add: same_files_blocks)
  with same_blocks_view [OF this] inv \<open>fs_inv t\<close> show ?thesis
    by (auto simp: store_ok_def fun_eq_iff)
qed

interpretation store: block_map "write_block L" "read_block L" "contents L"
  "store_ok :: 'z store_scheme \<Rightarrow> bool" "acceptable L" for L
proof
  fix s :: "'z store_scheme" and h x t
  assume "store_ok s" "read_block L h s = (Ok x, t)"
  then show "x = contents L s h" by (simp add: contents_def read_block_Ok store_ok_def)
qed (use store_read_keeps store_write_view in blast)+

section \<open>Claims\<close>

text \<open>
  C1: a write to a store whose system calls succeed, of a block that fits, returns \<open>Ok\<close>, and the
  next read of that height returns exactly the block.
\<close>

theorem write_then_read:
  assumes "ready s" and "acceptable L s block" and "write_request L s h block payload len slot n"
    and "room s (unat n)"
  shows "case write_block L h block s of
      (Ok u, t) \<Rightarrow> ready t \<and> fst (read_block L h t) = Ok (Some block)
    | (Err e, t) \<Rightarrow> False
    | (Panic m, t) \<Rightarrow> False"
proof -
  obtain t where w: "write_block L h block s = (Ok (), t)" "ready t"
    using assms(1,3,4) by (rule write_block_ready)
  have "peek L t h = Ok (Some block)"
    using w(1) assms(1,2) by (intro write_Ok_peek) (auto simp: ready_def acceptable_def)
  moreover obtain v where "read_block L h t = (peek L t h, v)" using w(2) by (rule read_block_ready)
  ultimately show ?thesis using w by simp
qed

lemma acceptable_plain:
  "length b \<le> 2 ^ 30 \<Longrightarrow> acceptable plain_libs (empty_store c m y n) b"
  by (simp add: acceptable_def)

theorem write_then_read_witness:
  "case write_block plain_libs 7 [1, 2, 3] (empty_store (Some 100) 5 Async 4) of
      (Ok u, t) \<Rightarrow> ready t \<and> fst (read_block plain_libs 7 t) = Ok (Some [1, 2, 3])
    | (Err e, t) \<Rightarrow> False
    | (Panic m, t) \<Rightarrow> False"
  by (rule write_then_read [where payload = "[1, 2, 3]" and len = 3 and slot = 96 and n = 25])
     (simp_all add: acceptable_plain write_request_def room_def index_entry_offset_Some)

text \<open>
  C2: a write that returns \<open>Ok\<close> is the update of the store's map at one height, and leaves the
  store well formed, whichever system calls failed on the way.
\<close>

theorem write_is_map_update:
  assumes "store_ok s" and "acceptable L s block" and "write_block L h block s = (Ok (), t)"
  shows "contents L t = (contents L s)(h \<mapsto> block) \<and> store_ok t"
  by (rule store.wr_view [OF assms])

theorem write_is_map_update_witness:
  "\<exists>t. write_block plain_libs 7 [1, 2, 3] (empty_store None 5 Sync 4) = (Ok (), t) \<and>
     contents plain_libs t = [7 \<mapsto> [1, 2, 3]] \<and> store_ok t"
proof -
  let ?s = "empty_store None 5 Sync 4"
  have "write_request plain_libs ?s 7 [1, 2, 3] [1, 2, 3] 3 96 25" "room ?s (unat (25 :: u64))"
    by (simp_all add: write_request_def room_def index_entry_offset_Some)
  then obtain t where t: "write_block plain_libs 7 [1, 2, 3] ?s = (Ok (), t)"
    by (rule write_block_ready [rotated 1]) simp_all
  have "store_ok ?s" using empty_store_ready [of None 5 Sync 4] by (simp add: store_ok_def ready_def)
  moreover have "contents plain_libs ?s = Map.empty" by (simp add: empty_store_contents fun_eq_iff)
  ultimately show ?thesis
    using t write_is_map_update [of ?s plain_libs "[1, 2, 3]" 7 t] by (simp add: acceptable_plain)
qed

text \<open>
  C3: a write to one height, whatever it returns and whichever system call fails (torn payload,
  torn header, torn index entry or checkpoint included), leaves every other height whose entry
  was sound reading exactly as before, and its entry sound.
\<close>

theorem write_spares_other_heights:
  assumes "write_block L h block s = (r, t)" and "fs_inv s" and "addressable s"
    and "h' \<noteq> h" and "entry_ok s h'"
  shows "peek K t h' = peek K s h' \<and> entry_ok t h'"
  by (rule write_keeps_others [OF assms])

text \<open>A store that holds one block, with the next write's index update torn after five bytes.\<close>

definition one_block_store :: store where
  "one_block_store = snd (write_block plain_libs 7 [1, 2, 3] (empty_store None 5 Async 4))"

lemma one_block_store_ok [simp]:
  "ready one_block_store" "store_ok one_block_store" "addressable one_block_store"
  "contents plain_libs one_block_store = [7 \<mapsto> [1, 2, 3]]"
proof -
  let ?s = "empty_store None 5 Async 4"
  have "write_request plain_libs ?s 7 [1, 2, 3] [1, 2, 3] 3 96 25" "room ?s (unat (25 :: u64))"
    by (simp_all add: write_request_def room_def index_entry_offset_Some)
  then obtain t where t: "write_block plain_libs 7 [1, 2, 3] ?s = (Ok (), t)" "ready t"
    by (rule write_block_ready [rotated 1]) simp_all
  have ok: "store_ok ?s" using empty_store_ready [of None 5 Async 4] by (simp add: store_ok_def ready_def)
  have o: "one_block_store = t" using t(1) by (simp add: one_block_store_def)
  have "contents plain_libs ?s = Map.empty" by (simp add: empty_store_contents fun_eq_iff)
  then show "contents plain_libs one_block_store = [7 \<mapsto> [1, 2, 3]]" "store_ok one_block_store"
    using store.wr_view [OF ok _ t(1)] by (simp_all add: o acceptable_plain)
  show "ready one_block_store" using t(2) by (simp add: o)
  have "fs_max_data_file_size one_block_store = None"
    using write_block_fs_inv(3) [OF t(1)] ok by (simp add: o store_ok_def)
  then show "addressable one_block_store" by (simp add: addressable_def)
qed

theorem write_spares_other_heights_witness:
  "let s = one_block_store
        \<lparr>faults := [NoFault, NoFault, NoFault, NoFault, Fault (Error (OtherKind 28) ''disk full'') 5]\<rparr>
   in peek plain_libs (snd (write_block plain_libs 9 [4] s)) 7 = peek plain_libs s 7 \<and>
      entry_ok (snd (write_block plain_libs 9 [4] s)) 7"
proof -
  define s where "s = one_block_store
        \<lparr>faults := [NoFault, NoFault, NoFault, NoFault, Fault (Error (OtherKind 28) ''disk full'') 5]\<rparr>"
  have "fs_inv s" "addressable s" "entry_ok s 7"
    using one_block_store_ok
    by (simp_all add: s_def store_ok_def sound_def same_blocks_view(3,5) [OF same_blocks_faults])
  then show ?thesis
    using write_spares_other_heights [of plain_libs 9 "[4]" s _ _ 7, OF prod.collapse [symmetric]]
    by (simp add: s_def [symmetric] Let_def)
qed

text \<open>
  C4: a read from a store whose system calls succeed returns, on every branch, what the bytes on
  disk say: the error for a height below the minimum, nothing for a zero entry, the error for an
  implausible size, a short file, a size mismatch, an undecodable payload or a wrong checksum,
  and the block otherwise. It changes no file.
\<close>

theorem read_returns_view:
  assumes "ready s"
  shows "fst (read_block L h s) = peek L s h \<and> same_files s (snd (read_block L h s)) \<and>
    ready (snd (read_block L h s))"
proof -
  obtain t where "read_block L h s = (peek L s h, t)" "same_files s t" "ready t"
    using assms by (rule read_block_ready)
  then show ?thesis by simp
qed

theorem read_returns_view_witness:
  "fst (read_block plain_libs 7 one_block_store) = peek plain_libs one_block_store 7 \<and>
   same_files one_block_store (snd (read_block plain_libs 7 one_block_store)) \<and>
   ready (snd (read_block plain_libs 7 one_block_store))"
  by (rule read_returns_view) simp

text \<open>
  C5: a read never returns a wrong block: whatever system calls fail, a read that returns \<open>Ok\<close>
  returns the view, so in a store that holds \<open>b\<close> at \<open>h\<close> it returns \<open>b\<close>.
\<close>

theorem read_never_wrong:
  assumes "fs_inv s" and "read_block L h s = (Ok x, t)"
  shows "x = contents L s h \<and> peek L s h = Ok x"
  using read_block_Ok [OF assms(2,1)] by (simp add: contents_def)

theorem read_never_wrong_witness:
  "\<exists>t. read_block plain_libs 7 one_block_store = (Ok (Some [1, 2, 3]), t) \<and>
     contents plain_libs one_block_store 7 = Some [1, 2, 3]"
proof -
  obtain t where t: "read_block plain_libs 7 one_block_store = (peek plain_libs one_block_store 7, t)"
    by (rule read_block_ready [OF one_block_store_ok(1)])
  have "contents plain_libs one_block_store 7 = Some [1, 2, 3]" by simp
  then have "peek plain_libs one_block_store 7 = Ok (Some [1, 2, 3])"
    by (cases "peek plain_libs one_block_store 7") (simp_all add: contents_def del: one_block_store_ok)
  moreover have "fs_inv one_block_store" using one_block_store_ok(1) by (simp add: ready_def)
  ultimately show ?thesis
    using t read_never_wrong [of one_block_store plain_libs 7 "Some [1, 2, 3]" t] by auto
qed

end
