(* ===== verification/Allocation.thy ===== *)
theory Allocation
  imports WriteRead "HOL-Library.Multiset"
begin

text \<open>
  The allocation of space in the data files: what one reservation returns, what a failed write
  gives back, and the interleavings of reservations and releases of several writers, which only
  share the high-water mark under its mutex.
\<close>

section \<open>One reservation\<close>

text \<open>Where a block of \<open>n\<close> bytes goes: the high-water mark if it fits the file, else the next file.\<close>

definition place_for :: "u64 option \<Rightarrow> nat \<Rightarrow> nat \<Rightarrow> nat" where
  "place_for cap hw n =
     (case cap of
        None \<Rightarrow> hw
      | Some c \<Rightarrow> if hw mod unat c + n \<le> unat c then hw else (hw div unat c + 1) * unat c)"

lemma reserve_space_place:
  assumes "reserve_space n s = (Ok (off, new, prev), t)" and "cap_ok (fs_max_data_file_size s)"
  shows "unat off = place_for (fs_max_data_file_size s) (unat (data_highwater s)) (unat n)"
proof (cases "fs_max_data_file_size s")
  case None
  from assms(1) [unfolded reserve_space_None [OF None]] None show ?thesis
    by (auto simp: place_for_def elim: take_space_cases)
next
  case (Some c)
  let ?hw = "data_highwater s"
  from assms(1) Some have lt: "\<not> c < n" by (auto simp: reserve_space_def io_simps)
  with assms(1) Some obtain e where e: "checked_add (?hw mod c) n = Some e"
    by (cases "checked_add (?hw mod c) n") (auto simp: reserve_space_def io_simps io_bind_def)
  then have ee: "unat e = unat ?hw mod unat c + unat n" by (simp add: checked unat_mod_distrib)
  show ?thesis
  proof (cases "e \<le> c")
    case True
    from assms(1) [unfolded reserve_space_fits [OF Some lt e True]] show ?thesis
      using Some ee True by (auto simp: place_for_def word_le_nat_alt elim: take_space_cases)
  next
    case False
    from assms(1) Some lt e False obtain i where i: "u32_of_u64 (?hw div c) = Some i"
      by (cases "u32_of_u64 (?hw div c)") (auto simp: reserve_space_def io_simps io_bind_def)
    obtain r' t' where adv: "advance_to_next_file i c s = (r', t')" by fastforce
    then show ?thesis
    proof (cases rule: advance_to_next_file_cases)
      case (ok off')
      then have "advance_to_next_file i c s = (Ok off', s)" using adv by simp
      from assms(1) [unfolded reserve_space_skips [OF Some lt e False i this]] have "off = off'"
        by (auto elim: take_space_cases)
      moreover have "unat i = unat ?hw div unat c" using i by (auto simp: checked unat_div_distrib)
      ultimately show ?thesis
        using ok(4) Some ee False by (simp add: place_for_def word_le_nat_alt)
    next
      case (failed err)
      then show ?thesis
        using assms(1) Some lt e False i adv by (simp add: reserve_space_def io_simps io_bind_def)
    qed
  qed
qed

section \<open>Interleaved writers\<close>

text \<open>
  A reservation is the triple \<open>reserve_space\<close> returns. The state is the store, the reservations
  whose writes are under way and those whose blocks have landed. A writer reserves, and then its
  write either lands or fails and is released; the steps of different writers interleave freely.
\<close>

type_synonym reservation = "u64 \<times> u64 \<times> u64"

type_synonym 'z alloc = "'z store_scheme \<times> reservation list \<times> reservation list"

inductive alloc_step :: "'z alloc \<Rightarrow> 'z alloc \<Rightarrow> bool" where
  reserve: "reserve_space n s = (Ok r, t) \<Longrightarrow> 0 < n \<Longrightarrow>
     alloc_step (s, live, landed) (t, r # live, landed)"
| land: "r \<in> set live \<Longrightarrow> alloc_step (s, live, landed) (s, remove1 r live, r # landed)"
| release: "(off, new, prev) \<in> set live \<Longrightarrow>
     alloc_step (s, live, landed)
       (release_reservation prev new s, remove1 (off, new, prev) live, landed)"

inductive_cases alloc_stepE: "alloc_step (s, live, landed) c"

text \<open>
  Every reservation claims the bytes from the previous high-water mark to its end; claims are
  disjoint and below the high-water mark.
\<close>

fun claim_ok :: "u64 \<Rightarrow> reservation \<Rightarrow> bool" where
  "claim_ok hw (off, new, prev) \<longleftrightarrow> prev \<le> off \<and> off < new \<and> new \<le> hw"

fun apart :: "reservation \<Rightarrow> reservation \<Rightarrow> bool" where
  "apart (off, new, prev) (off', new', prev') \<longleftrightarrow> new \<le> prev' \<or> new' \<le> prev"

definition alloc_inv :: "'z alloc \<Rightarrow> bool" where
  "alloc_inv c \<longleftrightarrow>
     (case c of (s, live, landed) \<Rightarrow>
        cap_ok (fs_max_data_file_size s) \<and>
        (\<forall>r \<in> set (live @ landed). claim_ok (data_highwater s) r) \<and>
        sorted_wrt apart (live @ landed))"

lemma apart_sym: "apart a b \<Longrightarrow> apart b a"
  by (cases a; cases b) auto

lemma sorted_wrt_apart_perm:
  assumes "mset xs = mset ys" shows "sorted_wrt apart xs = sorted_wrt apart ys"
proof -
  have *: "sorted_wrt apart ys"
    if "mset xs = mset ys" "sorted_wrt apart xs" for xs ys
    using that
  proof (induction xs arbitrary: ys)
    case Nil
    then show ?case by simp
  next
    case (Cons x xs)
    from Cons.prems(1) have "x \<in> set ys" by (metis list.set_intros(1) set_mset_mset)
    then obtain us vs where ys: "ys = us @ x # vs" by (meson split_list)
    with Cons.prems(1) have m: "mset xs = mset (us @ vs)" by simp
    then have "sorted_wrt apart (us @ vs)" using Cons by simp
    moreover have "\<forall>y \<in> set (us @ vs). apart x y"
      using Cons.prems(2) m by (metis set_mset_mset sorted_wrt.simps(2))
    ultimately show ?case using ys by (auto simp: sorted_wrt_append dest: apart_sym)
  qed
  show ?thesis using * assms by metis
qed

lemma reserve_claim:
  assumes "reserve_space n s = (Ok (off, new, prev), t)" and "cap_ok (fs_max_data_file_size s)"
    and "0 < n"
  shows "t = s\<lparr>data_highwater := new\<rparr>" "prev = data_highwater s" "claim_ok new (off, new, prev)"
    "data_highwater s \<le> new"
proof -
  have "t = s\<lparr>data_highwater := new\<rparr> \<and> prev = data_highwater s \<and> unat new = unat off + unat n \<and>
      unat (data_highwater s) \<le> unat off"
    using assms(1,2) by (cases rule: reserve_space_cases) auto
  moreover have "0 < unat n" using assms(3) by (simp add: unat_gt_0 word_gt_0)
  ultimately show "t = s\<lparr>data_highwater := new\<rparr>" "prev = data_highwater s"
    "claim_ok new (off, new, prev)" "data_highwater s \<le> new"
    by (simp_all add: word_le_nat_alt word_less_nat_alt)
qed

lemma claim_ok_mono: "claim_ok hw r \<Longrightarrow> hw \<le> hw' \<Longrightarrow> claim_ok hw' r"
  by (cases r) auto

lemma alloc_inv_step:
  assumes "alloc_step c d" and "alloc_inv c" shows "alloc_inv d"
  using assms
proof (induction rule: alloc_step.induct)
  case (reserve n s r t live landed)
  obtain off new prev where r: "r = (off, new, prev)" by (cases r)
  note c = reserve_claim [OF reserve.hyps(1) [unfolded r] _ reserve.hyps(2)]
  have inv: "cap_ok (fs_max_data_file_size s)" "sorted_wrt apart (live @ landed)"
    "\<And>q. q \<in> set (live @ landed) \<Longrightarrow> claim_ok (data_highwater s) q"
    using reserve.prems by (auto simp: alloc_inv_def)
  note c = c [OF inv(1)]
  have "apart r q" if "q \<in> set (live @ landed)" for q
    using inv(3) [OF that] c(2) r by (cases q) auto
  moreover have "claim_ok new q" if "q \<in> set (live @ landed)" for q
    using claim_ok_mono [OF inv(3) [OF that] c(4)] .
  ultimately show ?case
    using c(1,3) inv(1,2) r by (auto simp: alloc_inv_def)
next
  case (land r live s landed)
  have "mset (remove1 r live @ r # landed) = mset (live @ landed)"
    using land.hyps by simp
  note sorted_wrt_apart_perm [OF this] mset_eq_setD [OF this]
  then show ?case using land.prems unfolding alloc_inv_def prod.case by metis
next
  case (release off new prev live s landed)
  let ?r = "(off, new, prev)"
  let ?rest = "remove1 ?r live @ landed"
  have "mset (live @ landed) = mset (?r # ?rest)" using release.hyps by simp
  then have srt: "sorted_wrt apart (?r # ?rest)"
    using release.prems sorted_wrt_apart_perm unfolding alloc_inv_def by fastforce
  have ok: "claim_ok (data_highwater s) q" if "q \<in> set ?rest \<or> q = ?r" for q
    using that release.prems release.hyps set_remove1_subset [of ?r live]
    by (auto simp: alloc_inv_def)
  show ?case
  proof (cases "data_highwater s = new")
    case True
    have "claim_ok prev q" if "q \<in> set ?rest" for q
    proof -
      obtain o' n' p' where q: "q = (o', n', p')" by (cases q)
      have "apart ?r q" using srt that by auto
      then have "new \<le> p' \<or> n' \<le> prev" using q by simp
      moreover have "claim_ok new q" using ok that True by blast
      then have "p' \<le> o'" "o' < n'" "n' \<le> new" using q by simp_all
      ultimately show ?thesis using q by auto
    qed
    then show ?thesis
      using release.prems True srt by (auto simp: alloc_inv_def release_reservation_def)
  next
    case False
    then show ?thesis
      using release.prems ok srt by (auto simp: alloc_inv_def release_reservation_def)
  qed
qed

lemma alloc_inv_reachable: "alloc_step\<^sup>*\<^sup>* c d \<Longrightarrow> alloc_inv c \<Longrightarrow> alloc_inv d"
  by (induction rule: rtranclp_induct) (auto intro: alloc_inv_step)

text \<open>A store with files of 100 bytes whose high-water mark is \<open>hw\<close>.\<close>

definition one_mark_store :: "u64 \<Rightarrow> store" where
  "one_mark_store hw = (empty_store (Some 100) 1 Async 4)\<lparr>data_highwater := hw\<rparr>"

section \<open>Claims\<close>

text \<open>
  C8: a reservation that succeeds hands out the high-water mark, or the start of the next data
  file exactly when the block does not fit into the rest of the current one; the block lies
  within one file, and the mark moves to its end. A reservation that fails changes nothing and
  none panics.
\<close>

theorem reserve_space_correct:
  assumes "cap_ok (fs_max_data_file_size s)"
  shows "case reserve_space n s of
      (Ok (off, new, prev), t) \<Rightarrow>
        prev = data_highwater s \<and> t = s\<lparr>data_highwater := new\<rparr> \<and>
        unat off = place_for (fs_max_data_file_size s) (unat prev) (unat n) \<and>
        unat new = unat off + unat n \<and> prev \<le> off \<and> unsplit s off (unat n)
    | (Err e, t) \<Rightarrow> t = s
    | (Panic m, t) \<Rightarrow> False"
proof -
  obtain r t where r: "reserve_space n s = (r, t)" by fastforce
  from r assms show ?thesis
  proof (cases rule: reserve_space_cases)
    case (ok off new)
    then show ?thesis
      using r reserve_space_place [of n s off new "data_highwater s" t] assms
      by (simp add: word_le_nat_alt)
  qed (use r in simp)
qed

theorem reserve_space_correct_witness:
  "case reserve_space 60 (one_mark_store 90) of
      (Ok (off, new, prev), t) \<Rightarrow>
        prev = data_highwater (one_mark_store 90) \<and>
        t = (one_mark_store 90)\<lparr>data_highwater := new\<rparr> \<and>
        unat off = place_for (fs_max_data_file_size (one_mark_store 90)) (unat prev) (unat (60 :: u64)) \<and>
        unat new = unat off + unat (60 :: u64) \<and> prev \<le> off \<and>
        unsplit (one_mark_store 90) off (unat (60 :: u64))
    | (Err e, t) \<Rightarrow> t = one_mark_store 90
    | (Panic m, t) \<Rightarrow> False"
  by (rule reserve_space_correct) (simp add: one_mark_store_def cap_ok_def)

text \<open>
  However the reservations, landings and releases of any number of writers interleave, the
  blocks that landed never overlap, and the high-water mark stays above all of them: giving a
  reservation back can rewind the mark only over bytes nobody else holds.
\<close>

theorem landed_blocks_disjoint:
  assumes "alloc_step\<^sup>*\<^sup>* (s, [], []) (t, live, landed)" and "cap_ok (fs_max_data_file_size s)"
  shows "sorted_wrt (\<lambda>(off, new, prev) (off', new', prev'). new \<le> off' \<or> new' \<le> off) (live @ landed)
    \<and> list_all (\<lambda>(off, new, prev). off < new \<and> new \<le> data_highwater t) (live @ landed)"
proof -
  have "alloc_inv (s, [], [])" using assms(2) by (simp add: alloc_inv_def)
  with assms(1) have inv: "alloc_inv (t, live, landed)" by (rule alloc_inv_reachable)
  then have ok: "\<forall>r \<in> set (live @ landed). claim_ok (data_highwater t) r"
    and srt: "sorted_wrt apart (live @ landed)" by (auto simp: alloc_inv_def)
  have "sorted_wrt (\<lambda>(off, new, prev) (off', new', prev'). new \<le> off' \<or> new' \<le> off) (live @ landed)"
    by (rule sorted_wrt_mono_rel [OF _ srt]) (use ok in \<open>force\<close>)
  moreover have "list_all (\<lambda>(off, new, prev). off < new \<and> new \<le> data_highwater t) (live @ landed)"
    unfolding list_all_iff using ok by force
  ultimately show ?thesis ..
qed

lemma two_writers_run:
  "alloc_step\<^sup>*\<^sup>* (one_mark_store 0, [], []) (one_mark_store 160, [], [(100, 160, 60)])"
proof -
  have a: "reserve_space 60 (one_mark_store 0) = (Ok (0, 60, 0), one_mark_store 60)"
    "reserve_space 60 (one_mark_store 60) = (Ok (100, 160, 60), one_mark_store 160)"
    by code_simp+
  have s1: "alloc_step (one_mark_store 0, [], []) (one_mark_store 60, [(0, 60, 0)], [])"
    by (rule reserve [OF a(1)]) simp
  have s2: "alloc_step (one_mark_store 60, [(0, 60, 0)], [])
      (one_mark_store 160, [(100, 160, 60), (0, 60, 0)], [])"
    by (rule reserve [OF a(2)]) simp
  have s3: "alloc_step (one_mark_store 160, [(100, 160, 60), (0, 60, 0)], [])
      (one_mark_store 160, [(0, 60, 0)], [(100, 160, 60)])"
    using land [of "(100, 160, 60)" "[(100, 160, 60), (0, 60, 0)]" "one_mark_store 160" "[]"] by simp
  have s4: "alloc_step (one_mark_store 160, [(0, 60, 0)], [(100, 160, 60)])
      (one_mark_store 160, [], [(100, 160, 60)])"
    using release [of 0 60 0 "[(0, 60, 0)]" "one_mark_store 160" "[(100, 160, 60)]"]
    by (simp add: release_reservation_def one_mark_store_def)
  show ?thesis
    by (rule converse_rtranclp_into_rtranclp, rule s1, rule converse_rtranclp_into_rtranclp, rule s2,
        rule converse_rtranclp_into_rtranclp, rule s3, rule r_into_rtranclp, rule s4)
qed

theorem landed_blocks_disjoint_witness:
  "sorted_wrt (\<lambda>(off, new, prev) (off', new', prev'). new \<le> off' \<or> new' \<le> off)
      ([] @ [(100 :: u64, 160 :: u64, 60 :: u64)])
    \<and> list_all (\<lambda>(off, new, prev). off < new \<and> new \<le> data_highwater (one_mark_store 160))
      ([] @ [(100 :: u64, 160 :: u64, 60 :: u64)])"
  by (rule landed_blocks_disjoint [OF two_writers_run]) (simp add: one_mark_store_def cap_ok_def)

end
