(* ===== verification/Recovery.thy ===== *)
theory Recovery
  imports WriteRead
begin

text \<open>
  Opening a store: the creation of a fresh one, the recovery of an existing one (the scan of
  the blocks behind the last checkpoint through a read-ahead window, the scan of the index for
  the contiguity floor), and what \<open>Drop\<close> does at the end.
\<close>

section \<open>The read-ahead window\<close>

record scan_window =
  sw_file_idx :: "u32 option"
  sw_start :: u64
  sw_len :: nat
  sw_buf :: bytes

definition DEFAULT_BYTES :: nat where
  "DEFAULT_BYTES = 2 ^ 20"

definition new_window :: scan_window where
  "new_window =
     \<lparr>sw_file_idx = None, sw_start = 0, sw_len = 0, sw_buf = replicate DEFAULT_BYTES 0\<rparr>"

definition short_read :: "('s, 'a) io" where
  "short_read = fail UnexpectedEof ''recovery: read past end of data file''"

text \<open>
  \<open>ScanWindow::read\<close>, with the refill of its \<open>if !resident\<close> branch apart. It returns the bytes
  and the window afterwards; a read that fails ends the scan, and the window with it.
\<close>

definition window_refill ::
  "scan_window \<Rightarrow> file_id \<Rightarrow> u32 \<Rightarrow> u64 \<Rightarrow> nat \<Rightarrow> u64 \<Rightarrow> ('z world_scheme, scan_window) io" where
  "window_refill w f file_idx local_offset len file_size =
     (let buf = (if length (sw_buf w) < len
                 then sw_buf w @ replicate (len - length (sw_buf w)) 0
                 else sw_buf w);
          want = unat (min (saturating_sub file_size local_offset) (u64_of_len (length buf)))
      in if length buf < want then short_read
         else
           io_bind (read_exact_at f want local_offset) (\<lambda>bs.
           ret \<lparr>sw_file_idx = Some file_idx, sw_start = local_offset,
                sw_len = want, sw_buf = fill_buf buf bs\<rparr>))"

definition window_read ::
  "scan_window \<Rightarrow> file_id \<Rightarrow> u32 \<Rightarrow> u64 \<Rightarrow> nat \<Rightarrow> u64 \<Rightarrow>
     ('z world_scheme, bytes \<times> scan_window) io" where
  "window_read w f file_idx local_offset len file_size =
     io_bind (ok_or (checked_add local_offset (u64_of_len len))
                InvalidData ''recovery: read offset overflow'') (\<lambda>end_offset.
     if file_size < end_offset then short_read
     else
       (let resident = sw_file_idx w = Some file_idx \<and> sw_start w \<le> local_offset \<and>
              end_offset \<le> saturating_add (sw_start w) (u64_of_len (sw_len w))
        in
          io_bind
            (if resident then ret w
             else window_refill w f file_idx local_offset len file_size) (\<lambda>w'.
          let start = unat (saturating_sub local_offset (sw_start w'))
          in if start + len \<le> length (sw_buf w')
             then ret (take len (drop start (sw_buf w')), w')
             else short_read)))"

section \<open>The scan for blocks behind the checkpoint\<close>

definition set_next_write_offset :: "u64 \<Rightarrow> 'z store_scheme \<Rightarrow> 'z store_scheme" where
  "set_next_write_offset off s = s\<lparr>header := (header s)\<lparr>ih_next_write_offset := off\<rparr>\<rparr>"

definition checkpoint_recovery_progress :: "('z store_scheme, unit) io" where
  "checkpoint_recovery_progress =
     io_bind (sync_all IndexFile) (\<lambda>_.
     io_bind (modify (\<lambda>s. s\<lparr>header := (header s)\<lparr>ih_max_height := height_highwater s\<rparr>\<rparr>)) (\<lambda>_.
     io_bind (gets header) (\<lambda>hdr.
     io_bind (write_all_at IndexFile (encode_header hdr) 0) (\<lambda>_.
     modify (\<lambda>s. s\<lparr>last_checkpoint_offset := ih_next_write_offset (header s)\<rparr>)))))"

text \<open>What the scan does with a block it has validated.\<close>

definition index_recovered_block ::
  "u64 \<Rightarrow> u64 \<Rightarrow> u32 \<Rightarrow> u64 \<Rightarrow> ('z store_scheme, u64) io" where
  "index_recovered_block scan height sz last_progress =
     io_bind (update_index_if_changed height \<lparr>ie_offset = scan, ie_size = sz, ie_reserved = 0\<rparr>) (\<lambda>_.
     io_bind (update_highwater height) (\<lambda>_.
     io_bind (modify (\<lambda>s. s\<lparr>max_contiguous_height := max (max_contiguous_height s) height\<rparr>)) (\<lambda>_.
     io_bind (ok_or (Option.bind (checked_add scan (u64_of_len SERIALIZED_SIZE))
                      (\<lambda>p. checked_add p (ucast sz)))
                InvalidData
                (''recovery: next write offset overflow after block at global offset '' @
                 dec (unat scan) @ '' (size='' @ dec (unat sz) @ '')'')) (\<lambda>next.
     io_bind (modify (set_next_write_offset next)) (\<lambda>_.
     if CHECKPOINT_BYTES \<le> saturating_sub next last_progress
     then io_bind checkpoint_recovery_progress (\<lambda>_. ret next)
     else ret last_progress)))))"

text \<open>
  One turn of the loop of \<open>recover_unindexed_blocks\<close>: \<open>None\<close> is \<open>break\<close>; otherwise the progress
  mark and the window for the next turn. \<open>recover_block\<close> is the part of the turn that looks at
  a block whose header fits its file.
\<close>

definition recover_block ::
  "libs \<Rightarrow> u64 \<Rightarrow> u64 \<Rightarrow> u32 \<Rightarrow> u64 \<Rightarrow> u64 \<Rightarrow> u64 \<Rightarrow> u64 \<Rightarrow> scan_window \<Rightarrow>
     ('z store_scheme, (u64 \<times> scan_window) option) io" where
  "recover_block L scan min_height file_idx local_offset header_end file_size last_progress window =
     io_bind (get_or_open file_idx) (\<lambda>data_file.
     io_bind (window_read window (hfile data_file) file_idx local_offset
                SERIALIZED_SIZE file_size) (\<lambda>(header_bytes, window).
     io_bind (deserialize header_bytes) (\<lambda>hdr.
     if bh_height hdr < min_height \<or> bh_size hdr = 0 \<or>
        MAX_BLOCK_SIZE < bh_size hdr \<or> bh_version hdr \<noteq> BLOCK_ENTRY_VERSION
     then ret None
     else
       io_bind (ok_or (checked_add header_end (ucast (bh_size hdr)))
                  InvalidData
                  (''recovery: block end overflow at file '' @ dec (unat file_idx) @ '' local offset '' @
                   dec (unat local_offset) @ '' (size='' @ dec (unat (bh_size hdr)) @ '')'')) (\<lambda>block_end_local.
       if file_size < block_end_local then ret None
       else
         io_bind (window_read window (hfile data_file) file_idx header_end
                    (unat (bh_size hdr)) file_size) (\<lambda>(compressed_block, window).
         case decompress L compressed_block of
           Err e \<Rightarrow> ret None
         | Panic m \<Rightarrow> panic m
         | Ok block \<Rightarrow>
             if xxh64 L block 0 \<noteq> bh_checksum hdr then ret None
             else
               io_bind (index_recovered_block scan (bh_height hdr) (bh_size hdr) last_progress)
                 (\<lambda>last_progress. ret (Some (last_progress, window))))))))"

definition recover_step ::
  "libs \<Rightarrow> u64 \<Rightarrow> (u32, u64) RBT.rbt \<Rightarrow> u64 \<Rightarrow> scan_window \<Rightarrow>
     ('z store_scheme, (u64 \<times> scan_window) option) io" where
  "recover_step L end_offset data_files last_progress window =
     io_bind (gets (\<lambda>s. (ih_next_write_offset (header s), ih_min_height (header s),
                         fs_max_data_file_size s))) (\<lambda>(scan, min_height, cap).
     if end_offset \<le> scan then ret None
     else if cap = Some 0 then panic ''cap is non-zero''
     else
       (let (file_idx, local_offset) = split_offset cap scan;
            header_end = saturating_add local_offset (u64_of_len SERIALIZED_SIZE)
        in case RBT.lookup data_files file_idx of
             None \<Rightarrow> ret None
           | Some file_size \<Rightarrow>
               if file_size < header_end then
                 (case cap of
                    None \<Rightarrow> ret None
                  | Some c \<Rightarrow>
                      io_bind (advance_to_next_file file_idx c) (\<lambda>off.
                      io_bind (modify (set_next_write_offset off)) (\<lambda>_.
                      ret (Some (last_progress, window)))))
               else recover_block L scan min_height file_idx local_offset header_end file_size
                      last_progress window))"

text \<open>The loop ends because a turn that continues has raised \<open>next_write_offset\<close>.\<close>

definition scan_left :: "'z store_scheme \<Rightarrow> nat" where
  "scan_left s = 2 ^ 64 - unat (ih_next_write_offset (header s))"

lemma set_next_write_offset_simps [simp]:
  "ih_next_write_offset (header (set_next_write_offset off s)) = off"
  "ih_min_height (header (set_next_write_offset off s)) = ih_min_height (header s)"
  by (simp_all add: set_next_write_offset_def)

lemma preserves_sync_all:
  fixes P :: "'z store_scheme \<Rightarrow> bool"
  assumes "\<And>s fs l. P s \<Longrightarrow> P (s\<lparr>faults := fs, io_log := l\<rparr>)"
  shows "preserves P (sync_all f)"
proof (rule preservesI)
  fix s assume "P s"
  obtain r t where "sync_all f s = (r, t)" by fastforce
  moreover from this obtain fs l where "t = s\<lparr>faults := fs, io_log := l\<rparr>" by (rule sync_all_cases)
  ultimately show "P (snd (sync_all f s))" using assms \<open>P s\<close> by simp
qed

lemma preserves_write_all_at:
  fixes P :: "'z store_scheme \<Rightarrow> bool"
  assumes "\<And>s fs k. P s \<Longrightarrow> P (log_write f (unat off) (take k bs) (s\<lparr>faults := fs\<rparr>))"
  shows "preserves P (write_all_at f bs off)"
proof (rule preservesI)
  fix s assume "P s"
  obtain r t where "write_all_at f bs off s = (r, t)" by fastforce
  moreover from this obtain k fs where "t = log_write f (unat off) (take k bs) (s\<lparr>faults := fs\<rparr>)"
    by (rule write_all_at_cases) blast
  ultimately show "P (snd (write_all_at f bs off s))" using assms \<open>P s\<close> by simp
qed

lemma checkpoint_recovery_progress_next:
  assumes "checkpoint_recovery_progress s = (r, t)"
  shows "ih_next_write_offset (header t) = ih_next_write_offset (header s)"
proof -
  have "preserves (\<lambda>u. ih_next_write_offset (header u) = ih_next_write_offset (header s))
      checkpoint_recovery_progress"
    unfolding checkpoint_recovery_progress_def
    by (intro pres preserves_sync_all preserves_write_all_at) simp_all
  then show ?thesis using assms preservesD by fastforce
qed

lemma index_recovered_block_next:
  assumes "index_recovered_block scan h sz last_progress s = (Ok l, t)"
  shows "unat (ih_next_write_offset (header t)) = unat scan + 22 + unat sz"
proof -
  from assms obtain nx u where
    n: "Option.bind (checked_add scan (u64_of_len SERIALIZED_SIZE)) (\<lambda>p. checked_add p (ucast sz)) = Some nx"
    and t: "(if CHECKPOINT_BYTES \<le> saturating_sub nx last_progress
       then io_bind checkpoint_recovery_progress (\<lambda>_. ret nx) else ret last_progress)
         (set_next_write_offset nx u) = (Ok l, t)"
    by (auto simp: index_recovered_block_def io_bind_Ok_iff ok_or_Ok_iff io_simps)
  have "ih_next_write_offset (header t) = nx"
    using t by (auto simp: io_bind_Ok_iff io_simps split: if_splits dest: checkpoint_recovery_progress_next)
  moreover have "unat nx = unat scan + 22 + unat sz"
    using n by (auto simp: bind_eq_Some_conv checked unat_SERIALIZED unat_ucast_up_64)
  ultimately show ?thesis by simp
qed

text \<open>A turn that continues has skipped to the next file or indexed a block.\<close>

lemma decoded_Ok_iff:
  "(case r of Ok b \<Rightarrow> f b | Err e \<Rightarrow> ret None | Panic m \<Rightarrow> panic m) s = (Ok (Some x), t) \<longleftrightarrow>
     (\<exists>b. r = Ok b \<and> f b s = (Ok (Some x), t))"
  by (cases r) (simp_all add: io_simps)

lemma recover_block_continues:
  assumes "recover_block L scan mh i local he fsize l w s = (Ok (Some x), t)"
  obtains u h sz l' where "index_recovered_block scan h sz l u = (Ok l', t)" "sz \<noteq> 0"
  using assms
  by (auto simp: recover_block_def io_bind_Ok_iff io_simps decoded_Ok_iff split: if_split_asm)

lemma recover_step_continues:
  assumes "recover_step L e files l w s = (Ok (Some x), t)"
  obtains (skip) c i local off where "fs_max_data_file_size s = Some c" "c \<noteq> 0"
      "split_offset (Some c) (ih_next_write_offset (header s)) = (i, local)"
      "advance_to_next_file i c s = (Ok off, s)" "t = set_next_write_offset off s" "x = (l, w)"
    | (block) u h sz l' where
      "index_recovered_block (ih_next_write_offset (header s)) h sz l u = (Ok l', t)" "sz \<noteq> 0"
proof -
  obtain i local where sp:
    "split_offset (fs_max_data_file_size s) (ih_next_write_offset (header s)) = (i, local)"
    by fastforce
  from assms sp obtain fsize where f: "RBT.lookup files i = Some fsize"
    by (auto simp: recover_step_def io_simps Let_def split: if_splits option.splits)
  let ?he = "saturating_add local (u64_of_len SERIALIZED_SIZE)"
  show ?thesis
  proof (cases "fsize < ?he")
    case True
    with assms sp f obtain c where c: "fs_max_data_file_size s = Some c" "c \<noteq> 0"
      by (cases "fs_max_data_file_size s") (auto simp: recover_step_def io_simps Let_def split: if_splits)
    obtain r v where adv: "advance_to_next_file i c s = (r, v)" by fastforce
    then show ?thesis
    proof (cases rule: advance_to_next_file_cases)
      case (ok off)
      then show ?thesis
        using assms sp f True c adv
        by (intro skip [of c i local off])
           (auto simp: recover_step_def io_simps Let_def io_bind_def split: if_splits)
    next
      case (failed err)
      then show ?thesis
        using assms sp f True c adv
        by (auto simp: recover_step_def io_simps Let_def io_bind_def split: if_splits)
    qed
  next
    case False
    then have "recover_block L (ih_next_write_offset (header s)) (ih_min_height (header s)) i local
        ?he fsize l w s = (Ok (Some x), t)"
      using assms sp f by (auto simp: recover_step_def io_simps Let_def split: if_splits)
    then show ?thesis by (rule recover_block_continues) (rule block)
  qed
qed

lemma recover_step_progress:
  assumes "recover_step L e files l w s = (Ok (Some x), t)"
  shows "ih_next_write_offset (header s) < ih_next_write_offset (header t)"
  using assms
proof (cases rule: recover_step_continues)
  case (skip c i local off)
  let ?p = "ih_next_write_offset (header s)"
  have c: "0 < unat c" using skip(2) by (simp add: unat_gt_0)
  from skip(4) have off: "unat i + 1 < 2 ^ 32" "unat off = (unat i + 1) * unat c"
    by (auto elim: advance_to_next_file_cases)
  have "unat i = unat ?p div unat c"
  proof (cases "unat ?p div unat c < 2 ^ 32")
    case True
    then show ?thesis using skip(3) unat_split_offset(1) by blast
  next
    case False
    then have "u32_of_u64 (?p div c) = None" by (simp add: u32_of_u64_None unat_div_distrib)
    then have "i = u32_max" using skip(3) by (simp add: split_offset_def Let_def)
    then show ?thesis using off(1) using unat_max_word [where 'a = 32] by simp
  qed
  then have "unat ?p < unat off"
    using off(2) dividend_less_div_times [OF c, of "unat ?p"] by (simp add: mult.commute)
  then show ?thesis using skip(5) by (simp add: word_less_nat_alt)
next
  case (block u h sz l')
  then show ?thesis
    using index_recovered_block_next [OF block(1)] by (simp add: word_less_nat_alt)
qed

lemma scan_left_decreases:
  assumes "recover_step L e files l w s = (Ok (Some x), t)"
  shows "scan_left t < scan_left s"
proof -
  have "unat (ih_next_write_offset (header s)) < unat (ih_next_write_offset (header t))"
    using recover_step_progress [OF assms] by (simp add: word_less_nat_alt)
  then show ?thesis
    using unat_lt_64 [of "ih_next_write_offset (header t)"] by (simp add: scan_left_def)
qed

function recover_loop ::
  "libs \<Rightarrow> u64 \<Rightarrow> (u32, u64) RBT.rbt \<Rightarrow> u64 \<Rightarrow> scan_window \<Rightarrow> 'z store_scheme \<Rightarrow>
     unit res \<times> 'z store_scheme" where
  "recover_loop L end_offset data_files last_progress window s =
     (case recover_step L end_offset data_files last_progress window s of
        (Ok None, t) \<Rightarrow> (Ok (), t)
      | (Ok (Some x), t) \<Rightarrow> recover_loop L end_offset data_files (fst x) (snd x) t
      | (Err e, t) \<Rightarrow> (Err e, t)
      | (Panic m, t) \<Rightarrow> (Panic m, t))"
  by pat_completeness auto

termination recover_loop
  by (relation "measure (\<lambda>(L, e, files, l, w, s). scan_left s)")
     (auto intro!: scan_left_decreases dest: sym)

declare recover_loop.simps [simp del]

definition recover_unindexed_blocks ::
  "libs \<Rightarrow> u64 \<Rightarrow> (u32, u64) RBT.rbt \<Rightarrow> ('z store_scheme, unit) io" where
  "recover_unindexed_blocks L end_offset data_files s =
     recover_loop L end_offset data_files (ih_next_write_offset (header s)) new_window s"

section \<open>The scan of the index for the contiguity floor\<close>

text \<open>The rest of the scan: return with a floor, or go on with the next chunk.\<close>

datatype floor_scan = FloorAt u64 | ScanOn u64

definition CHUNK_ENTRIES :: nat where
  "CHUNK_ENTRIES = 4096"

definition CHUNK_BYTES :: nat where
  "CHUNK_BYTES = CHUNK_ENTRIES * entry_size"

definition scan_overflow :: err where
  "scan_overflow = Error InvalidData ''index offset overflow during contiguity scan''"

fun scan_entries :: "u64 \<Rightarrow> u64 \<Rightarrow> nat \<Rightarrow> bytes list \<Rightarrow> u64 \<Rightarrow> floor_scan res" where
  "scan_entries upper_bound cursor i [] last_present = Ok (ScanOn last_present)"
| "scan_entries upper_bound cursor i (entry_bytes # rest) last_present =
     (case checked_add cursor (u64_of_len i) of
        None \<Rightarrow> Err scan_overflow
      | Some height \<Rightarrow>
          if upper_bound < height then Ok (FloorAt last_present)
          else if zero_entry (decode_entry entry_bytes) then Ok (FloorAt last_present)
          else scan_entries upper_bound cursor (Suc i) rest height)"

text \<open>\<open>as_chunks::<16>().0\<close>.\<close>

fun as_chunks :: "bytes \<Rightarrow> bytes list" where
  "as_chunks bs = (if length bs < 16 then [] else take 16 bs # as_chunks (drop 16 bs))"

declare as_chunks.simps [simp del]

definition chunk_offset :: "u64 \<Rightarrow> u64 \<Rightarrow> u64 option" where
  "chunk_offset min_height cursor =
     Option.bind (checked_sub cursor min_height) (\<lambda>relative.
     Option.bind (checked_mul relative (u64_of_len entry_size)) (\<lambda>o'.
     checked_add o' (u64_of_len header_size)))"

function scan_chunks :: "u64 \<Rightarrow> u64 \<Rightarrow> u64 \<Rightarrow> u64 \<Rightarrow> 'z store_scheme \<Rightarrow> u64 res \<times> 'z store_scheme" where
  "scan_chunks min_height upper_bound cursor last_present s =
     (case chunk_offset min_height cursor of
        None \<Rightarrow> (Err scan_overflow, s)
      | Some file_offset \<Rightarrow>
          (case read_at IndexFile CHUNK_BYTES file_offset s of
             (Err e, t) \<Rightarrow> (Err e, t)
           | (Panic m, t) \<Rightarrow> (Panic m, t)
           | (Ok bs, t) \<Rightarrow>
               if bs = [] then (Ok last_present, t)
               else if length bs mod entry_size \<noteq> 0
               then (Err (Error InvalidData ''index file has trailing partial entry''), t)
               else
                 (case scan_entries upper_bound cursor 0 (as_chunks bs) last_present of
                    Err e \<Rightarrow> (Err e, t)
                  | Panic m \<Rightarrow> (Panic m, t)
                  | Ok (FloorAt f) \<Rightarrow> (Ok f, t)
                  | Ok (ScanOn l) \<Rightarrow>
                      (case checked_add cursor (u64_of_len (length bs div entry_size)) of
                         None \<Rightarrow> (Err scan_overflow, t)
                       | Some cursor' \<Rightarrow>
                           if length bs div entry_size < CHUNK_ENTRIES then (Ok l, t)
                           else scan_chunks min_height upper_bound cursor' l t))))"
  by pat_completeness auto

lemma chunk_cursor_grows:
  assumes "read_at IndexFile CHUNK_BYTES off s = (Ok bs, t)" and "bs \<noteq> []"
    and "length bs mod entry_size = 0" and "checked_add cursor (u64_of_len (length bs div entry_size)) = Some c"
  shows "2 ^ 64 - unat c < 2 ^ 64 - unat cursor"
proof -
  have "length bs \<le> CHUNK_BYTES" using assms(1) by (auto elim: read_at_OkE)
  then have n: "length bs div entry_size < 2 ^ 64"
    by (simp add: CHUNK_BYTES_def CHUNK_ENTRIES_def entry_size_def)
  have "length bs div entry_size \<noteq> 0"
  proof
    assume "length bs div entry_size = 0"
    then have "length bs < 16" by (simp add: entry_size_def div_eq_0_iff)
    with assms(2,3) show False by (simp add: entry_size_def)
  qed
  with n assms(4) have "unat cursor < unat c" by (auto simp: checked)
  then show ?thesis using unat_lt_64 [of c] by linarith
qed

termination scan_chunks
proof (relation "measure (\<lambda>(m, u, c, l, s). 2 ^ 64 - unat c)", simp)
qed (auto dest!: sym [of "(_, _)"] chunk_cursor_grows)

declare scan_chunks.simps [simp del]

definition scan_contiguous_floor :: "u64 \<Rightarrow> ('z store_scheme, u64) io" where
  "scan_contiguous_floor resume_floor =
     io_bind (gets (\<lambda>s. (ih_min_height (header s), height_highwater s))) (\<lambda>(min_height, upper_bound).
     let floor_if_empty = saturating_sub min_height 1
     in if upper_bound < min_height then ret floor_if_empty
        else
          (let start_floor = min (max resume_floor floor_if_empty) upper_bound
           in if upper_bound \<le> start_floor then ret start_floor
              else
                io_bind (ok_or (checked_add start_floor 1) InvalidData
                           ''index offset overflow during contiguity scan'') (\<lambda>cursor.
                scan_chunks min_height upper_bound cursor start_floor)))"

section \<open>Recovery\<close>

definition recover :: "libs \<Rightarrow> ('z store_scheme, unit) io" where
  "recover L =
     io_bind list_on_disk (\<lambda>data_files.
     io_bind (gets fs_max_data_file_size) (\<lambda>cap.
     io_bind (validate_layout cap data_files) (\<lambda>calculated.
     io_bind (gets header) (\<lambda>hdr.
     if calculated < ih_next_write_offset hdr
     then fail InvalidData
            (''data files contain '' @ dec (unat calculated) @
             '' bytes but index header claims next_write_offset='' @
             dec (unat (ih_next_write_offset hdr)))
     else
       io_bind (modify (\<lambda>s. s\<lparr>height_highwater := ih_max_height (header s)\<rparr>)) (\<lambda>_.
       io_bind
         (if ih_next_write_offset hdr < calculated
          then recover_unindexed_blocks L calculated data_files
          else ret ()) (\<lambda>_.
       io_bind (gets (\<lambda>s. ih_highest_contiguous (header s))) (\<lambda>resume.
       io_bind (scan_contiguous_floor resume) (\<lambda>contiguous_floor.
       io_bind (modify (\<lambda>s. s\<lparr>max_contiguous_height := contiguous_floor\<rparr>)) (\<lambda>_.
       modify (\<lambda>s. s\<lparr>data_highwater := ih_next_write_offset (header s), recovered := True\<rparr>))))))))))"

section \<open>Opening and closing\<close>

definition index_lock_msg :: string where
  "index_lock_msg = ''unable to acquire advisory lock: store may be open in another process''"

text \<open>The header a truncating open writes.\<close>

definition fresh_header :: "store_options \<Rightarrow> index_file_header" where
  "fresh_header opts =
     (with_lowest_block_height default_header (opt_minimum_height opts))
       \<lparr>ih_max_data_file_size :=
          (case opt_max_data_file_size opts of None \<Rightarrow> u64_max | Some c \<Rightarrow> c)\<rparr>"

text \<open>
  \<open>open\<close> up to the header: the index file is opened (and with \<open>truncate\<close> emptied), then
  locked; old data files are removed and the header written, or the header is read over the
  default one. When a step fails the file is closed again.
\<close>

definition prepare_index :: "store_options \<Rightarrow> ('z world_scheme, handle \<times> index_file_header) io" where
  "prepare_index opts =
     (if opt_max_data_files opts = 0 then fail InvalidInput ''max_data_files must be > 0''
      else
        io_bind (open_file IndexFile (opt_truncate opts) (opt_truncate opts)) (\<lambda>h.
        on_err
          (io_bind (try_lock h index_lock_msg) (\<lambda>_.
           io_bind (if opt_truncate opts then remove_existing_data_files else ret ()) (\<lambda>_.
           if opt_truncate opts
           then io_bind (write_all_at IndexFile (encode_header (fresh_header opts)) 0)
                  (\<lambda>_. ret (h, fresh_header opts))
           else io_bind (read_at IndexFile header_size 0) (\<lambda>bs.
                ret (h, decode_header (fill_buf (encode_header default_header) bs))))))
          (close_fd (fd h))))"

definition effective_max :: "index_file_header \<Rightarrow> u64 option" where
  "effective_max hdr =
     (if ih_max_data_file_size hdr = u64_max then None
      else if ih_max_data_file_size hdr = 0 then None
      else Some (ih_max_data_file_size hdr))"

text \<open>The \<open>Store\<close> value \<open>open\<close> builds over the files it found.\<close>

definition initial_store :: "store_options \<Rightarrow> handle \<Rightarrow> index_file_header \<Rightarrow> world \<Rightarrow> store" where
  "initial_store opts h hdr w =
     \<lparr>idx_file = idx_file w, data_dir = data_dir w, locks = locks w, next_fd = next_fd w,
      faults = faults w, io_log = io_log w,
      fs_max_data_file_size = effective_max hdr, fs_inner = new_inner (opt_max_data_files opts),
      index_file = h, data_highwater = ih_next_write_offset hdr, header = hdr,
      sync = opt_sync opts,
      max_contiguous_height = saturating_sub (opt_minimum_height opts) 1,
      height_highwater = saturating_sub (opt_minimum_height opts) 1,
      last_checkpoint_offset = ih_next_write_offset hdr, recovered = opt_truncate opts\<rparr>"

text \<open>The files a store leaves behind, once its descriptors are closed.\<close>

definition world_of :: "store \<Rightarrow> world" where
  "world_of s =
     (let c = close_handles (index_file s # map snd (handles (fs_inner s))) s
      in \<lparr>idx_file = idx_file c, data_dir = data_dir c, locks = locks c, next_fd = next_fd c,
          faults = faults c, io_log = io_log c\<rparr>)"

text \<open>\<open>Drop for Store\<close>.\<close>

definition drop_store :: "store \<Rightarrow> world" where
  "drop_store s =
     (let s1 = (if sync s = Sync then snd (sync_all IndexFile s) else s);
          s2 = (if \<not> recovered s1 then s1 else snd (checkpoint (data_highwater s1) s1))
      in world_of s2)"

datatype opened = Opened store | Failed err world | Crashed string world

definition open_store :: "libs \<Rightarrow> store_options \<Rightarrow> world \<Rightarrow> opened" where
  "open_store L opts w =
     (case prepare_index opts w of
        (Err e, v) \<Rightarrow> Failed e v
      | (Panic m, v) \<Rightarrow> Crashed m v
      | (Ok (h, hdr), v) \<Rightarrow>
          (let s = initial_store opts h hdr v
           in if opt_truncate opts then Opened s
              else
                (case recover L s of
                   (Ok u, t) \<Rightarrow> Opened t
                 | (Err e, t) \<Rightarrow> Failed e (drop_store t)
                 | (Panic m, t) \<Rightarrow> Crashed m (drop_store t))))"

definition store_new ::
  "libs \<Rightarrow> nat \<Rightarrow> bool \<Rightarrow> sync_mode \<Rightarrow> u64 \<Rightarrow> world \<Rightarrow> opened" where
  "store_new L cache_size trunc mode minimum_height =
     open_store L (default_options
       \<lparr>opt_cache_size := cache_size, opt_truncate := trunc, opt_sync := mode,
        opt_minimum_height := minimum_height\<rparr>)"

end
