(* ===== verification/RecoveryScan.thy ===== *)
theory RecoveryScan
  imports Recovery
begin

text \<open>
  What the recovery scan does: the read-ahead window returns the bytes of the file, a turn of
  the loop indexes the block at the scan position, and over a chain of blocks the loop replays
  them in order into the index.
\<close>

section \<open>The window holds bytes of the file\<close>

definition window_ok :: "'z world_scheme \<Rightarrow> scan_window \<Rightarrow> bool" where
  "window_ok s w \<longleftrightarrow>
     length (sw_buf w) \<le> 2 ^ 32 \<and> sw_len w \<le> length (sw_buf w) \<and>
     (\<forall>i. sw_file_idx w = Some i \<longrightarrow>
        take (sw_len w) (sw_buf w) = pread (bytes_of s (path_for i)) (unat (sw_start w)) (sw_len w))"

lemma window_ok_new [simp]: "window_ok s new_window"
  by (simp add: window_ok_def new_window_def DEFAULT_BYTES_def)

lemma window_ok_cong:
  "(\<And>i. bytes_of t (path_for i) = bytes_of s (path_for i)) \<Longrightarrow> window_ok t w = window_ok s w"
  by (simp add: window_ok_def)

lemma saturating_add_le: "unat (saturating_add a (b :: u64)) \<le> unat a + unat b"
  by (simp only: unat_saturating_add)

lemma pread_take_drop:
  "k + n \<le> m \<Longrightarrow> pread f (o' + k) n = take n (drop k (pread f o' m))"
  by (simp add: pread_def drop_take take_take add.commute min_def)

text \<open>A refill leaves a window that starts at the offset asked for and is long enough.\<close>

lemma unat_want:
  assumes "length buf \<le> 2 ^ 32"
  shows "unat (min (saturating_sub fsize local) (u64_of_len (length buf))) =
    min (unat fsize - unat local) (length buf)"
proof -
  have b: "unat (u64_of_len (length buf)) = length buf" using assms by simp
  have s: "unat (saturating_sub fsize local) = unat fsize - unat local"
    by (rule unat_saturating_sub)
  show ?thesis
  proof (cases "saturating_sub fsize local \<le> u64_of_len (length buf)")
    case True
    then show ?thesis using b s by (simp add: min_def word_le_nat_alt)
  next
    case False
    then show ?thesis using b s by (simp add: min_def word_le_nat_alt)
  qed
qed

definition grown :: "scan_window \<Rightarrow> nat \<Rightarrow> bytes" where
  "grown w len =
     (if length (sw_buf w) < len then sw_buf w @ replicate (len - length (sw_buf w)) 0 else sw_buf w)"

lemma length_grown: "length (grown w len) = max (length (sw_buf w)) len"
  by (auto simp: grown_def)

lemma window_refill_eq:
  assumes "window_ok s w" and "len \<le> 2 ^ 32"
  shows "window_refill w f i local len fsize =
    (let want = min (unat fsize - unat local) (length (grown w len))
     in io_bind (read_exact_at f want local) (\<lambda>bs.
        ret \<lparr>sw_file_idx = Some i, sw_start = local, sw_len = want,
             sw_buf = fill_buf (grown w len) bs\<rparr>))"
proof -
  have "length (grown w len) \<le> 2 ^ 32" using assms by (simp add: length_grown window_ok_def)
  from unat_want [OF this] show ?thesis
    by (simp add: window_refill_def grown_def [symmetric] Let_def)
qed

lemma window_refill_Ok:
  assumes ok: "window_ok s w" and len: "len \<le> 2 ^ 32"
    and r: "window_refill w (path_for i) i local len fsize s = (Ok w', t)"
    and fits: "unat local + len \<le> unat fsize"
  shows "window_ok s w'" and "sw_start w' = local" and "len \<le> sw_len w'" and "sw_file_idx w' = Some i"
    and "\<exists>fs. t = s\<lparr>faults := fs\<rparr>"
proof -
  let ?want = "min (unat fsize - unat local) (length (grown w len))"
  from r obtain bs where rd: "read_exact_at (path_for i) ?want local s = (Ok bs, t)" and
    w': "w' = \<lparr>sw_file_idx = Some i, sw_start = local, sw_len = ?want, sw_buf = fill_buf (grown w len) bs\<rparr>"
    by (auto simp: window_refill_eq [OF ok len] Let_def io_bind_Ok_iff io_simps)
  from rd obtain fs where fs: "t = s\<lparr>faults := fs\<rparr>" "bs = pread (bytes_of s (path_for i)) (unat local) ?want"
    "length bs = ?want" by (rule read_exact_at_OkE)
  have lg: "length (grown w len) \<le> 2 ^ 32" "len \<le> length (grown w len)"
    using ok len by (simp_all add: length_grown window_ok_def)
  have lf: "length (fill_buf (grown w len) bs) = length (grown w len)"
    using fs(3) by (simp del: fs(2))
  have tk: "take ?want (fill_buf (grown w len) bs) = bs" using fs(3) by (simp add: fill_buf_def)
  show "window_ok s w'" using lg lf tk fs(2) unfolding window_ok_def w' by simp
  show "sw_start w' = local" "sw_file_idx w' = Some i" by (simp_all add: w')
  show "len \<le> sw_len w'" using fits lg(2) by (simp add: w')
  show "\<exists>fs. t = s\<lparr>faults := fs\<rparr>" using fs(1) by blast
qed

text \<open>Whatever fails, a read through the window that returns \<open>Ok\<close> returns bytes of the file.\<close>

lemma window_bytes:
  assumes ok: "window_ok s w" and "sw_file_idx w = Some i" and "sw_start w \<le> local"
    and "unat local + len \<le> unat (sw_start w) + sw_len w"
  shows "take len (drop (unat (saturating_sub local (sw_start w))) (sw_buf w)) =
      pread (bytes_of s (path_for i)) (unat local) len"
    and "unat (saturating_sub local (sw_start w)) + len \<le> length (sw_buf w)"
proof -
  let ?k = "unat local - unat (sw_start w)"
  have k: "unat (saturating_sub local (sw_start w)) = ?k" by (rule unat_saturating_sub)
  have le: "unat (sw_start w) \<le> unat local" using assms(3) by (simp add: word_le_nat_alt)
  then have kl: "?k + len \<le> sw_len w" using assms(4) by linarith
  have "take len (drop ?k (sw_buf w)) = take len (drop ?k (take (sw_len w) (sw_buf w)))"
    using kl by (simp add: drop_take min_def)
  also have "\<dots> = pread (bytes_of s (path_for i)) (unat (sw_start w) + ?k) len"
    using ok assms(2) kl by (simp add: window_ok_def pread_take_drop)
  finally show "take len (drop (unat (saturating_sub local (sw_start w))) (sw_buf w)) =
      pread (bytes_of s (path_for i)) (unat local) len" using k le by simp
  show "unat (saturating_sub local (sw_start w)) + len \<le> length (sw_buf w)"
    using k kl ok by (simp add: window_ok_def)
qed

lemma window_read_Ok:
  assumes ok: "window_ok s w" and len: "len \<le> 2 ^ 32"
    and r: "window_read w (path_for i) i local len fsize s = (Ok (bs, w'), t)"
  shows "bs = pread (bytes_of s (path_for i)) (unat local) len" and "window_ok s w'"
    and "\<exists>fs. t = s\<lparr>faults := fs\<rparr>"
proof -
  from r obtain e where e: "checked_add local (u64_of_len len) = Some e" "\<not> fsize < e"
    by (auto simp: window_read_def io_bind_Ok_iff ok_or_Ok_iff short_read_def io_simps split: if_splits)
  then have ee: "unat e = unat local + len" using len by (auto simp: checked)
  then have fits: "unat local + len \<le> unat fsize" using e(2) by (simp add: word_less_nat_alt)
  let ?res = "sw_file_idx w = Some i \<and> sw_start w \<le> local \<and>
      e \<le> saturating_add (sw_start w) (u64_of_len (sw_len w))"
  have main: "bs = take len (drop (unat (saturating_sub local (sw_start w'))) (sw_buf w'))"
    and fill: "(if ?res then ret w else window_refill w (path_for i) i local len fsize) s = (Ok w', t)"
    using r e by (auto simp: window_read_def io_bind_Ok_iff io_simps Let_def short_read_def
        split: if_split_asm)
  have "window_ok s w' \<and> sw_file_idx w' = Some i \<and> sw_start w' \<le> local \<and>
      unat local + len \<le> unat (sw_start w') + sw_len w' \<and> (\<exists>fs. t = s\<lparr>faults := fs\<rparr>)"
  proof (cases ?res)
    case True
    then have w: "w' = w" "t = s" using fill by (simp_all add: io_simps)
    have "sw_len w < 2 ^ 64" using ok by (simp add: window_ok_def)
    then have "unat local + len \<le> unat (sw_start w) + sw_len w"
      using True ee saturating_add_le [of "sw_start w" "u64_of_len (sw_len w)"]
      by (simp add: word_le_nat_alt)
    moreover have "t = s\<lparr>faults := faults s\<rparr>" by (simp add: w)
    ultimately show ?thesis using True ok w(1) by blast
  next
    case False
    then have "window_refill w (path_for i) i local len fsize s = (Ok w', t)"
      using fill by (simp only: if_False simp_thms)
    from window_refill_Ok [OF ok len this fits] show ?thesis by simp
  qed
  then show "bs = pread (bytes_of s (path_for i)) (unat local) len" "window_ok s w'"
    "\<exists>fs. t = s\<lparr>faults := fs\<rparr>"
    using window_bytes [of s w' i local len] main by auto
qed

lemma window_read_none:
  assumes ok: "window_ok s w" and len: "len \<le> 2 ^ 32" and nf: "faults s = []"
    and sz: "unat fsize = length (bytes_of s (path_for i))" and fits: "unat local + len \<le> unat fsize"
  obtains w' where "window_read w (path_for i) i local len fsize s =
      (Ok (pread (bytes_of s (path_for i)) (unat local) len, w'), s)" "window_ok s w'"
proof -
  have "unat local + len < 2 ^ 64" using fits unat_lt_64 [of fsize] by linarith
  then have e: "checked_add local (u64_of_len len) = Some (local + u64_of_len len)"
    "unat (local + u64_of_len len) = unat local + len"
    using len by (simp_all add: checked unat_plus_fits)
  then have lt: "\<not> fsize < local + u64_of_len len" using fits by (simp add: word_less_nat_alt)
  let ?res = "sw_file_idx w = Some i \<and> sw_start w \<le> local \<and>
      local + u64_of_len len \<le> saturating_add (sw_start w) (u64_of_len (sw_len w))"
  obtain w' where fill: "(if ?res then ret w else window_refill w (path_for i) i local len fsize) s =
      (Ok w', s)" and w': "window_ok s w'" "sw_file_idx w' = Some i" "sw_start w' \<le> local"
      "unat local + len \<le> unat (sw_start w') + sw_len w'"
  proof (cases ?res)
    case True
    have "sw_len w < 2 ^ 64" using ok by (simp add: window_ok_def)
    then have "unat local + len \<le> unat (sw_start w) + sw_len w"
      using True e saturating_add_le [of "sw_start w" "u64_of_len (sw_len w)"]
      by (simp add: word_le_nat_alt)
    then show ?thesis using that [of w] True ok by (simp add: io_simps)
  next
    case False
    let ?want = "min (unat fsize - unat local) (length (grown w len))"
    have "unat local + ?want \<le> length (bytes_of s (path_for i))" using sz fits by linarith
    then obtain v where v: "window_refill w (path_for i) i local len fsize s = (Ok v, s)"
      using read_exact_at_none [OF nf, of ?want local "path_for i"]
      by (simp add: window_refill_eq [OF ok len] Let_def io_bind_def io_simps)
    from window_refill_Ok [OF ok len v fits] show ?thesis
      using that [of v] v False by simp
  qed
  have "window_read w (path_for i) i local len fsize s =
      (Ok (pread (bytes_of s (path_for i)) (unat local) len, w'), s)"
    using e(1) lt fill window_bytes [OF w']
    by (simp add: window_read_def io_simps Let_def io_bind_def [of "if _ then _ else _"])
  then show ?thesis using that w'(1) by blast
qed

section \<open>Indexing a block\<close>

text \<open>
  What the scan may change besides the index entry of one height: the header of the index, the
  heights, the log. \<open>scan_frame hs s t\<close>: the entries of heights outside \<open>hs\<close>, the data files and
  what the file set needs are as in \<open>s\<close>.
\<close>

definition whole_entries :: "'z world_scheme \<Rightarrow> bool" where
  "whole_entries s \<longleftrightarrow> length (bytes_of s IndexFile) mod 16 = 0 \<and> 64 \<le> length (bytes_of s IndexFile)"

text \<open>Every entry is whole, except that the file may end within the one at \<open>n\<close>.\<close>

definition whole_but :: "nat \<Rightarrow> 'z world_scheme \<Rightarrow> bool" where
  "whole_but n s \<longleftrightarrow>
     64 \<le> length (bytes_of s IndexFile) \<and>
     (length (bytes_of s IndexFile) mod 16 = 0 \<or>
      n < length (bytes_of s IndexFile) \<and> length (bytes_of s IndexFile) < n + 16)"

lemma whole_but_0: "whole_but 0 s = whole_entries s"
  by (auto simp: whole_but_def whole_entries_def)

lemma whole_entries_but: "whole_entries s \<Longrightarrow> whole_but n s"
  by (simp add: whole_but_def whole_entries_def)

lemma whole_but_filled:
  "whole_but n s \<Longrightarrow> n + 16 \<le> length (bytes_of s IndexFile) \<Longrightarrow> whole_entries s"
  by (auto simp: whole_but_def whole_entries_def)

text \<open>No lock on the index but the store's own; the header the disk holds.\<close>

definition index_held :: "'z store_scheme \<Rightarrow> bool" where
  "index_held s \<longleftrightarrow> (\<forall>n. (IndexFile, n) \<in> set (locks s) \<longrightarrow> n = fd (index_file s))"

lemma index_file_more: "fset.more t = fset.more s \<Longrightarrow> index_file t = index_file s"
  by (cases s; cases t; simp)

definition disk_header :: "'z world_scheme \<Rightarrow> index_file_header" where
  "disk_header s = decode_header (zread (bytes_of s IndexFile) 0 64)"

definition scan_frame :: "u64 set \<Rightarrow> 'z store_scheme \<Rightarrow> 'z store_scheme \<Rightarrow> bool" where
  "scan_frame hs s t \<longleftrightarrow>
     (\<forall>i. bytes_of t (path_for i) = bytes_of s (path_for i)) \<and>
     fs_max_data_file_size t = fs_max_data_file_size s \<and>
     (header t)\<lparr>ih_next_write_offset := 0, ih_max_height := 0\<rparr> =
       (header s)\<lparr>ih_next_write_offset := 0, ih_max_height := 0\<rparr> \<and>
     (\<forall>h slot. h \<notin> hs \<longrightarrow> index_entry_offset s h = Some slot \<longrightarrow> entry_at t slot = entry_at s slot) \<and>
     (ready s \<longrightarrow> ready t) \<and> (\<forall>n. whole_but n s \<longrightarrow> whole_but n t) \<and>
     sync t = sync s \<and> index_file t = index_file s \<and> data_dir t = data_dir s \<and>
     (index_held s \<longrightarrow> index_held t)"

lemma index_entry_offset_min:
  "ih_min_height (header t) = ih_min_height (header s) \<Longrightarrow> index_entry_offset t h = index_entry_offset s h"
  by (simp add: index_entry_offset_def)

lemma header_kept:
  assumes "(h :: index_file_header)\<lparr>ih_next_write_offset := 0, ih_max_height := 0\<rparr> =
    k\<lparr>ih_next_write_offset := 0, ih_max_height := 0\<rparr>"
  shows "ih_min_height h = ih_min_height k" "ih_highest_contiguous h = ih_highest_contiguous k"
    "ih_version h = ih_version k" "ih_max_data_file_size h = ih_max_data_file_size k"
  using assms by (cases h; cases k; simp)+

lemma scan_frame_min: "scan_frame hs s t \<Longrightarrow> ih_min_height (header t) = ih_min_height (header s)"
  unfolding scan_frame_def by (blast dest: header_kept(1))

lemma scan_frame_slot: "scan_frame hs s t \<Longrightarrow> index_entry_offset t h = index_entry_offset s h"
  by (rule index_entry_offset_min [OF scan_frame_min])

lemma scan_frame_refl [simp]: "scan_frame hs s s"
  by (simp add: scan_frame_def)

lemma scan_frame_trans:
  assumes "scan_frame hs s t" and "scan_frame hs' t u"
  shows "scan_frame (hs \<union> hs') s u"
proof -
  have "entry_at u slot = entry_at s slot"
    if "h \<notin> hs \<union> hs'" "index_entry_offset s h = Some slot" for h slot
    using that assms scan_frame_slot [OF assms(1), of h] unfolding scan_frame_def by auto
  with assms show ?thesis unfolding scan_frame_def by simp
qed

lemma scan_frame_opened:
  assumes g: "get_or_open i s = (Ok f, t)" and s: "ready s" and f: "is_file s (path_for i)"
  shows "scan_frame hs s t" and "ready t"
proof -
  have inv: "fs_inv s" "own_locks s" using s by (simp_all add: ready_def)
  have st: "same_files s t" by (rule get_or_open_same_files [OF g])
  then show t: "ready t"
    using s get_or_open_fs_inv [OF g inv(1)] get_or_open_own_locks [OF g inv]
    by (simp add: same_files_def ready_def)
  have "fset.more t = fset.more s" using st by (simp add: same_files_def)
  then have h: "header t = header s" "sync t = sync s" "index_file t = index_file s"
    by (cases s; cases t; simp)+
  have "bytes_of t = bytes_of s" using st by (simp add: same_files_def)
  then have "entry_at t = entry_at s" "\<And>n. whole_but n t = whole_but n s"
    by (simp_all add: entry_at_def fun_eq_iff whole_but_def)
  moreover have "index_held s \<longrightarrow> index_held t"
    using get_or_open_index_locks [OF g] h(3) by (auto simp: index_held_def)
  ultimately show "scan_frame hs s t"
    using h t st get_or_open_data_dir [OF g f] unfolding scan_frame_def by (auto simp: same_files_def)
qed

lemma is_file_data_dir: "data_dir t = data_dir s \<Longrightarrow> is_file t (path_for i) = is_file s (path_for i)"
  by (simp add: is_file_def path_for_def)

lemma scan_frame_whole: "scan_frame hs s t \<Longrightarrow> whole_entries s \<Longrightarrow> whole_entries t"
  unfolding scan_frame_def whole_but_0 [symmetric] by blast

lemma whole_but_pwrite:
  assumes "16 dvd off" and "length bs = 16" and "whole_but n s"
  shows "whole_but n (log_write IndexFile off bs s)"
proof -
  have "bs \<noteq> []" using assms(2) by auto
  moreover have "(off + 16) mod 16 = 0" using assms(1) by simp
  ultimately show ?thesis
    using assms(2,3) by (auto simp: whole_but_def length_pwrite max_def)
qed

lemma whole_entries_pwrite:
  "16 dvd off \<Longrightarrow> length bs = 16 \<Longrightarrow> whole_entries s \<Longrightarrow> whole_entries (log_write IndexFile off bs s)"
  unfolding whole_but_0 [symmetric] by (rule whole_but_pwrite)

lemma whole_but_written:
  assumes "length bs = 16" and "whole_but off s" and "16 dvd off"
  shows "whole_entries (log_write IndexFile off bs s)"
proof -
  have "bs \<noteq> []" using assms(1) by auto
  then show ?thesis
    using whole_but_pwrite [OF assms(3,1,2)] assms(1) by (intro whole_but_filled) (auto simp: length_pwrite)
qed

lemma slot_dvd: "index_entry_offset s h = Some slot \<Longrightarrow> 16 dvd unat slot"
  by (auto simp: index_entry_offset_Some)

lemma index_held_cong:
  "locks t = locks s \<Longrightarrow> index_file t = index_file s \<Longrightarrow> index_held t = index_held s"
  by (simp add: index_held_def)

lemma index_file_log_write [simp]: "index_file (log_write f off bs s) = index_file s"
  by (rule index_file_more) simp

lemma index_held_log_write [simp]: "index_held (log_write f off bs s) = index_held s"
  by (rule index_held_cong) simp_all

lemma disk_header_index_write:
  assumes "index_entry_offset s' h = Some slot"
  shows "disk_header (log_write IndexFile (unat slot) bs s) = disk_header s"
  using index_entry_offset_ge [OF assms] by (simp add: disk_header_def zread_pwrite_other)

lemma scan_frame_index_write:
  assumes "index_entry_offset s h = Some slot" and "length bs = 16"
  shows "scan_frame {h} s (log_write IndexFile (unat slot) bs s)"
proof -
  have e: "entry_at (log_write IndexFile (unat slot) bs s) sl = entry_at s sl"
    if "h' \<noteq> h" "index_entry_offset s h' = Some sl" for h' sl
  proof (rule entry_kept)
    show "unat slot + length bs \<le> unat sl \<or> unat sl + 16 \<le> unat slot"
      using index_slots_apart [OF assms(1) that(2)] that(1) assms(2) by auto
  qed
  show ?thesis
    unfolding scan_frame_def
    using e whole_but_pwrite [OF slot_dvd [OF assms(1)] assms(2), of _ s] by simp
qed

text \<open>With working calls, \<open>update_index_if_changed\<close> leaves the entry saying what it should.\<close>

lemma update_index_if_changed_none:
  assumes s: "ready s" and sl: "index_entry_offset s h = Some slot"
  obtains t where "update_index_if_changed h e s = (Ok (), t)" "scan_frame {h} s t" "ready t"
    "entry_at t slot = e" "t = s \<or> t = log_write IndexFile (unat slot) (encode_entry e) s"
    "whole_but (unat slot) s \<Longrightarrow> whole_entries t"
proof -
  have f: "faults s = []" using s by (simp add: ready_def)
  let ?bs = "pread (bytes_of s IndexFile) (unat slot) 16"
  let ?x = "decode_entry (fill_buf (encode_entry default_entry) ?bs)"
  have x: "?x = entry_at s slot" by (rule entry_at_fill)
  show ?thesis
  proof (cases "length ?bs = 16 \<and> ie_offset ?x = ie_offset e \<and> ie_size ?x = ie_size e \<and>
      ie_reserved ?x = ie_reserved e")
    case True
    then have "entry_at s slot = e" using x by (cases "entry_at s slot"; cases e) simp
    moreover have "update_index_if_changed h e s = (Ok (), s)"
      using True f sl by (simp add: update_index_if_changed_def io_simps entry_size_def io_bind_def
          Let_def del: length_pread)
    moreover have "scan_frame {h} s s" by simp
    moreover have "unat slot + 16 \<le> length (bytes_of s IndexFile)" using conjunct1 [OF True] by simp
    ultimately show ?thesis using that s whole_but_filled by blast
  next
    case False
    let ?t = "log_write IndexFile (unat slot) (encode_entry e) s"
    have "update_index_if_changed h e s = (Ok (), ?t)"
      using False f sl by (auto simp: update_index_if_changed_def io_simps entry_size_def io_bind_def
          Let_def update_index_at_def simp del: length_pread)
    moreover have "scan_frame {h} s ?t" using sl by (rule scan_frame_index_write) simp
    moreover have "entry_at ?t slot = e" "ready ?t" using s by (simp_all add: entry_written)
    ultimately show ?thesis
      using that [of ?t] whole_but_written [OF _ _ slot_dvd [OF sl], of "encode_entry e" s] by auto
  qed
qed

text \<open>Changes of the header and the counters in memory, and of the header on disk.\<close>

lemma scan_frame_counters:
  "scan_frame hs s (s\<lparr>height_highwater := a\<rparr>)"
  "scan_frame hs s (s\<lparr>max_contiguous_height := a\<rparr>)"
  "scan_frame hs s (s\<lparr>last_checkpoint_offset := b\<rparr>)"
  "scan_frame hs s (s\<lparr>io_log := l\<rparr>)"
  "scan_frame hs s (s\<lparr>header := (header s)\<lparr>ih_max_height := m\<rparr>\<rparr>)"
  "scan_frame hs s (set_next_write_offset p s)"
  by (simp_all add: scan_frame_def set_next_write_offset_def entry_at_def whole_but_def
      index_held_def bytes_of_def path_for_def ready_def fs_inv_def own_locks_def is_dir_def)

lemma whole_but_header:
  assumes "length bs = 64" and "whole_but n s"
  shows "whole_but n (log_write IndexFile 0 bs s)"
  using assms by (auto simp: whole_but_def length_pwrite max_def)

lemma whole_entries_header:
  "length bs = 64 \<Longrightarrow> whole_entries s \<Longrightarrow> whole_entries (log_write IndexFile 0 bs s)"
  unfolding whole_but_0 [symmetric] by (rule whole_but_header)

lemma scan_frame_header_write:
  assumes "length bs = 64" shows "scan_frame hs s (log_write IndexFile 0 bs s)"
proof -
  have "entry_at (log_write IndexFile 0 bs s) sl = entry_at s sl"
    if "index_entry_offset s h' = Some sl" for h' sl
    using index_entry_offset_ge [OF that] assms entry_kept [of 0 bs sl s] by simp
  then show ?thesis
    unfolding scan_frame_def using whole_but_header [OF assms, of _ s] by simp
qed

lemma bytes_of_counters [simp]:
  "bytes_of (s\<lparr>data_highwater := a\<rparr>) = bytes_of s"
  "bytes_of (s\<lparr>header := a'\<rparr>) = bytes_of s"
  "bytes_of (s\<lparr>max_contiguous_height := a\<rparr>) = bytes_of s"
  "bytes_of (s\<lparr>height_highwater := a\<rparr>) = bytes_of s"
  "bytes_of (s\<lparr>last_checkpoint_offset := a\<rparr>) = bytes_of s"
  "bytes_of (s\<lparr>recovered := b\<rparr>) = bytes_of s"
  "bytes_of (set_next_write_offset p s) = bytes_of s"
  by (simp_all add: bytes_of_def fun_eq_iff set_next_write_offset_def split: file_id.split)

lemma checkpoint_recovery_progress_none:
  assumes s: "ready s"
  obtains t where "checkpoint_recovery_progress s = (Ok (), t)" "scan_frame {} s t"
    "ih_next_write_offset (header t) = ih_next_write_offset (header s)"
    "height_highwater t = height_highwater s"
    "disk_header t = header t" "ih_max_height (header t) = height_highwater t"
proof -
  let ?a = "s\<lparr>io_log := EvSync IndexFile # io_log s\<rparr>"
  let ?b = "?a\<lparr>header := (header ?a)\<lparr>ih_max_height := height_highwater ?a\<rparr>\<rparr>"
  let ?c = "log_write IndexFile 0 (encode_header (header ?b)) ?b"
  let ?t = "?c\<lparr>last_checkpoint_offset := ih_next_write_offset (header ?c)\<rparr>"
  have f: "faults s = []" using s by (simp add: ready_def)
  have 1: "checkpoint_recovery_progress s = (Ok (), ?t)"
    using f by (simp add: checkpoint_recovery_progress_def io_bind_def io_simps)
  have "scan_frame ({} \<union> {}) s ?b"
    by (rule scan_frame_trans [OF scan_frame_counters(4) scan_frame_counters(5)])
  then have "scan_frame ({} \<union> {}) s ?c"
    using scan_frame_trans scan_frame_header_write [of _ "{}" ?b] by fastforce
  then have 2: "scan_frame {} s ?t"
    using scan_frame_trans [OF _ scan_frame_counters(3), of "{}" s ?c "{}"] by simp
  have 3: "disk_header ?t = header ?t" by (simp add: disk_header_def zread_pwrite_same)
  show ?thesis by (rule that [OF 1 2 _ _ 3]) simp_all
qed

text \<open>The whole treatment of a valid block.\<close>

lemma index_recovered_block_none:
  assumes s: "ready s" and sl: "index_entry_offset s h = Some slot"
    and fit: "unat p + 22 + unat sz < 2 ^ 64"
  obtains l' t where "index_recovered_block p h sz l s = (Ok l', t)" "scan_frame {h} s t"
    "entry_at t slot = \<lparr>ie_offset = p, ie_size = sz, ie_reserved = 0\<rparr>"
    "unat (ih_next_write_offset (header t)) = unat p + 22 + unat sz"
    "height_highwater t = max (height_highwater s) h" "whole_but (unat slot) s \<Longrightarrow> whole_entries t"
    "disk_header t = disk_header s \<or> disk_header t = header t \<and> ih_max_height (header t) = height_highwater t"
proof -
  let ?e = "\<lparr>ie_offset = p, ie_size = sz, ie_reserved = 0\<rparr>"
  obtain a where a: "update_index_if_changed h ?e s = (Ok (), a)" "scan_frame {h} s a" "ready a"
    "entry_at a slot = ?e" "a = s \<or> a = log_write IndexFile (unat slot) (encode_entry ?e) s"
    "whole_but (unat slot) s \<Longrightarrow> whole_entries a"
    using s sl by (rule update_index_if_changed_none [where e = ?e]) blast
  obtain up b where b: "update_highwater h a = (Ok up, b)" "b = a\<lparr>height_highwater := max (height_highwater a) h\<rparr>"
    by (cases "height_highwater a < h") (auto simp: update_highwater_def max_def)
  let ?c = "b\<lparr>max_contiguous_height := max (max_contiguous_height b) h\<rparr>"
  obtain nx where n: "Option.bind (checked_add p (u64_of_len SERIALIZED_SIZE)) (\<lambda>q. checked_add q (ucast sz)) = Some nx"
    "unat nx = unat p + 22 + unat sz"
  proof -
    have "checked_add p (u64_of_len SERIALIZED_SIZE) = Some (p + u64_of_len SERIALIZED_SIZE)"
      "unat (p + u64_of_len SERIALIZED_SIZE) = unat p + 22"
      using fit by (simp_all add: checked unat_SERIALIZED unat_plus_fits)
    moreover from this have "checked_add (p + u64_of_len SERIALIZED_SIZE) (ucast sz) =
        Some (p + u64_of_len SERIALIZED_SIZE + ucast sz)"
      "unat (p + u64_of_len SERIALIZED_SIZE + ucast sz) = unat p + 22 + unat sz"
      using fit by (simp_all add: checked unat_plus_fits [of "p + u64_of_len SERIALIZED_SIZE"])
    ultimately show ?thesis using that by simp
  qed
  let ?d = "set_next_write_offset nx ?c"
  have eq: "index_recovered_block p h sz l s =
      (if CHECKPOINT_BYTES \<le> saturating_sub nx l
       then io_bind checkpoint_recovery_progress (\<lambda>_. ret nx) ?d else (Ok l, ?d))"
    using a(1) b(1) n(1) by (simp add: index_recovered_block_def io_bind_def io_simps)
  have bc: "scan_frame ({} \<union> ({} \<union> {})) a ?d"
    using scan_frame_trans [OF scan_frame_counters(1) scan_frame_trans [OF scan_frame_counters(2)
          scan_frame_counters(6)]] b(2) by blast
  have wd: "whole_entries ?d" if "whole_but (unat slot) s" using scan_frame_whole [OF bc a(6) [OF that]] .
  have sd: "scan_frame {h} s ?d" using scan_frame_trans [OF a(2) bc] by simp
  have ed: "entry_at ?d = entry_at a" using b(2) by (simp add: entry_at_def fun_eq_iff)
  have "disk_header a = disk_header s" using a(5) disk_header_index_write [OF sl] by auto
  then have dd: "disk_header ?d = disk_header s" using b(2) by (simp add: disk_header_def)
  have hd: "height_highwater ?d = max (height_highwater s) h"
    using a(5) b(2) by (auto simp: set_next_write_offset_def)
  show ?thesis
  proof (cases "CHECKPOINT_BYTES \<le> saturating_sub nx l")
    case True
    have "ready ?d" using sd s by (simp add: scan_frame_def)
    then obtain t where t: "checkpoint_recovery_progress ?d = (Ok (), t)" "scan_frame {} ?d t"
      "ih_next_write_offset (header t) = ih_next_write_offset (header ?d)"
      "height_highwater t = height_highwater ?d"
      "disk_header t = header t" "ih_max_height (header t) = height_highwater t"
      by (rule checkpoint_recovery_progress_none)
    have sld: "index_entry_offset ?d h = Some slot" using scan_frame_slot [OF sd] sl by simp
    then have "entry_at t slot = entry_at ?d slot" using t(2) unfolding scan_frame_def by simp
    moreover have "scan_frame {h} s t" using scan_frame_trans [OF sd t(2)] by simp
    moreover have "index_recovered_block p h sz l s = (Ok nx, t)"
      using eq True t(1) by (simp add: io_bind_def io_simps)
    ultimately show ?thesis using that [of nx t] ed a(4) t(3-6) n(2) hd scan_frame_whole [OF t(2) wd] by simp
  next
    case False
    then show ?thesis using that [of l ?d] eq sd ed a(4) n(2) hd wd dd by simp
  qed
qed

section \<open>A turn of the loop\<close>

text \<open>At offset \<open>p\<close> there is a block of height \<open>h\<close> with \<open>sz\<close> payload bytes that decode to \<open>block\<close>.\<close>

definition valid_block_at :: "libs \<Rightarrow> 'z store_scheme \<Rightarrow> u64 \<Rightarrow> u64 \<Rightarrow> u32 \<Rightarrow> bytes \<Rightarrow> bool" where
  "valid_block_at L s p h sz block \<longleftrightarrow>
     sz \<noteq> 0 \<and> sz \<le> MAX_BLOCK_SIZE \<and>
     (let buf = region s p (22 + unat sz)
      in length buf = 22 + unat sz \<and> take 22 buf = serialize (block_header_of L h block sz) \<and>
         decompress L (drop 22 buf) = Ok block)"

lemma valid_block_at_cong:
  "(\<And>i. bytes_of t (path_for i) = bytes_of s (path_for i)) \<Longrightarrow>
     fs_max_data_file_size t = fs_max_data_file_size s \<Longrightarrow>
     valid_block_at L t p h sz block = valid_block_at L s p h sz block"
  by (simp add: valid_block_at_def region_cong [of t s])

text \<open>The listing the scan works from gives the sizes of the files.\<close>

definition sizes_right :: "(u32, u64) RBT.rbt \<Rightarrow> 'z world_scheme \<Rightarrow> bool" where
  "sizes_right files s \<longleftrightarrow>
     (\<forall>i fsize. RBT.lookup files i = Some fsize \<longrightarrow>
        is_file s (path_for i) \<and> unat fsize = length (bytes_of s (path_for i)))"

lemma sizes_right_cong:
  "(\<And>i. bytes_of t (path_for i) = bytes_of s (path_for i)) \<Longrightarrow> data_dir t = data_dir s \<Longrightarrow>
     sizes_right files t = sizes_right files s"
  by (simp add: sizes_right_def is_file_data_dir [of t s])

lemma unat_header_end:
  "unat local + 22 < 2 ^ 64 \<Longrightarrow> unat (saturating_add local (u64_of_len SERIALIZED_SIZE)) = unat local + 22"
  by (simp only: unat_saturating_add unat_SERIALIZED) simp

lemma recover_step_at_block:
  assumes s: "ready s" and w: "window_ok s w" and files: "sizes_right files s"
    and more: "\<not> e \<le> p" and p: "p = ih_next_write_offset (header s)"
    and sp: "split_offset (fs_max_data_file_size s) p = (i, local)"
    and fl: "RBT.lookup files i = Some fsize"
    and vb: "valid_block_at L s p h sz block" and sl: "index_entry_offset s h = Some slot"
    and fit: "unat p + 22 + unat sz < 2 ^ 64"
  obtains l' w' t where "recover_step L e files l w s = (Ok (Some (l', w')), t)"
    "scan_frame {h} s t" "entry_at t slot = \<lparr>ie_offset = p, ie_size = sz, ie_reserved = 0\<rparr>"
    "unat (ih_next_write_offset (header t)) = unat p + 22 + unat sz"
    "height_highwater t = max (height_highwater s) h" "window_ok t w'"
    "whole_but (unat slot) s \<Longrightarrow> whole_entries t"
    "disk_header t = disk_header s \<or> disk_header t = header t \<and> ih_max_height (header t) = height_highwater t"
proof -
  let ?f = "bytes_of s (path_for i)"
  have cap: "fs_max_data_file_size s \<noteq> Some 0" using s by (simp add: ready_def fs_inv_def cap_ok_def)
  have sz: "sz \<noteq> 0" "\<not> MAX_BLOCK_SIZE < sz" "unat sz \<le> 2 ^ 30"
    using vb by (auto simp: valid_block_at_def not_less word_le_nat_alt MAX_BLOCK_SIZE_def)
  define buf where "buf = pread ?f (unat local) (22 + unat sz)"
  have buf: "length buf = 22 + unat sz" "take 22 buf = serialize (block_header_of L h block sz)"
    "decompress L (drop 22 buf) = Ok block"
    using vb unfolding valid_block_at_def region_eq [OF sp] buf_def Let_def by blast+
  have fz: "unat fsize = length ?f" using files fl by (simp add: sizes_right_def)
  have fits: "unat local + (22 + unat sz) \<le> unat fsize"
    using buf(1) fz unfolding buf_def pread_full_iff by linarith
  have lt: "unat local + 22 + unat sz < 2 ^ 64" using split_local_le [OF sp] fit by linarith
  let ?he = "saturating_add local (u64_of_len SERIALIZED_SIZE)"
  have he: "unat ?he = unat local + 22" using lt by (intro unat_header_end) linarith
  have he_le: "\<not> fsize < ?he" using fits he by (simp add: word_less_nat_alt)
  have mh: "\<not> h < ih_min_height (header s)"
    using sl by (auto simp: index_entry_offset_Some word_less_nat_alt)
  have "\<not> is_dir s (path_for i)" "fs_inv s" "own_locks s" "faults s = []"
    using s by (simp_all add: ready_def)
  then obtain f u where g: "get_or_open i s = (Ok f, u)" using get_or_open_succeeds by blast
  have "is_file s (path_for i)" using files fl by (simp add: sizes_right_def)
  note su = scan_frame_opened [OF g s this]
  have u: "same_files s u" "hfile f = path_for i" "ready u" "bytes_of u = bytes_of s" "faults u = []"
    using get_or_open_same_files [OF g] get_or_open_path [OF g \<open>fs_inv s\<close>] su(2)
    by (simp_all add: same_files_def ready_def)
  have wu: "window_ok u w" using w u(4) by (simp add: window_ok_def)
  have fu: "unat fsize = length (bytes_of u (path_for i))" using u(4) fz by simp
  obtain w1 where "window_read w (path_for i) i local 22 fsize u =
      (Ok (pread (bytes_of u (path_for i)) (unat local) 22, w1), u)" and w1: "window_ok u w1"
    by (rule window_read_none [OF wu _ u(5) fu, of 22 local]) (use fits in simp_all)
  then have r1: "window_read w (path_for i) i local SERIALIZED_SIZE fsize u =
      (Ok (serialize (block_header_of L h block sz), w1), u)"
    using buf(2) u(4) by (simp add: buf_def take_pread SERIALIZED_SIZE_def)
  obtain w2 where "window_read w1 (path_for i) i ?he (unat sz) fsize u =
      (Ok (pread (bytes_of u (path_for i)) (unat ?he) (unat sz), w2), u)" and w2: "window_ok u w2"
    by (rule window_read_none [OF w1 _ u(5) fu, of "unat sz" ?he]) (use fits he sz in simp_all)
  then have r2: "window_read w1 (path_for i) i ?he (unat sz) fsize u = (Ok (drop 22 buf, w2), u)"
    using he u(4) by (simp add: buf_def drop_pread)
  have be: "checked_add ?he (ucast sz) = Some (?he + ucast sz)" "\<not> fsize < ?he + ucast sz"
    using lt he fits by (simp_all add: checked unat_plus_fits word_less_nat_alt)
  have slu: "index_entry_offset u h = Some slot"
    using sl scan_frame_slot [OF su(1), of h] by simp
  obtain l' t where t: "index_recovered_block p h sz l u = (Ok l', t)" "scan_frame {h} u t"
    "entry_at t slot = \<lparr>ie_offset = p, ie_size = sz, ie_reserved = 0\<rparr>"
    "unat (ih_next_write_offset (header t)) = unat p + 22 + unat sz"
    "height_highwater t = max (height_highwater u) h" "whole_but (unat slot) u \<Longrightarrow> whole_entries t"
    "disk_header t = disk_header u \<or> disk_header t = header t \<and> ih_max_height (header t) = height_highwater t"
    using u(3) slu fit by (rule index_recovered_block_none [where l = l]) blast
  have hh: "height_highwater u = height_highwater s"
    using u(1) store_fields(5) [of u s] by (simp add: same_files_def)
  have "recover_block L p (ih_min_height (header s)) i local ?he fsize l w s = (Ok (Some (l', w2)), t)"
    unfolding recover_block_def
    using g u(2) r1 r2 mh sz be buf(3) t(1)
    by (simp add: io_bind_def io_simps block_header_of_def)
  then have "recover_step L e files l w s = (Ok (Some (l', w2)), t)"
    using p sp fl more cap he_le by (simp add: recover_step_def io_simps Let_def)
  moreover have "scan_frame {h} s t"
    using scan_frame_trans [OF su(1) [of "{}"] t(2)] by simp
  moreover have "window_ok t w2"
    using w2 t(2) by (simp add: window_ok_def scan_frame_def)
  moreover have "whole_entries t" if "whole_but (unat slot) s" using that t(6) u(4) by (simp add: whole_but_def)
  moreover have "disk_header u = disk_header s" using u(4) by (simp add: disk_header_def)
  ultimately show ?thesis using that t(3,4,5,7) hh by simp
qed

lemma advance_to_next_file_fits:
  assumes "unat i + 1 < 2 ^ 32" and "unat q = (unat i + 1) * unat c"
  shows "advance_to_next_file i c s = (Ok q, s)"
proof -
  have i: "checked_add i 1 = Some (i + 1)" using assms(1) by (intro checked_add_fits) simp
  have j: "unat (ucast (i + 1) :: u64) = unat i + 1" using assms(1) by (simp add: unat_plus_fits)
  have "checked_mul (ucast (i + 1)) c = Some q"
    using assms(2) j unat_lt_64 [of q] by (simp add: checked)
  with i show ?thesis by (simp add: advance_to_next_file_def io_simps)
qed

lemma recover_step_at_tail:
  assumes cap: "fs_max_data_file_size s = Some c" "c \<noteq> 0" and more: "\<not> e \<le> p"
    and p: "p = ih_next_write_offset (header s)" and sp: "split_offset (Some c) p = (i, local)"
    and fl: "RBT.lookup files i = Some fsize"
    and tail: "fsize < saturating_add local (u64_of_len SERIALIZED_SIZE)"
    and off: "unat i + 1 < 2 ^ 32" "unat q = (unat i + 1) * unat c"
  shows "recover_step L e files l w s = (Ok (Some (l, w)), set_next_write_offset q s)"
  using assms advance_to_next_file_fits [OF off, of s]
  by (simp add: recover_step_def io_simps Let_def io_bind_def [of "advance_to_next_file _ _"])

section \<open>Chains of blocks\<close>

text \<open>The sizes of the data files, as a listing of the directory gives them.\<close>

definition file_sizes :: "'z world_scheme \<Rightarrow> u32 \<Rightarrow> u64 option" where
  "file_sizes s i = (if is_file s (path_for i) then Some (size_of (bytes_of s (path_for i))) else None)"

text \<open>
  \<open>chain L s p cs q\<close>: from offset \<open>p\<close> the scan meets the blocks \<open>cs\<close> (height, offset, size),
  skipping the tails of data files, and arrives at \<open>q\<close>.
\<close>

type_synonym found_block = "u64 \<times> u64 \<times> u32"

inductive chain ::
  "libs \<Rightarrow> 'z store_scheme \<Rightarrow> u64 \<Rightarrow> found_block list \<Rightarrow> u64 \<Rightarrow> bool"
  for L s where
  chain_end: "chain L s p [] p"
| chain_block: "split_offset (fs_max_data_file_size s) p = (i, local) \<Longrightarrow>
     file_sizes s i = Some fsize \<Longrightarrow> valid_block_at L s p h sz block \<Longrightarrow>
     index_entry_offset s h = Some slot \<Longrightarrow> unat q = unat p + 22 + unat sz \<Longrightarrow>
     chain L s q cs r \<Longrightarrow> chain L s p ((h, p, sz) # cs) r"
| chain_skip: "fs_max_data_file_size s = Some c \<Longrightarrow> c \<noteq> 0 \<Longrightarrow>
     split_offset (Some c) p = (i, local) \<Longrightarrow> file_sizes s i = Some fsize \<Longrightarrow>
     fsize < saturating_add local (u64_of_len SERIALIZED_SIZE) \<Longrightarrow> unat p < unat q \<Longrightarrow>
     unat i + 1 < 2 ^ 32 \<Longrightarrow> unat q = (unat i + 1) * unat c \<Longrightarrow>
     chain L s q cs r \<Longrightarrow> chain L s p cs r"

lemma chain_le: "chain L s p cs r \<Longrightarrow> p \<le> r"
  by (induction rule: chain.induct) (auto simp: word_le_nat_alt)

definition heights_of :: "found_block list \<Rightarrow> u64 set" where
  "heights_of cs = fst ` set cs"

text \<open>The last block of each height in the chain, and the highest height.\<close>

definition last_found :: "found_block list \<Rightarrow> u64 \<Rightarrow> (u64 \<times> u32) option" where
  "last_found cs = map_of (rev cs)"

definition top_height :: "found_block list \<Rightarrow> u64 \<Rightarrow> u64" where
  "top_height cs m = fold (\<lambda>(h, p, sz). max h) cs m"

lemma last_found_Cons:
  "last_found ((h, p, sz) # cs) k =
     (case last_found cs k of None \<Rightarrow> if k = h then Some (p, sz) else None | Some v \<Rightarrow> Some v)"
  by (simp add: last_found_def map_add_def split: option.split)

lemma last_found_None: "last_found cs h = None \<longleftrightarrow> h \<notin> heights_of cs"
  by (simp add: last_found_def heights_of_def map_of_eq_None_iff)

lemma heights_of_Cons [simp]: "heights_of ((h, p, sz) # cs) = insert h (heights_of cs)"
  and heights_of_Nil [simp]: "heights_of [] = {}"
  by (simp_all add: heights_of_def)

text \<open>What the loop has done once it has walked a chain.\<close>

definition replayed :: "found_block list \<Rightarrow> 'z store_scheme \<Rightarrow> 'z store_scheme \<Rightarrow> bool" where
  "replayed cs s t \<longleftrightarrow>
     scan_frame (heights_of cs) s t \<and>
     (\<forall>h p sz slot. last_found cs h = Some (p, sz) \<longrightarrow> index_entry_offset s h = Some slot \<longrightarrow>
        entry_at t slot = \<lparr>ie_offset = p, ie_size = sz, ie_reserved = 0\<rparr>) \<and>
     (\<forall>h slot. h \<in> heights_of cs \<longrightarrow> index_entry_offset s h = Some slot \<longrightarrow>
        whole_but (unat slot) s \<longrightarrow> whole_entries t) \<and>
     height_highwater t = top_height cs (height_highwater s)"

lemma replayed_Nil [simp]: "replayed [] s s"
  by (simp add: replayed_def last_found_def top_height_def)

lemma replayed_Cons:
  assumes st: "scan_frame {h} s t" and sl: "index_entry_offset s h = Some slot"
    and e: "entry_at t slot = \<lparr>ie_offset = p, ie_size = sz, ie_reserved = 0\<rparr>"
    and hh: "height_highwater t = max (height_highwater s) h" and tu: "replayed cs t u"
    and wh: "whole_but (unat slot) s \<Longrightarrow> whole_entries t"
  shows "replayed ((h, p, sz) # cs) s u"
proof -
  note slots = scan_frame_slot [OF st]
  have tu': "scan_frame (heights_of cs) t u"
    "\<And>k p sz slot. last_found cs k = Some (p, sz) \<Longrightarrow> index_entry_offset t k = Some slot \<Longrightarrow>
        entry_at u slot = \<lparr>ie_offset = p, ie_size = sz, ie_reserved = 0\<rparr>"
    "height_highwater u = top_height cs (height_highwater t)"
    "\<And>k sl. k \<in> heights_of cs \<Longrightarrow> index_entry_offset t k = Some sl \<Longrightarrow> whole_but (unat sl) t \<Longrightarrow> whole_entries u"
    using tu unfolding replayed_def by blast+
  have "scan_frame (heights_of ((h, p, sz) # cs)) s u"
    using scan_frame_trans [OF st tu'(1)] by simp
  moreover have "entry_at u sl = \<lparr>ie_offset = p', ie_size = sz', ie_reserved = 0\<rparr>"
    if "last_found ((h, p, sz) # cs) k = Some (p', sz')" "index_entry_offset s k = Some sl"
    for k p' sz' sl
  proof (cases "last_found cs k")
    case None
    then have k: "k = h" "p' = p" "sz' = sz" using that(1) by (auto simp: last_found_Cons split: if_splits)
    then have "sl = slot" "h \<notin> heights_of cs" using that(2) sl None by (simp_all add: last_found_None)
    then have "entry_at u sl = entry_at t sl"
      using tu'(1) that(2) k(1) slots unfolding scan_frame_def by auto
    then show ?thesis using e k \<open>sl = slot\<close> by simp
  next
    case (Some v)
    then show ?thesis using that tu'(2) [of k p' sz' sl] slots by (simp add: last_found_Cons)
  qed
  moreover have "whole_entries u"
    if k: "k \<in> heights_of ((h, p, sz) # cs)" "index_entry_offset s k = Some sl" "whole_but (unat sl) s" for k sl
  proof (cases "k = h")
    case True
    then show ?thesis using k sl wh scan_frame_whole [OF tu'(1)] by simp
  next
    case False
    have "whole_but (unat sl) t" using k(3) st by (simp add: scan_frame_def)
    then show ?thesis using False k slots tu'(4) by simp
  qed
  moreover have "height_highwater u = top_height ((h, p, sz) # cs) (height_highwater s)"
    using tu'(3) hh by (simp add: top_height_def max.commute)
  ultimately show ?thesis unfolding replayed_def by blast
qed

lemma replayed_skip:
  assumes "replayed cs (set_next_write_offset q s) u" shows "replayed cs s u"
proof -
  have f: "scan_frame {} s (set_next_write_offset q s)" by (rule scan_frame_counters(6))
  have "height_highwater (set_next_write_offset q s) = height_highwater s"
    by (simp add: set_next_write_offset_def)
  moreover have "whole_but n (set_next_write_offset q s) = whole_but n s" for n by (simp add: whole_but_def)
  moreover have "scan_frame (heights_of cs) s u"
    using scan_frame_trans [OF f, of "heights_of cs" u] assms by (simp add: replayed_def)
  ultimately show ?thesis
    using assms scan_frame_slot [OF f] by (simp add: replayed_def)
qed

text \<open>
  The header on disk behind the scan: the one there was, or one from which the rest \<open>bs\<close> of the
  chain is still to be walked.
\<close>

definition resumes ::
  "libs \<Rightarrow> 'z store_scheme \<Rightarrow> found_block list \<Rightarrow> u64 \<Rightarrow> 'z store_scheme \<Rightarrow> 'z store_scheme \<Rightarrow> bool" where
  "resumes L s cs r t u \<longleftrightarrow>
     disk_header u = disk_header t \<or>
     (\<exists>as bs. cs = as @ bs \<and> chain L s (ih_next_write_offset (disk_header u)) bs r \<and>
        ih_max_height (disk_header u) = top_height as (height_highwater t) \<and>
        (disk_header u)\<lparr>ih_next_write_offset := 0, ih_max_height := 0\<rparr> =
          (header t)\<lparr>ih_next_write_offset := 0, ih_max_height := 0\<rparr>)"

lemma resumes_same: "disk_header u = disk_header t \<Longrightarrow> resumes L s cs r t u"
  by (simp add: resumes_def)

lemma resumes_Cons:
  assumes ch: "chain L s q cs r" and st: "scan_frame {h} t t1" and hh: "height_highwater t1 = max (height_highwater t) h"
    and d: "disk_header t1 = disk_header t \<or>
      disk_header t1 = header t1 \<and> ih_max_height (header t1) = height_highwater t1"
    and q: "ih_next_write_offset (header t1) = q" and u: "resumes L s cs r t1 u"
  shows "resumes L s ((h, p, sz) # cs) r t u"
proof -
  have hd: "(header t1)\<lparr>ih_next_write_offset := 0, ih_max_height := 0\<rparr> =
      (header t)\<lparr>ih_next_write_offset := 0, ih_max_height := 0\<rparr>"
    using st by (simp add: scan_frame_def)
  have top: "top_height ((h, p, sz) # as) (height_highwater t) = top_height as (height_highwater t1)" for as
    using hh by (simp add: top_height_def max.commute)
  show ?thesis
  proof (cases "disk_header u = disk_header t1")
    case True
    show ?thesis
    proof (cases "disk_header t1 = disk_header t")
      case same: True
      then show ?thesis using True by (simp add: resumes_same)
    next
      case False
      then have "disk_header u = header t1" "ih_max_height (header t1) = height_highwater t1"
        using True d by simp_all
      moreover have "top_height [(h, p, sz)] (height_highwater t) = height_highwater t1"
        using top [of "[]"] by (simp add: top_height_def)
      ultimately show ?thesis
        using ch q hd unfolding resumes_def by (intro disjI2 exI [of _ "[(h, p, sz)]"] exI [of _ cs]) simp
    qed
  next
    case False
    then obtain as bs where "cs = as @ bs" "chain L s (ih_next_write_offset (disk_header u)) bs r"
      "ih_max_height (disk_header u) = top_height as (height_highwater t1)"
      "(disk_header u)\<lparr>ih_next_write_offset := 0, ih_max_height := 0\<rparr> =
          (header t1)\<lparr>ih_next_write_offset := 0, ih_max_height := 0\<rparr>"
      using u by (auto simp: resumes_def)
    then show ?thesis
      using hd top unfolding resumes_def
      by (intro disjI2 exI [of _ "(h, p, sz) # as"] exI [of _ bs]) simp
  qed
qed

lemma resumes_skip:
  assumes "resumes L s cs r (set_next_write_offset q t) u" shows "resumes L s cs r t u"
proof -
  have "disk_header (set_next_write_offset q t) = disk_header t" by (simp add: disk_header_def)
  moreover have "height_highwater (set_next_write_offset q t) = height_highwater t"
    "(header (set_next_write_offset q t))\<lparr>ih_next_write_offset := 0, ih_max_height := 0\<rparr> =
      (header t)\<lparr>ih_next_write_offset := 0, ih_max_height := 0\<rparr>"
    by (simp_all add: set_next_write_offset_def)
  ultimately show ?thesis using assms by (simp add: resumes_def)
qed

lemma recover_loop_continue:
  "recover_step L e files l w s = (Ok (Some (l', w')), t) \<Longrightarrow>
     recover_loop L e files l w s = recover_loop L e files l' w' t"
  by (subst recover_loop.simps) simp

lemma recover_loop_chain:
  assumes ch: "chain L s p cs r" and "r \<le> e" and "scan_frame hs s t" and "ready t"
    and "window_ok t w" and "sizes_right files s" and fs: "RBT.lookup files = file_sizes s" and "ih_next_write_offset (header t) = p"
  shows "\<exists>l' w' u. recover_loop L e files l w t = recover_loop L e files l' w' u \<and>
    replayed cs t u \<and> ih_next_write_offset (header u) = r \<and> window_ok u w' \<and> resumes L s cs r t u"
  using assms(1-6,8)
proof (induction arbitrary: t l w hs rule: chain.induct)
  case (chain_end p)
  then show ?case using replayed_Nil resumes_same by blast
next
  case (chain_block p i local fsize h sz block slot q cs r)
  note st = chain_block.prems(2)
  have b: "\<And>i. bytes_of t (path_for i) = bytes_of s (path_for i)"
    "fs_max_data_file_size t = fs_max_data_file_size s"
    using st by (simp_all add: scan_frame_def)
  have "p < q" using chain_block.hyps(5) by (simp add: word_less_nat_alt)
  then have "\<not> e \<le> p" using chain_le [OF chain_block.hyps(6)] chain_block.prems(1) by auto
  moreover have "sizes_right files t" using chain_block.prems(5) b(1) st sizes_right_cong [of t s] by (simp add: scan_frame_def)
  moreover have "valid_block_at L t p h sz block"
    using chain_block.hyps(3) valid_block_at_cong [OF b] by blast
  moreover have "index_entry_offset t h = Some slot"
    using chain_block.hyps(4) scan_frame_slot [OF st] by simp
  moreover have "unat p + 22 + unat sz < 2 ^ 64" using chain_block.hyps(5) unat_lt_64 [of q] by simp
  ultimately obtain l1 w1 t1 where t1: "recover_step L e files l w t = (Ok (Some (l1, w1)), t1)"
    "scan_frame {h} t t1" "entry_at t1 slot = \<lparr>ie_offset = p, ie_size = sz, ie_reserved = 0\<rparr>"
    "unat (ih_next_write_offset (header t1)) = unat p + 22 + unat sz"
    "height_highwater t1 = max (height_highwater t) h" "window_ok t1 w1"
    "whole_but (unat slot) t \<Longrightarrow> whole_entries t1"
    "disk_header t1 = disk_header t \<or> disk_header t1 = header t1 \<and> ih_max_height (header t1) = height_highwater t1"
    using recover_step_at_block [OF chain_block.prems(3,4), of files e p i local fsize L h sz block slot l]
      chain_block.prems(6) chain_block.hyps(1,2) b(2) fs by metis
  have "ready t1" using t1(2) chain_block.prems(3) by (simp add: scan_frame_def)
  moreover have nq: "ih_next_write_offset (header t1) = q"
    using t1(4) chain_block.hyps(5) by (simp add: word_unat_eq_iff)
  moreover have "scan_frame (hs \<union> {h}) s t1" using scan_frame_trans [OF st t1(2)] .
  ultimately obtain l' w' u where u: "recover_loop L e files l1 w1 t1 = recover_loop L e files l' w' u"
    "replayed cs t1 u" "ih_next_write_offset (header u) = r" "window_ok u w'"
    "resumes L s cs r t1 u"
    using chain_block.IH [where hs = "hs \<union> {h}" and t = t1 and w = w1 and l = l1] chain_block.prems(1,5) t1(6) by metis
  have "replayed ((h, p, sz) # cs) t u"
    using t1(2) _ t1(3,5) u(2) t1(7) by (rule replayed_Cons)
      (use chain_block.hyps(4) scan_frame_slot [OF st] in simp)
  moreover have "resumes L s ((h, p, sz) # cs) r t u"
    by (rule resumes_Cons [OF chain_block.hyps(6) t1(2,5,8) nq u(5)])
  ultimately show ?case
    using recover_loop_continue [OF t1(1)] u(1,3,4) by metis
next
  case (chain_skip c p i local fsize q cs r)
  note st = chain_skip.prems(2)
  let ?t = "set_next_write_offset q t"
  have "p < q" using chain_skip.hyps(6) by (simp add: word_less_nat_alt)
  then have "\<not> e \<le> p" using chain_le [OF chain_skip.hyps(9)] chain_skip.prems(1) by auto
  moreover have "fs_max_data_file_size t = Some c" using st chain_skip.hyps(1) by (simp add: scan_frame_def)
  ultimately have step: "recover_step L e files l w t = (Ok (Some (l, w)), ?t)"
    using recover_step_at_tail chain_skip.hyps chain_skip.prems(6) fs by metis
  have tt: "scan_frame {} t ?t" by (rule scan_frame_counters(6))
  have "ready ?t" using tt chain_skip.prems(3) by (simp add: scan_frame_def)
  moreover have "window_ok ?t w" using chain_skip.prems(4) by (simp add: window_ok_def)
  moreover have "scan_frame (hs \<union> {}) s ?t" using scan_frame_trans [OF st tt] .
  ultimately obtain l' w' u where u: "recover_loop L e files l w ?t = recover_loop L e files l' w' u"
    "replayed cs ?t u" "ih_next_write_offset (header u) = r" "window_ok u w'"
    "resumes L s cs r ?t u"
    using chain_skip.IH [where hs = "hs \<union> {}" and t = ?t and w = w and l = l] chain_skip.prems(1,5) set_next_write_offset_simps(1) by metis
  then show ?case
    using recover_loop_continue [OF step] replayed_skip resumes_skip by metis
qed

end
