(* ===== verification/FloorScan.thy ===== *)
theory FloorScan
  imports RecoveryScan
begin

text \<open>
  The scan of the index for the contiguity floor, against its specification: the greatest
  height up to the high-water mark below which, from the resume point on, no entry is zero.
\<close>

section \<open>Specification\<close>

definition present :: "'z store_scheme \<Rightarrow> u64 \<Rightarrow> bool" where
  "present s h \<longleftrightarrow>
     (case index_entry_offset s h of
        None \<Rightarrow> False
      | Some slot \<Rightarrow> \<not> zero_entry (entry_at s slot))"

definition floor_spec :: "'z store_scheme \<Rightarrow> u64 \<Rightarrow> u64 \<Rightarrow> u64 \<Rightarrow> bool" where
  "floor_spec s start upper f \<longleftrightarrow>
     start \<le> f \<and> f \<le> upper \<and> (\<forall>k. start < k \<and> k \<le> f \<longrightarrow> present s k) \<and>
     (f = upper \<or> \<not> present s (f + 1))"

section \<open>Chunks of the index\<close>

lemma length_as_chunks: "length (as_chunks bs) = length bs div 16"
proof (induction bs rule: as_chunks.induct)
  case (1 bs)
  then show ?case
    by (cases "length bs < 16") (simp_all add: as_chunks.simps [of bs] le_div_geq)
qed

lemma as_chunks_nth: "j < length bs div 16 \<Longrightarrow> as_chunks bs ! j = take 16 (drop (16 * j) bs)"
proof (induction bs arbitrary: j rule: as_chunks.induct)
  case (1 bs)
  then have n: "\<not> length bs < 16" by auto
  show ?case
  proof (cases j)
    case 0
    then show ?thesis using n by (simp add: as_chunks.simps [of bs])
  next
    case (Suc k)
    then have "k < length (drop 16 bs) div 16" using "1.prems" n by (simp add: le_div_geq)
    from "1.IH" [OF n this] show ?thesis
      using n Suc by (simp add: as_chunks.simps [of bs] add.commute)
  qed
qed

lemma zread_pread: "off + n \<le> length f \<Longrightarrow> zread f off n = pread f off n"
  by (rule nth_equalityI) (auto simp: zread_def pread_def)

lemma chunk_offset_eq: "chunk_offset (ih_min_height (header s)) k = index_entry_offset s k"
  by (simp add: chunk_offset_def index_entry_offset_def)

text \<open>Entry \<open>j\<close> of a chunk read at the slot of \<open>cursor\<close> is the entry of height \<open>cursor + j\<close>.\<close>

lemma chunk_entry:
  assumes off: "index_entry_offset s cursor = Some off"
    and bs: "bs = pread (bytes_of s IndexFile) (unat off) CHUNK_BYTES"
    and j: "j < length bs div 16" and k: "unat k = unat cursor + j"
    and slot: "index_entry_offset s k = Some slot"
  shows "decode_entry (as_chunks bs ! j) = entry_at s slot"
proof -
  let ?f = "bytes_of s IndexFile"
  have uo: "unat slot = unat off + 16 * j"
    using off slot k by (auto simp: index_entry_offset_Some)
  have le: "16 * j + 16 \<le> length bs" using j by (simp add: less_eq_div_iff_mult_less_eq flip: Suc_le_eq)
  then have "unat off + 16 * j + 16 \<le> length ?f" using bs by auto
  then have "zread ?f (unat slot) 16 = pread ?f (unat off + 16 * j) 16"
    using zread_pread [of "unat slot" 16 ?f] uo by simp
  also have "\<dots> = take 16 (drop (16 * j) bs)"
  proof -
    have "16 * j + 16 \<le> CHUNK_BYTES" using le bs by simp
    then show ?thesis unfolding bs by (rule pread_take_drop)
  qed
  finally show ?thesis using as_chunks_nth [OF j] by (simp add: entry_at_def)
qed

lemma slot_past_end:
  assumes "index_entry_offset s k = Some slot" and "length (bytes_of s IndexFile) \<le> unat slot"
  shows "\<not> present s k"
  using assms by (simp add: present_def entry_at_def zread_beyond decode_zeros default_entry_def zero_entry_def)

section \<open>One chunk\<close>

lemma scan_entries_correct:
  fixes upper cursor lp :: u64
  assumes fit: "unat cursor + i + length es \<le> unat upper + 4097" "unat upper < 2 ^ 59"
    and at: "unat lp + 1 = unat cursor + i"
    and es: "\<And>j k. j < length es \<Longrightarrow> unat k = unat cursor + i + j \<Longrightarrow>
      zero_entry (decode_entry (es ! j)) = (\<not> present s k)"
  shows "(\<exists>f. scan_entries upper cursor i es lp = Ok (FloorAt f) \<and> lp \<le> f \<and> f \<le> max lp upper \<and>
        (\<forall>k. lp < k \<and> k \<le> f \<longrightarrow> present s k) \<and> (upper \<le> f \<or> \<not> present s (f + 1))) \<or>
    (\<exists>l. scan_entries upper cursor i es lp = Ok (ScanOn l) \<and> unat l = unat lp + length es \<and>
        (es \<noteq> [] \<longrightarrow> l \<le> upper) \<and> (\<forall>k. lp < k \<and> k \<le> l \<longrightarrow> present s k))"
  using assms
proof (induction es arbitrary: i lp)
  case Nil
  then show ?case by auto
next
  case (Cons e es)
  have len: "unat (u64_of_len i) = i" using Cons.prems(1,2) by (intro unat_u64_of_len) simp
  have "unat cursor + i < 2 ^ 64" using Cons.prems(1,2) by simp
  then have "checked_add cursor (u64_of_len i) = Some (cursor + u64_of_len i)"
    "unat (cursor + u64_of_len i) = unat cursor + i"
    using len by (simp_all add: checked unat_plus_fits)
  then obtain h where h: "checked_add cursor (u64_of_len i) = Some h" "unat h = unat cursor + i" by blast
  have hl: "h = lp + 1" "lp < h"
    using h(2) Cons.prems(3) unat_lt_64 [of h]
    by (simp_all add: word_unat_eq_iff unat_plus_fits word_less_nat_alt)
  have z: "zero_entry (decode_entry e) = (\<not> present s h)" using Cons.prems(4) [of 0 h] h(2) by simp
  show ?case
  proof (cases "upper < h \<or> zero_entry (decode_entry e)")
    case True
    then have "scan_entries upper cursor i (e # es) lp = Ok (FloorAt lp)" using h(1) by auto
    moreover have "upper \<le> lp \<or> \<not> present s (lp + 1)"
      using True z hl Cons.prems(3) h(2) by (auto simp: word_less_nat_alt word_le_nat_alt)
    ultimately show ?thesis by (intro disjI1 exI [of _ lp]) auto
  next
    case False
    then have step: "scan_entries upper cursor i (e # es) lp = scan_entries upper cursor (Suc i) es h"
      using h(1) by simp
    have ph: "present s h" using False z by simp
    have p: "present s k" if "lp < k" "k \<le> h" for k
    proof -
      have "k = h" using that h(2) Cons.prems(3) by (simp add: word_less_nat_alt word_le_nat_alt word_unat_eq_iff)
      then show ?thesis using ph by simp
    qed
    have ih: "(\<exists>f. scan_entries upper cursor (Suc i) es h = Ok (FloorAt f) \<and> h \<le> f \<and> f \<le> max h upper \<and>
        (\<forall>k. h < k \<and> k \<le> f \<longrightarrow> present s k) \<and> (upper \<le> f \<or> \<not> present s (f + 1))) \<or>
      (\<exists>l. scan_entries upper cursor (Suc i) es h = Ok (ScanOn l) \<and> unat l = unat h + length es \<and>
        (es \<noteq> [] \<longrightarrow> l \<le> upper) \<and> (\<forall>k. h < k \<and> k \<le> l \<longrightarrow> present s k))"
    proof (rule Cons.IH)
      fix j and k :: u64 assume "j < length es" "unat k = unat cursor + Suc i + j"
      then show "zero_entry (decode_entry (es ! j)) = (\<not> present s k)"
        using Cons.prems(4) [of "Suc j" k] by simp
    qed (use Cons.prems(1,2) h(2) in simp_all)
    have "h \<le> upper" using False by auto
    from ih show ?thesis
    proof
      assume "\<exists>f. scan_entries upper cursor (Suc i) es h = Ok (FloorAt f) \<and> h \<le> f \<and> f \<le> max h upper \<and>
        (\<forall>k. h < k \<and> k \<le> f \<longrightarrow> present s k) \<and> (upper \<le> f \<or> \<not> present s (f + 1))"
      then obtain f where f: "scan_entries upper cursor (Suc i) es h = Ok (FloorAt f)" "h \<le> f" "f \<le> max h upper"
        "\<forall>k. h < k \<and> k \<le> f \<longrightarrow> present s k" "upper \<le> f \<or> \<not> present s (f + 1)"
        by blast
      have "present s k" if "lp < k" "k \<le> f" for k using p f(4) that by (cases "k \<le> h") auto
      moreover have "lp \<le> f" using hl(2) f(2) by order
      moreover have "f \<le> max lp upper" using f(3) \<open>h \<le> upper\<close> by (auto simp: max_def split: if_splits)
      ultimately show ?thesis using step f(1,5) by (intro disjI1) auto
    next
      assume "\<exists>l. scan_entries upper cursor (Suc i) es h = Ok (ScanOn l) \<and> unat l = unat h + length es \<and>
        (es \<noteq> [] \<longrightarrow> l \<le> upper) \<and> (\<forall>k. h < k \<and> k \<le> l \<longrightarrow> present s k)"
      then obtain l where l: "scan_entries upper cursor (Suc i) es h = Ok (ScanOn l)" "unat l = unat h + length es"
        "es \<noteq> [] \<longrightarrow> l \<le> upper" "\<forall>k. h < k \<and> k \<le> l \<longrightarrow> present s k"
        by blast
      have "present s k" if "lp < k" "k \<le> l" for k using p l(4) that by (cases "k \<le> h") auto
      moreover have "l \<le> upper"
        using l(2,3) \<open>h \<le> upper\<close> by (cases "es = []") (simp_all add: word_unat_eq_iff word_le_nat_alt)
      moreover have "unat l = unat lp + length (e # es)" using l(2) h(2) Cons.prems(3) by simp
      ultimately show ?thesis using step l(1) by (intro disjI2) auto
    qed
  qed
qed

section \<open>The whole scan\<close>

lemma index_entry_offset_small:
  assumes "ih_min_height (header s) \<le> k" and "unat k \<le> 2 ^ 59"
  obtains off where "index_entry_offset s k = Some off"
    "unat off = (unat k - unat (ih_min_height (header s))) * 16 + 64"
proof -
  let ?n = "(unat k - unat (ih_min_height (header s))) * 16 + 64"
  have n: "?n < 2 ^ 64" using assms(2) by simp
  then have "unat (word_of_nat ?n :: u64) = ?n" by (subst unat_of_nat) simp
  then have "index_entry_offset s k = Some (word_of_nat ?n)"
    using assms(1) n by (simp add: index_entry_offset_Some word_le_nat_alt)
  then show ?thesis using that \<open>unat (word_of_nat ?n :: u64) = ?n\<close> by blast
qed

lemma scan_chunks_correct:
  fixes upper cursor lp :: u64 and s :: "'z store_scheme"
  assumes nf: "faults s = []" and we: "whole_entries s" and up: "unat upper < 2 ^ 59"
    and "unat lp + 1 = unat cursor" and "lp \<le> upper" and "ih_min_height (header s) \<le> cursor"
  shows "\<exists>f. scan_chunks (ih_min_height (header s)) upper cursor lp s = (Ok f, s) \<and>
    floor_spec s lp upper f"
  using assms(4-)
proof (induction "2 ^ 64 - unat cursor" arbitrary: cursor lp rule: less_induct)
  case less
  let ?mh = "ih_min_height (header s)"
  let ?f = "bytes_of s IndexFile"
  have cu: "unat cursor \<le> 2 ^ 59" using less.prems(1,2) up by (simp add: word_le_nat_alt)
  obtain off where off: "index_entry_offset s cursor = Some off"
    "unat off = (unat cursor - unat ?mh) * 16 + 64"
    by (rule index_entry_offset_small [OF less.prems(3) cu])
  define bs where "bs = pread ?f (unat off) CHUNK_BYTES"
  have rd: "read_at IndexFile CHUNK_BYTES off s = (Ok bs, s)" using nf by (simp add: bs_def)
  have co: "chunk_offset ?mh cursor = Some off" using off(1) by (simp add: chunk_offset_eq)
  have cl: "cursor = lp + 1" using less.prems(1) unat_lt_64 [of cursor]
    by (simp add: word_unat_eq_iff unat_plus_fits)
  show ?case
  proof (cases "bs = []")
    case True
    then have "length ?f \<le> unat off"
      by (auto simp: bs_def pread_def CHUNK_BYTES_def CHUNK_ENTRIES_def entry_size_def)
    then have "\<not> present s cursor" by (rule slot_past_end [OF off(1)])
    then have "floor_spec s lp upper lp" using less.prems(2) cl by (auto simp: floor_spec_def)
    moreover have "scan_chunks ?mh upper cursor lp s = (Ok lp, s)"
      using True rd co by (simp add: scan_chunks.simps [of ?mh])
    ultimately show ?thesis by blast
  next
    case False
    let ?n = "length bs div 16"
    have m16: "length bs mod 16 = 0"
    proof -
      have "16 dvd length ?f" using we by (simp add: whole_entries_def dvd_eq_mod_eq_0)
      moreover have "16 dvd unat off" using off(2) by simp
      ultimately have "16 dvd length ?f - unat off" by (rule dvd_diff_nat)
      moreover have "16 dvd CHUNK_BYTES" by (simp add: CHUNK_BYTES_def entry_size_def)
      ultimately have "16 dvd length bs" by (auto simp: bs_def min_def)
      then show ?thesis by simp
    qed
    have nb: "?n \<le> 4096" "length bs = 16 * ?n"
      using m16 by (auto simp: bs_def CHUNK_BYTES_def CHUNK_ENTRIES_def entry_size_def)
    have np: "0 < ?n" using False m16 nb(2) by (cases ?n) auto
    let ?es = "as_chunks bs"
    have es: "zero_entry (decode_entry (?es ! j)) = (\<not> present s k)"
      if "j < length ?es" "unat k = unat cursor + 0 + j" for j and k :: u64
    proof -
      have j: "j < ?n" using that(1) by (simp add: length_as_chunks)
      have "?mh \<le> k" using less.prems(3) that(2) by (simp add: word_le_nat_alt)
      moreover have "unat cursor + j \<le> 2 ^ 59 + 4096" using cu j nb(1) by linarith
      then have "(unat k - unat ?mh) * 16 + 64 < 2 ^ 64" using that(2) by simp
      then have "unat (word_of_nat ((unat k - unat ?mh) * 16 + 64) :: u64) = (unat k - unat ?mh) * 16 + 64"
        by (subst unat_of_nat) simp
      ultimately obtain slot where sl: "index_entry_offset s k = Some slot"
        using index_entry_offset_Some [of s k "word_of_nat ((unat k - unat ?mh) * 16 + 64)"]
          \<open>(unat k - unat ?mh) * 16 + 64 < 2 ^ 64\<close> by (auto simp: word_le_nat_alt)
      then show ?thesis
        using chunk_entry [OF off(1) bs_def j _ sl] that(2) sl by (simp add: present_def)
    qed
    have "unat cursor + 0 + length ?es \<le> unat upper + 4097"
      using less.prems(1,2) nb(1) by (simp add: length_as_chunks word_le_nat_alt)
    moreover have "unat lp + 1 = unat cursor + 0" using less.prems(1) by simp
    ultimately have sc: "(\<exists>f. scan_entries upper cursor 0 ?es lp = Ok (FloorAt f) \<and> lp \<le> f \<and> f \<le> max lp upper \<and>
        (\<forall>k. lp < k \<and> k \<le> f \<longrightarrow> present s k) \<and> (upper \<le> f \<or> \<not> present s (f + 1))) \<or>
      (\<exists>l. scan_entries upper cursor 0 ?es lp = Ok (ScanOn l) \<and> unat l = unat lp + length ?es \<and>
        (?es \<noteq> [] \<longrightarrow> l \<le> upper) \<and> (\<forall>k. lp < k \<and> k \<le> l \<longrightarrow> present s k))"
      using up es by (intro scan_entries_correct) blast+
    have m: "length bs mod entry_size = 0" "length bs div entry_size = ?n"
      using m16 by (simp_all add: entry_size_def)
    from sc show ?thesis
    proof
      assume "\<exists>f. scan_entries upper cursor 0 ?es lp = Ok (FloorAt f) \<and> lp \<le> f \<and> f \<le> max lp upper \<and>
        (\<forall>k. lp < k \<and> k \<le> f \<longrightarrow> present s k) \<and> (upper \<le> f \<or> \<not> present s (f + 1))"
      then obtain f where f: "scan_entries upper cursor 0 ?es lp = Ok (FloorAt f)" "lp \<le> f" "f \<le> max lp upper"
        "\<forall>k. lp < k \<and> k \<le> f \<longrightarrow> present s k" "upper \<le> f \<or> \<not> present s (f + 1)" by blast
      have "f \<le> upper" using f(3) less.prems(2) by (simp add: max_def)
      then have "floor_spec s lp upper f" using f by (auto simp: floor_spec_def)
      moreover have "scan_chunks ?mh upper cursor lp s = (Ok f, s)"
        using False rd co m f(1) by (simp add: scan_chunks.simps [of ?mh])
      ultimately show ?thesis by blast
    next
      assume "\<exists>l. scan_entries upper cursor 0 ?es lp = Ok (ScanOn l) \<and> unat l = unat lp + length ?es \<and>
        (?es \<noteq> [] \<longrightarrow> l \<le> upper) \<and> (\<forall>k. lp < k \<and> k \<le> l \<longrightarrow> present s k)"
      then obtain l where l: "scan_entries upper cursor 0 ?es lp = Ok (ScanOn l)" "unat l = unat lp + ?n"
        "l \<le> upper" "\<forall>k. lp < k \<and> k \<le> l \<longrightarrow> present s k"
        using np by (auto simp: length_as_chunks length_greater_0_conv [symmetric]
            simp del: length_greater_0_conv)
      have un: "unat (u64_of_len ?n) = ?n" using nb(1) by (intro unat_u64_of_len) simp
      have "unat cursor + ?n < 2 ^ 64" using cu nb(1) by simp
      then have "checked_add cursor (u64_of_len ?n) = Some (cursor + u64_of_len ?n)"
        "unat (cursor + u64_of_len ?n) = unat cursor + ?n"
        using un by (simp_all add: checked unat_plus_fits)
      then obtain c where c: "checked_add cursor (u64_of_len ?n) = Some c" "unat c = unat cursor + ?n"
        by blast
      have cl': "unat l + 1 = unat c" using l(2) c(2) less.prems(1) by simp
      then have cl1: "c = l + 1" using unat_lt_64 [of c] by (simp add: word_unat_eq_iff unat_plus_fits)
      show ?thesis
      proof (cases "?n < 4096")
        case True
        have "length bs < CHUNK_BYTES"
          using True nb(2) by (simp add: CHUNK_BYTES_def CHUNK_ENTRIES_def entry_size_def)
        then have eof: "length ?f - unat off = length bs" by (simp add: bs_def min_def split: if_splits)
        obtain slot where sl: "index_entry_offset s c = Some slot" "unat slot = (unat c - unat ?mh) * 16 + 64"
        proof (rule index_entry_offset_small)
          show "?mh \<le> c" using less.prems(3) c(2) by (simp add: word_le_nat_alt)
          show "unat c \<le> 2 ^ 59" using cl' l(3) up by (simp add: word_le_nat_alt)
        qed
        have "unat ?mh \<le> unat cursor" using less.prems(3) by (simp add: word_le_nat_alt)
        then have "unat slot = unat off + length bs" using sl(2) off(2) c(2) nb(2) by (simp add: algebra_simps)
        then have "length ?f \<le> unat slot" using eof by linarith
        then have "\<not> present s c" by (rule slot_past_end [OF sl(1)])
        moreover have "lp \<le> l" using l(2) by (simp add: word_le_nat_alt)
        ultimately have "floor_spec s lp upper l" using l(3,4) cl1 by (auto simp: floor_spec_def)
        moreover have "scan_chunks ?mh upper cursor lp s = (Ok l, s)"
          using False rd co m l(1) c(1) True
          by (simp add: scan_chunks.simps [of ?mh] CHUNK_ENTRIES_def)
        ultimately show ?thesis by blast
      next
        case n4: False
        have step: "scan_chunks ?mh upper cursor lp s = scan_chunks ?mh upper c l s"
          using False rd co m l(1) c(1) n4
          by (simp add: scan_chunks.simps [of ?mh _ cursor] CHUNK_ENTRIES_def)
        have "2 ^ 64 - unat c < 2 ^ 64 - unat cursor" using c(2) np unat_lt_64 [of c] by linarith
        moreover have "?mh \<le> c" using less.prems(3) c(2) by (simp add: word_le_nat_alt)
        ultimately obtain f where f: "scan_chunks ?mh upper c l s = (Ok f, s)" "floor_spec s l upper f"
          using less.hyps [of c l] cl' l(3) by blast
        have "lp \<le> l" using l(2) by (simp add: word_le_nat_alt)
        then have "floor_spec s lp upper f"
          using f(2) l(4) unfolding floor_spec_def by (meson le_less_linear order_trans)
        then show ?thesis using step f(1) by auto
      qed
    qed
  qed
qed

definition resume_point :: "'z store_scheme \<Rightarrow> u64 \<Rightarrow> u64" where
  "resume_point s resume =
     min (max resume (saturating_sub (ih_min_height (header s)) 1)) (height_highwater s)"

lemma scan_contiguous_floor_correct:
  assumes nf: "faults s = []" and we: "whole_entries s" and up: "unat (height_highwater s) < 2 ^ 59"
  obtains f where "scan_contiguous_floor resume s = (Ok f, s)"
    "if height_highwater s < ih_min_height (header s)
     then f = saturating_sub (ih_min_height (header s)) 1
     else floor_spec s (resume_point s resume) (height_highwater s) f"
proof -
  let ?mh = "ih_min_height (header s)"
  let ?up = "height_highwater s"
  let ?st = "resume_point s resume"
  show ?thesis
  proof (cases "?up < ?mh")
    case True
    then show ?thesis
      using that [of "saturating_sub ?mh 1"] by (simp add: scan_contiguous_floor_def io_simps)
  next
    case le: False
    have su: "?st \<le> ?up" by (simp add: resume_point_def)
    show ?thesis
    proof (cases "?up \<le> ?st")
      case True
      then have "?st = ?up" using su by simp
      then have "floor_spec s ?st ?up ?st" by (auto simp: floor_spec_def)
      moreover have "scan_contiguous_floor resume s = (Ok ?st, s)"
        using le True by (simp add: scan_contiguous_floor_def io_simps resume_point_def Let_def)
      ultimately show ?thesis using that [of ?st] le by simp
    next
      case False
      have "unat ?st < unat ?up" using False by (simp add: word_less_nat_alt not_le)
      then have c: "checked_add ?st 1 = Some (?st + 1)" "unat (?st + 1) = unat ?st + 1"
        using unat_lt_64 [of ?up] by (simp_all add: checked unat_plus_fits)
      have "unat (saturating_sub ?mh 1) = unat ?mh - 1"
        by (simp only: unat_saturating_sub) simp
      moreover have "?mh \<le> ?up" using le by simp
      ultimately have "unat ?mh - 1 \<le> unat ?st"
        by (auto simp: resume_point_def min_def max_def word_le_nat_alt not_le split: if_splits)
      then have "?mh \<le> ?st + 1" using c(2) by (simp add: word_le_nat_alt)
      then obtain f where f: "scan_chunks ?mh ?up (?st + 1) ?st s = (Ok f, s)" "floor_spec s ?st ?up f"
        using scan_chunks_correct [OF nf we up c(2) [symmetric] su] by blast
      have "scan_contiguous_floor resume s = (Ok f, s)"
        using le False c(1) f(1)
        by (simp add: scan_contiguous_floor_def io_simps resume_point_def Let_def)
      then show ?thesis using that [of f] le f(2) by simp
    qed
  qed
qed

end
