(* ===== verification/CrashSafety.thy ===== *)
theory CrashSafety
  imports FloorScan StoreContract
begin

text \<open>
  What recovery restores. The blocks behind the last checkpoint form a chain in the data files;
  opening the store walks the chain, writes the index again and arrives at the end of the data,
  so a store whose process died reads after the next open as it did before.
\<close>

section \<open>Where the scan stops\<close>

text \<open>The header at \<open>r\<close> is none the scan accepts.\<close>

definition rejected_header :: "'z store_scheme \<Rightarrow> block_header \<Rightarrow> bool" where
  "rejected_header s hdr \<longleftrightarrow>
     bh_height hdr < ih_min_height (header s) \<or> bh_size hdr = 0 \<or>
     MAX_BLOCK_SIZE < bh_size hdr \<or> bh_version hdr \<noteq> BLOCK_ENTRY_VERSION"

definition scan_stops :: "(u32 \<Rightarrow> u64 option) \<Rightarrow> 'z store_scheme \<Rightarrow> u64 \<Rightarrow> u64 \<Rightarrow> bool" where
  "scan_stops sizes s e r \<longleftrightarrow>
     e \<le> r \<or>
     (case split_offset (fs_max_data_file_size s) r of (i, local) \<Rightarrow>
        (case sizes i of
           None \<Rightarrow> True
         | Some fsize \<Rightarrow>
             if unat fsize < unat local + 22 then fs_max_data_file_size s = None
             else rejected_header s (header_of (region s r 22))))"

lemma recover_step_stops:
  assumes s: "ready s" and w: "window_ok s w" and files: "sizes_right files s"
    and st: "scan_stops (RBT.lookup files) s e (ih_next_write_offset (header s))"
    and nr: "e \<le> ih_next_write_offset (header s) \<or> unat (ih_next_write_offset (header s)) + 22 < 2 ^ 64"
  obtains t where "recover_step L e files l w s = (Ok None, t)" "scan_frame {} s t" "ready t"
    "disk_header t = disk_header s" "header t = header s" "height_highwater t = height_highwater s"
proof -
  let ?r = "ih_next_write_offset (header s)"
  have cap: "fs_max_data_file_size s \<noteq> Some 0" using s by (simp add: ready_def fs_inv_def cap_ok_def)
  obtain i local where sp: "split_offset (fs_max_data_file_size s) ?r = (i, local)" by fastforce
  show ?thesis
  proof (cases "e \<le> ?r \<or> RBT.lookup files i = None")
    case True
    then have "recover_step L e files l w s = (Ok None, s)"
      using sp cap by (auto simp: recover_step_def io_simps Let_def)
    then show ?thesis using that [of s] s by simp
  next
    case False
    then obtain fsize where fl: "RBT.lookup files i = Some fsize" and er: "\<not> e \<le> ?r" by auto
    have lt: "unat local + 22 < 2 ^ 64" using split_local_le [OF sp] nr er by linarith
    note he = unat_header_end [OF lt]
    show ?thesis
    proof (cases "unat fsize < unat local + 22")
      case True
      then have "fs_max_data_file_size s = None" using st er sp fl by (simp add: scan_stops_def)
      then have "recover_step L e files l w s = (Ok None, s)"
        using True sp fl er he by (simp add: recover_step_def io_simps Let_def word_less_nat_alt)
      then show ?thesis using that [of s] s by simp
    next
      case fits: False
      then have rej: "rejected_header s (header_of (region s ?r 22))"
        using st er sp fl by (simp add: scan_stops_def)
      have fz: "unat fsize = length (bytes_of s (path_for i))"
        using files fl by (simp add: sizes_right_def)
      have inv: "fs_inv s" "own_locks s" "faults s = []" "\<not> is_dir s (path_for i)"
        using s by (simp_all add: ready_def)
      obtain f u where g: "get_or_open i s = (Ok f, u)" using get_or_open_succeeds [OF inv] by blast
      have "is_file s (path_for i)" using files fl by (simp add: sizes_right_def)
      note su = scan_frame_opened [OF g s this]
      have u: "same_files s u" "hfile f = path_for i" "ready u"
        using get_or_open_same_files [OF g] get_or_open_path [OF g inv(1)] su(2) by simp_all
      have uf: "disk_header u = disk_header s" "header u = header s" "height_highwater u = height_highwater s"
        using u(1) store_fields(2,5) [of u s] by (simp_all add: same_files_def disk_header_def)
      from u have bu: "bytes_of u = bytes_of s" "faults u = []" by (simp_all add: same_files_def ready_def)
      have "window_ok u w" using w bu(1) by (simp add: window_ok_def)
      moreover have "unat fsize = length (bytes_of u (path_for i))" using bu(1) fz by simp
      ultimately obtain w1 where "window_read w (path_for i) i local 22 fsize u =
          (Ok (pread (bytes_of u (path_for i)) (unat local) 22, w1), u)"
        using window_read_none [of u w 22 fsize i local] bu(2) fits by auto
      then have r1: "window_read w (path_for i) i local SERIALIZED_SIZE fsize u =
          (Ok (region s ?r 22, w1), u)"
        using bu(1) by (simp add: region_eq [OF sp] SERIALIZED_SIZE_def)
      have len: "length (region s ?r 22) = 22"
        using fits fz by (simp add: region_eq [OF sp])
      have "recover_block L ?r (ih_min_height (header s)) i local
          (saturating_add local (u64_of_len SERIALIZED_SIZE)) fsize l w s = (Ok None, u)"
        unfolding recover_block_def
        using g u(2) r1 rej by (simp add: io_bind_def io_simps deserialize_eq [OF len] rejected_header_def)
      then have "recover_step L e files l w s = (Ok None, u)"
        using sp fl er cap he fits
        by (simp add: recover_step_def io_simps Let_def word_less_nat_alt)
      then show ?thesis using that [of u] su uf by blast
    qed
  qed
qed

lemma scan_frame_stops:
  assumes "scan_frame hs s t" shows "scan_stops sizes t e r = scan_stops sizes s e r"
proof -
  have "region t = region s" "fs_max_data_file_size t = fs_max_data_file_size s"
    using assms by (auto simp: scan_frame_def fun_eq_iff intro!: region_cong)
  then show ?thesis
    using scan_frame_min [OF assms] by (simp add: scan_stops_def rejected_header_def cong: option.case_cong)
qed

section \<open>The scan over a chain\<close>

lemma recover_unindexed_chain:
  assumes s: "ready s" and files: "sizes_right files s" and fs: "RBT.lookup files = file_sizes s"
    and ch: "chain L s (ih_next_write_offset (header s)) cs r" and re: "r \<le> e"
    and st: "scan_stops (file_sizes s) s e r" and nr: "e \<le> r \<or> unat r + 22 < 2 ^ 64"
  obtains t where "recover_unindexed_blocks L e files s = (Ok (), t)" "replayed cs s t"
    "ih_next_write_offset (header t) = r" "resumes L s cs r s t"
proof -
  obtain l' w' u where u: "recover_unindexed_blocks L e files s = recover_loop L e files l' w' u"
    "replayed cs s u" "ih_next_write_offset (header u) = r" "window_ok u w'"
    "resumes L s cs r s u"
    using recover_loop_chain [OF ch re scan_frame_refl s window_ok_new files fs refl]
    unfolding recover_unindexed_blocks_def by blast
  have su: "scan_frame (heights_of cs) s u" using u(2) by (simp add: replayed_def)
  have "ready u" using su s by (simp add: scan_frame_def)
  moreover have "sizes_right files u"
    using files su sizes_right_cong [of u s] by (simp add: scan_frame_def)
  moreover have "scan_stops (RBT.lookup files) u e (ih_next_write_offset (header u))"
    using st fs u(3) scan_frame_stops [OF su] by simp
  ultimately obtain t where t: "recover_step L e files l' w' u = (Ok None, t)" "scan_frame {} u t" "ready t"
    "disk_header t = disk_header u" "header t = header u" "height_highwater t = height_highwater u"
    using recover_step_stops [of u w' files e L l'] u(3,4) nr by metis
  have loop: "recover_unindexed_blocks L e files s = (Ok (), t)"
    using u(1) t(1) by (simp add: recover_loop.simps)
  note ut = t(2)
  have "replayed cs s t"
    using u(2) scan_frame_trans [OF su ut] ut scan_frame_slot [OF su] scan_frame_whole [OF ut] t(6)
    by (auto simp: replayed_def scan_frame_def)
  moreover have "resumes L s cs r s t" using u(5) t(4) by (simp add: resumes_def)
  ultimately show ?thesis using that loop t(5) u(3) by simp
qed

text \<open>A replay that finds what the index already says changes no height.\<close>

definition index_agrees :: "found_block list \<Rightarrow> 'z store_scheme \<Rightarrow> bool" where
  "index_agrees cs s \<longleftrightarrow>
     (\<forall>h p sz slot. last_found cs h = Some (p, sz) \<longrightarrow> index_entry_offset s h = Some slot \<longrightarrow>
        entry_at s slot = \<lparr>ie_offset = p, ie_size = sz, ie_reserved = 0\<rparr>)"

lemma replayed_entries:
  assumes "replayed cs s t" and "index_agrees cs s" and "index_entry_offset s h = Some slot"
  shows "entry_at t slot = entry_at s slot"
proof (cases "last_found cs h")
  case None
  then show ?thesis using assms by (simp add: replayed_def scan_frame_def last_found_None)
next
  case (Some v)
  then show ?thesis using assms by (cases v) (simp add: replayed_def index_agrees_def)
qed

lemma peek_cong:
  assumes "\<And>i. bytes_of t (path_for i) = bytes_of s (path_for i)"
    and "fs_max_data_file_size t = fs_max_data_file_size s"
    and "index_entry_offset t h = index_entry_offset s h"
    and "\<And>slot. index_entry_offset s h = Some slot \<Longrightarrow> entry_at t slot = entry_at s slot"
  shows "peek L t h = peek L s h"
  using assms region_cong [OF assms(1,2)] by (simp add: peek_def Let_def split: option.split)

lemma entry_ok_cong:
  assumes "\<And>i. bytes_of t (path_for i) = bytes_of s (path_for i)"
    and "fs_max_data_file_size t = fs_max_data_file_size s" and "data_highwater t = data_highwater s"
    and "index_entry_offset t h = index_entry_offset s h"
    and "\<And>slot. index_entry_offset s h = Some slot \<Longrightarrow> entry_at t slot = entry_at s slot"
  shows "entry_ok t h = entry_ok s h"
  using assms region_cong [OF assms(1,2)]
  by (simp add: entry_ok_def Let_def placed_def unsplit_def split: option.split)

lemma replayed_peek:
  assumes r: "replayed cs s t" and a: "index_agrees cs s"
  shows "peek K t h = peek K s h"
proof (rule peek_cong)
  have f: "scan_frame (heights_of cs) s t" using r by (simp add: replayed_def)
  then show "bytes_of t (path_for i) = bytes_of s (path_for i)"
    "fs_max_data_file_size t = fs_max_data_file_size s" for i
    by (simp_all add: scan_frame_def)
  show "index_entry_offset t h = index_entry_offset s h" by (rule scan_frame_slot [OF f])
qed (rule replayed_entries [OF r a])

section \<open>Recovery over a chain\<close>

lemma chain_empty: "chain L s p cs r \<Longrightarrow> r \<le> p \<Longrightarrow> cs = [] \<and> r = p"
proof (induction rule: chain.induct)
  case (chain_block p i local fsize h sz block slot q cs r)
  have "p < q" using chain_block.hyps(5) by (simp add: word_less_nat_alt)
  then show ?case using chain_le [OF chain_block.hyps(6)] chain_block.prems by auto
next
  case (chain_skip c p i local fsize q cs r)
  have "p < q" using chain_skip.hyps(6) by (simp add: word_less_nat_alt)
  then show ?case using chain_le [OF chain_skip.hyps(9)] chain_skip.prems by auto
qed simp

lemma chain_cong:
  assumes "chain L s p cs r"
    and b: "\<And>i. bytes_of t (path_for i) = bytes_of s (path_for i)" "fs_max_data_file_size t = fs_max_data_file_size s"
    and m: "ih_min_height (header t) = ih_min_height (header s)" and z: "file_sizes t = file_sizes s"
  shows "chain L t p cs r"
  using assms(1)
proof (induction rule: chain.induct)
  case (chain_end p)
  then show ?case by (rule chain.chain_end)
next
  case (chain_block p i local fsize h sz block slot q cs r)
  then show ?case
    using chain.chain_block [of t p i local fsize L h sz block slot q cs r]
      valid_block_at_cong [OF b, of L p h sz block] index_entry_offset_min [OF m] b(2) z by simp
next
  case (chain_skip c p i local fsize q cs r)
  then show ?case using chain.chain_skip [of t c p i local fsize q L cs r] b(2) z by simp
qed

definition after_header :: "'z store_scheme \<Rightarrow> 'z store_scheme" where
  "after_header s = s\<lparr>height_highwater := ih_max_height (header s)\<rparr>"

lemma after_header_simps [simp]:
  "header (after_header s) = header s" "bytes_of (after_header s) = bytes_of s"
  "fs_max_data_file_size (after_header s) = fs_max_data_file_size s"
  "height_highwater (after_header s) = ih_max_height (header s)"
  "is_file (after_header s) = is_file s" "file_sizes (after_header s) = file_sizes s"
  "region (after_header s) = region s"
  by (simp_all add: after_header_def is_file_def file_sizes_def fun_eq_iff region_def
      split: file_id.split)

lemma scan_frame_after_header: "scan_frame hs s (after_header s)"
  unfolding after_header_def by (rule scan_frame_counters(1))

text \<open>The state the last steps of \<open>recover\<close> make of \<open>t\<close>, and what they keep.\<close>

definition settled :: "u64 \<Rightarrow> 'z store_scheme \<Rightarrow> 'z store_scheme" where
  "settled f t = t\<lparr>max_contiguous_height := f, data_highwater := ih_next_write_offset (header t),
     recovered := True\<rparr>"

lemma settled_simps [simp]:
  "bytes_of (settled f t) = bytes_of t" "header (settled f t) = header t"
  "fs_max_data_file_size (settled f t) = fs_max_data_file_size t"
  "height_highwater (settled f t) = height_highwater t" "max_contiguous_height (settled f t) = f"
  "data_highwater (settled f t) = ih_next_write_offset (header t)" "recovered (settled f t)"
  "entry_at (settled f t) = entry_at t" "index_entry_offset (settled f t) = index_entry_offset t"
  by (simp_all add: settled_def entry_at_def index_entry_offset_def fun_eq_iff)

lemma ready_settled [simp]: "ready (settled f t) = ready t"
  by (simp add: settled_def ready_def fs_inv_def own_locks_def is_dir_def path_for_def)

text \<open>An index the replay of \<open>cs\<close> leaves whole: the one entry that may be torn is of a height in \<open>cs\<close>.\<close>

definition mended :: "found_block list \<Rightarrow> 'z store_scheme \<Rightarrow> bool" where
  "mended cs s \<longleftrightarrow>
     whole_entries s \<or>
     (\<exists>h slot. h \<in> heights_of cs \<and> index_entry_offset s h = Some slot \<and> whole_but (unat slot) s)"

lemma mended_long: "mended cs s \<Longrightarrow> 64 \<le> length (bytes_of s IndexFile)"
  by (auto simp: mended_def whole_entries_def whole_but_def)

lemma mended_cong:
  "bytes_of t IndexFile = bytes_of s IndexFile \<Longrightarrow> index_entry_offset t = index_entry_offset s \<Longrightarrow>
     mended cs t = mended cs s"
  by (simp add: mended_def whole_entries_def whole_but_def)

lemma mended_replayed:
  assumes "mended cs s" and "replayed cs (after_header s) t" shows "whole_entries t"
proof -
  have "mended cs (after_header s)"
    using assms(1) mended_cong [of "after_header s" s] by (simp add: index_entry_offset_def fun_eq_iff)
  moreover have "scan_frame (heights_of cs) (after_header s) t" using assms(2) by (simp add: replayed_def)
  ultimately show ?thesis
    using assms(2) scan_frame_whole unfolding mended_def replayed_def by blast
qed

lemma recover_over_chain:
  assumes s: "ready s" and d: "dir_ok s" and we: "mended cs s"
    and short: "\<And>i. length (bytes_of s (path_for i)) < 2 ^ 64"
    and lay: "\<And>m. RBT.lookup m = file_sizes s \<Longrightarrow> validate_layout (fs_max_data_file_size s) m s = (Ok e, s)"
    and ch: "chain L s (ih_next_write_offset (header s)) cs r" and re: "r \<le> e"
    and st: "scan_stops (file_sizes s) s e r" and nr: "e \<le> r \<or> unat r + 22 < 2 ^ 64"
    and top: "unat (top_height cs (ih_max_height (header s))) < 2 ^ 59"
  obtains t f where "recover L s = (Ok (), settled f t)" "replayed cs (after_header s) t"
    "ih_next_write_offset (header t) = r" "ready t" "whole_entries t"
    "resumes L (after_header s) cs r (after_header s) t"
    "if height_highwater t < ih_min_height (header t)
     then f = saturating_sub (ih_min_height (header t)) 1
     else floor_spec t (resume_point t (ih_highest_contiguous (header t))) (height_highwater t) f"
proof -
  have nf: "faults s = []" using s by (simp add: ready_def)
  let ?a = "after_header s"
  obtain m where m: "list_on_disk s = (Ok m, s)" "RBT.lookup m = file_sizes s"
    using list_on_disk_none [OF nf d] by (metis file_sizes_def ext)
  have sr: "sizes_right m ?a"
    using short m(2) by (auto simp: sizes_right_def file_sizes_def size_of_def split: if_splits)
  have ra: "ready ?a" using scan_frame_after_header [of "{}" s] s by (simp add: scan_frame_def)
  have ca: "chain L ?a (ih_next_write_offset (header ?a)) cs r"
    using chain_cong [OF ch, of ?a] by simp
  obtain t where t: "(if ih_next_write_offset (header s) < e then recover_unindexed_blocks L e m else ret ()) ?a
      = (Ok (), t)" "replayed cs ?a t" "ih_next_write_offset (header t) = r"
      "resumes L ?a cs r ?a t"
  proof (cases "ih_next_write_offset (header s) < e")
    case True
    have "scan_stops (file_sizes ?a) ?a e r"
      using st scan_frame_stops [OF scan_frame_after_header [of "{}" s]] by simp
    with recover_unindexed_chain [OF ra sr _ ca re _ nr] m(2) that True show ?thesis by auto
  next
    case False
    then have "r \<le> ih_next_write_offset (header s)" using re by simp
    then have "cs = [] \<and> r = ih_next_write_offset (header s)" by (rule chain_empty [OF ch])
    then show ?thesis using that [of ?a] False by (simp add: io_simps resumes_same)
  qed
  have fr: "scan_frame (heights_of cs) ?a t" using t(2) by (simp add: replayed_def)
  have rt: "ready t" using fr ra by (simp add: scan_frame_def)
  have wt: "whole_entries t" by (rule mended_replayed [OF we t(2)])
  have "height_highwater t = top_height cs (ih_max_height (header s))"
    using t(2) by (simp add: replayed_def)
  then have up: "unat (height_highwater t) < 2 ^ 59" using top by simp
  have nft: "faults t = []" using rt by (simp add: ready_def)
  obtain f where f: "scan_contiguous_floor (ih_highest_contiguous (header t)) t = (Ok f, t)"
    "if height_highwater t < ih_min_height (header t)
     then f = saturating_sub (ih_min_height (header t)) 1
     else floor_spec t (resume_point t (ih_highest_contiguous (header t))) (height_highwater t) f"
    by (rule scan_contiguous_floor_correct [OF nft wt up])
  have pe: "\<not> e < ih_next_write_offset (header s)" using chain_le [OF ch] re by auto
  have "recover L s = (Ok (), settled f t)"
    using m(1) lay [OF m(2)] pe t(1) f(1)
    by (simp add: recover_def io_bind_def io_simps after_header_def settled_def)
  then show ?thesis using that t(2,3,4) rt wt f(2) by blast
qed

section \<open>The layout of the data files\<close>

lemma unat_of_nat_32: "n < 2 ^ 32 \<Longrightarrow> unat (of_nat n :: u32) = n"
  by (simp add: unsigned_of_nat take_bit_nat_eq_self_iff)

lemma validate_layout_last:
  assumes k: "RBT.lookup m k = Some v" and above: "\<And>i. k < i \<Longrightarrow> RBT.lookup m i = None"
    and below: "\<And>i. i < k \<Longrightarrow> RBT.lookup m i \<noteq> None"
  shows "validate_layout cap m s =
    (case cap of
       None \<Rightarrow> if 0 < k then fail InvalidData ''single-file mode but multiple data files present'' s
               else (Ok v, s)
     | Some c \<Rightarrow>
         ok_or (Option.bind (checked_mul (ucast k) c) (\<lambda>t. checked_add t v)) InvalidData
           (''data file total size overflow: max_idx='' @ dec (unat k) @ '' cap='' @ dec (unat c) @
            '' last_size='' @ dec (unat v)) s)"
proof -
  have lk: "last (RBT.keys m) = k"
    using validate_layout_max(1,3) [OF k] above by (metis linorder_not_less order_antisym)
  have "RBT.lookup m (of_nat i) \<noteq> None" if "i < Suc (unat k)" for i
  proof -
    have "unat (of_nat i :: u32) = i" using that unat_lt_32 [of k] by (intro unat_of_nat_32) simp
    then have "(of_nat i :: u32) \<le> k" using that by (simp add: word_le_nat_alt)
    then show ?thesis using below k by (cases "(of_nat i :: u32) = k") auto
  qed
  then have fd: "find (\<lambda>i. RBT.lookup m (of_nat i) = None) [0..<Suc (unat k)] = None"
    by (auto simp: find_None_iff simp del: upt_Suc)
  show ?thesis
  proof (cases cap)
    case None
    then show ?thesis
      using validate_layout_max(2) [OF k] lk fd k below
      by (cases "k = 0") (auto simp: validate_layout_def Let_def io_simps word_gt_0 simp del: upt_Suc)
  next
    case (Some c)
    then show ?thesis
      using validate_layout_max(2) [OF k] lk fd k
      by (simp add: validate_layout_def Let_def io_simps del: upt_Suc)
  qed
qed

lemma validate_layout_none:
  "(\<And>i. RBT.lookup m i = None) \<Longrightarrow> validate_layout cap m s = (Ok 0, s)"
proof -
  assume "\<And>i. RBT.lookup m i = None"
  then have "RBT.lookup m = Map.empty" by (simp add: fun_eq_iff)
  then have "RBT.is_empty m" by (simp add: RBT.is_empty_empty RBT.lookup_empty_empty)
  then show ?thesis by (simp add: validate_layout_def io_simps)
qed

text \<open>
  The files add up to \<open>e\<close> bytes the way the layout has it: every file below the last is there,
  no file exceeds the cap, and the last one ends at \<open>e\<close>.
\<close>

definition file_len :: "'z world_scheme \<Rightarrow> u32 \<Rightarrow> nat" where
  "file_len s i = length (bytes_of s (path_for i))"

definition laid_out :: "'z store_scheme \<Rightarrow> u64 \<Rightarrow> bool" where
  "laid_out s e \<longleftrightarrow>
     dir_ok s \<and>
     (case fs_max_data_file_size s of
        None \<Rightarrow> (\<forall>i. i \<noteq> 0 \<longrightarrow> \<not> is_file s (path_for i)) \<and> file_len s 0 = unat e
      | Some cap \<Rightarrow>
          (let q = unat e div unat cap
           in q < 2 ^ 32 \<and> (\<forall>i. unat i < q \<longrightarrow> is_file s (path_for i)) \<and>
              (\<forall>i. q < unat i \<longrightarrow> \<not> is_file s (path_for i)) \<and>
              (\<forall>i. file_len s i \<le> unat cap) \<and>
              (\<forall>i. unat i = q \<longrightarrow> file_len s i = unat e mod unat cap) \<and>
              (\<forall>i. unat i + 1 = q \<longrightarrow> (\<forall>j. unat j = q \<longrightarrow> \<not> is_file s (path_for j)) \<longrightarrow>
                 file_len s i = unat cap)))"

lemma file_sizes_eq:
  "file_sizes s i = (if is_file s (path_for i) then Some (u64_of_len (file_len s i)) else None)"
  by (simp add: file_sizes_def size_of_def file_len_def)

lemma file_len_absent: "\<not> is_file s (path_for i) \<Longrightarrow> file_len s i = 0"
  by (simp add: file_len_def bytes_of_absent)

lemma u64_of_len_unat [simp]: "u64_of_len (unat w) = w"
  by (simp add: u64_of_len_def)

lemma laid_out_short: "laid_out s e \<Longrightarrow> length (bytes_of s (path_for i)) < 2 ^ 64"
proof (cases "fs_max_data_file_size s")
  case None
  assume t: "laid_out s e"
  show ?thesis
  proof (cases "i = 0")
    case True
    then show ?thesis using t None unat_lt_64 [of "e"] by (simp add: laid_out_def file_len_def)
  next
    case False
    then show ?thesis using t None by (simp add: laid_out_def bytes_of_absent)
  qed
next
  case (Some c)
  assume "laid_out s e"
  then have "file_len s i \<le> unat c" using Some by (simp add: laid_out_def Let_def)
  then show ?thesis using unat_lt_64 [of c] by (simp add: file_len_def)
qed

lemma laid_out_layout:
  assumes t: "laid_out s e" and m: "RBT.lookup m = file_sizes s" and cap: "cap_ok (fs_max_data_file_size s)"
  shows "validate_layout (fs_max_data_file_size s) m v = (Ok (e), v)"
proof (cases "fs_max_data_file_size s")
  case None
  have z: "\<not> is_file s (path_for i)" if "i \<noteq> 0" for i using t None that by (simp add: laid_out_def)
  have l: "file_len s 0 = unat (e)" using t None by (simp add: laid_out_def)
  show ?thesis
  proof (cases "is_file s (path_for 0)")
    case True
    then have "RBT.lookup m 0 = Some (e)" using m l by (simp add: file_sizes_eq)
    moreover have "RBT.lookup m i = None" if "0 < i" for i
      using m z that by (simp add: file_sizes_eq word_gt_0)
    ultimately show ?thesis
      using validate_layout_last [of m 0 "e" None v] None by simp
  next
    case False
    then have "RBT.lookup m i = None" for i using m z by (cases "i = 0") (simp_all add: file_sizes_eq)
    moreover have "e = 0"
      using l file_len_absent [OF False] by (simp add: unat_eq_zero [symmetric])
    ultimately show ?thesis using validate_layout_none [of m "fs_max_data_file_size s" v] by simp
  qed
next
  case (Some c)
  let ?hw = "unat (e)"
  let ?q = "?hw div unat c"
  have c: "0 < unat c" using cap Some by (auto simp: cap_ok_def unat_gt_0)
  have q32: "?q < 2 ^ 32" using t Some by (simp add: laid_out_def Let_def)
  have td: "\<And>i. unat i < ?q \<Longrightarrow> is_file s (path_for i)" "\<And>i. ?q < unat i \<Longrightarrow> \<not> is_file s (path_for i)"
    "\<And>i. unat i = ?q \<Longrightarrow> file_len s i = ?hw mod unat c"
    "\<And>i. unat i + 1 = ?q \<Longrightarrow> (\<And>j. unat j = ?q \<Longrightarrow> \<not> is_file s (path_for j)) \<Longrightarrow> file_len s i = unat c"
    using t Some by (auto simp: laid_out_def Let_def)
  have hw: "?q * unat c + ?hw mod unat c = ?hw" by simp
  have last: "validate_layout (Some c) m v = (Ok (e), v)"
    if k: "is_file s (path_for k)" "\<And>i. k < i \<Longrightarrow> \<not> is_file s (path_for i)"
      "\<And>i. i < k \<Longrightarrow> is_file s (path_for i)" "unat k * unat c + file_len s k = ?hw" for k
  proof -
    have fl: "file_len s k < 2 ^ 64" using laid_out_short [OF t, of k] by (simp add: file_len_def)
    have "unat k * unat c + file_len s k < 2 ^ 64" using k(4) unat_lt_64 [of "e"] by simp
    then have mul: "checked_mul (ucast k) c = Some (ucast k * c)" "unat (ucast k * c) = unat k * unat c"
      by (simp_all add: checked unat_times_fits)
    moreover have "checked_add (ucast k * c) (u64_of_len (file_len s k)) = Some (e)"
      using mul(2) fl k(4) unat_lt_64 [of "e"] by (simp add: checked)
    ultimately show ?thesis
      using validate_layout_last [of m k "u64_of_len (file_len s k)" "Some c" v] m k(1,2,3)
      by (simp add: file_sizes_eq io_simps)
  qed
  show ?thesis
  proof (cases "\<exists>j. unat j = ?q \<and> is_file s (path_for j)")
    case True
    then obtain j where j: "unat j = ?q" "is_file s (path_for j)" by blast
    have "unat j * unat c + file_len s j = ?hw" using j(1) td(3) hw by simp
    then show ?thesis
      using last [of j] j td(1,2) Some by (simp add: word_less_nat_alt)
  next
    case none: False
    show ?thesis
    proof (cases "?q = 0")
      case True
      have "\<not> is_file s (path_for i)" for i
        using none td(2) [of i] True by (metis gr0I)
      then have "RBT.lookup m i = None" for i using m by (simp add: file_sizes_eq)
      moreover have "file_len s 0 = ?hw" using td(3) [of 0] True hw by simp
      then have "e = 0"
        using file_len_absent [of s 0] \<open>\<And>i. \<not> is_file s (path_for i)\<close> by (simp add: unat_eq_zero [symmetric])
      ultimately show ?thesis using validate_layout_none [of m "fs_max_data_file_size s" v] by simp
    next
      case False
      define k :: u32 where "k = of_nat (?q - 1)"
      define j :: u32 where "j = of_nat ?q"
      have k: "unat k + 1 = ?q" and j: "unat j = ?q"
        using False q32 unat_of_nat_32 [of "?q - 1"] unat_of_nat_32 [of ?q]
        unfolding k_def j_def by linarith+
      have aj: "\<not> is_file s (path_for x)" if "unat x = ?q" for x using none that by blast
      have "?hw mod unat c = 0" using td(3) [OF j] file_len_absent [OF aj [OF j]] by simp
      then have "unat k * unat c + file_len s k = ?hw"
        using td(4) [OF k aj] k hw by (metis add.right_neutral add_mult_distrib mult_1)
      moreover have "\<not> is_file s (path_for i)" if "k < i" for i
        using that k aj [of i] td(2) [of i] by (cases "unat i = ?q") (auto simp: word_less_nat_alt)
      moreover have "is_file s (path_for i)" if "i \<le> k" for i
        using that k td(1) [of i] by (simp add: word_le_nat_alt)
      ultimately show ?thesis using last [of k] Some by simp
    qed
  qed
qed

end
