(* ===== verification/Journal.thy ===== *)
theory Journal
  imports CrashSafety Allocation
begin

text \<open>
  The journal a store keeps on disk without writing one: the blocks behind the last checkpoint,
  in the order they were written. Every write that succeeds extends the chain the recovery of
  \<open>CrashSafety\<close> walks, a checkpoint cuts it, so a store whose process ends between two calls
  opens again with the same blocks.
\<close>

section \<open>The files a write touches\<close>

definition files_grow :: "u32 \<Rightarrow> 'z world_scheme \<Rightarrow> 'z world_scheme \<Rightarrow> bool" where
  "files_grow i s t \<longleftrightarrow>
     (\<forall>x. is_file s (path_for x) \<longrightarrow> is_file t (path_for x)) \<and>
     (\<forall>x. x \<noteq> i \<longrightarrow> is_file t (path_for x) \<longrightarrow> is_file s (path_for x)) \<and>
     (\<forall>x. is_dir t (path_for x) \<longrightarrow> is_dir s (path_for x)) \<and> (dir_ok s \<longrightarrow> dir_ok t)"

lemma files_grow_refl [simp]: "files_grow i s s"
  by (simp add: files_grow_def)

lemma files_grow_trans: "files_grow i s t \<Longrightarrow> files_grow i t u \<Longrightarrow> files_grow i s u"
  unfolding files_grow_def by blast

lemma files_grow_data_dir: "data_dir t = data_dir s \<Longrightarrow> files_grow i s t"
  by (simp add: files_grow_def dir_ok_def is_file_def is_dir_def path_for_def)

lemma files_grow_put: "files_grow i s (put_bytes (path_for i) b s)"
proof -
  have "dir_ok (put_bytes (path_for i) b s)" if d: "dir_ok s"
  proof -
    have "distinct (map fst (AList.update (data_file_name i) (RegFile b) (data_dir s)))"
      using d by (simp add: dir_ok_def distinct_update)
    moreover have "n = data_file_name j"
      if "(n, RegFile c) \<in> set (AList.update (data_file_name i) (RegFile b) (data_dir s))"
        "parse_data_file_index n = Some j" for n c j
    proof (cases "n = data_file_name i")
      case True
      then show ?thesis using that(2) by simp
    next
      case False
      have "map_of (AList.update (data_file_name i) (RegFile b) (data_dir s)) n = Some (RegFile c)"
        using that(1) calculation by simp
      then have "map_of (data_dir s) n = Some (RegFile c)" using False by (simp add: update_conv)
      then show ?thesis using d that(2) by (auto simp: dir_ok_def dest: map_of_SomeD)
    qed
    ultimately show ?thesis by (simp add: dir_ok_def put_bytes_def path_for_def)
  qed
  then show ?thesis by (simp add: files_grow_def is_dir_put)
qed

lemma files_grow_log_write: "files_grow i s (log_write (path_for i) off bs s)"
proof (cases "bs = []")
  case False
  have "data_dir (log_write (path_for i) off bs s) =
      data_dir (put_bytes (path_for i) (pwrite (bytes_of s (path_for i)) off bs) s)"
    using False by (simp add: log_write_def)
  then show ?thesis
    using files_grow_trans [OF files_grow_put files_grow_data_dir] by blast
qed (simp add: log_write_def)

lemma files_grow_created: "files_grow i s (created (path_for i) s)"
  by (simp add: created_def files_grow_put)

lemma files_grow_get_or_open:
  assumes "get_or_open i s = (r, t)" shows "files_grow i s t"
  using assms
proof (cases rule: get_or_open_cases)
  case (hit h)
  then show ?thesis by (simp add: files_grow_data_dir)
next
  case (opened h fs u)
  then have "data_dir t = data_dir (created (path_for i) s)" by (simp add: set_inner_eq)
  then show ?thesis using files_grow_trans [OF files_grow_created files_grow_data_dir] by blast
next
  case (lock_failed e fs)
  then have "data_dir t = data_dir (created (path_for i) s)" by simp
  then show ?thesis using files_grow_trans [OF files_grow_created files_grow_data_dir] by blast
next
  case (failed e fs)
  then show ?thesis by (simp add: files_grow_data_dir)
qed

lemma write_data_grows:
  assumes w: "write_data off p hdr s = (r, t)" and inv: "fs_inv s"
    and sp: "split_offset (fs_max_data_file_size s) off = (i, local)"
  shows "files_grow i s t"
proof -
  let ?Q = "\<lambda>t. files_grow i s t"
  have wr: "preserves ?Q (write_all_at (path_for i) b o')" for b o'
  proof (rule preservesI)
    fix v assume v: "?Q v"
    obtain fs k where "snd (write_all_at (path_for i) b o' v) =
        log_write (path_for i) (unat o') (take k b) (v\<lparr>faults := fs\<rparr>)"
      using write_all_at_state [OF prod.collapse [symmetric]] by blast
    moreover have "files_grow i v (v\<lparr>faults := fs\<rparr>)" by (simp add: files_grow_data_dir)
    ultimately show "?Q (snd (write_all_at (path_for i) b o' v))"
      using v files_grow_log_write files_grow_trans by metis
  qed
  have sy: "preserves ?Q (sync_all (path_for i))"
  proof (rule preservesI)
    fix v assume v: "?Q v"
    obtain fs l where "snd (sync_all (path_for i) v) = v\<lparr>faults := fs, io_log := l\<rparr>"
      using sync_all_cases [OF prod.collapse [symmetric]] by blast
    then show "?Q (snd (sync_all (path_for i) v))"
      using files_grow_trans [OF v files_grow_data_dir] by simp
  qed
  obtain r1 u where g: "get_or_open i s = (r1, u)" by fastforce
  have gu: "?Q u" using files_grow_get_or_open [OF g] .
  show ?thesis
  proof (cases r1)
    case (Ok h)
    then have h: "hfile h = path_for i" using g get_or_open_path [OF _ inv] by blast
    let ?m = "io_bind (write_all_at (path_for i) p (local + u64_of_len SERIALIZED_SIZE)) (\<lambda>_.
         io_bind (write_all_at (path_for i) (serialize hdr) local) (\<lambda>_.
         io_bind (gets sync) (\<lambda>mode. if mode = Sync then sync_all (path_for i) else ret ())))"
    have "preserves ?Q ?m" using wr sy by (intro pres) auto
    moreover have "?m u = (r, t)"
      using w g Ok h sp by (simp add: write_data_def fs_resolve_eq io_bind_def [of "fs_resolve _"]
          io_bind_def [of "get_or_open _"] io_simps cong: if_cong)
    ultimately show ?thesis using preservesD [of ?Q ?m] gu by blast
  qed (use w g sp gu in \<open>auto simp: write_data_def fs_resolve_eq io_bind_def [of "fs_resolve _"]
          io_bind_def [of "get_or_open _"] io_simps\<close>)
qed

section \<open>Chains under a write\<close>

lemma chain_append:
  "chain L s p cs q \<Longrightarrow> chain L s q ds r \<Longrightarrow> chain L s p (cs @ ds) r"
proof (induction rule: chain.induct)
  case (chain_end p)
  then show ?case by simp
next
  case (chain_block p i local fsize h sz block slot q cs r)
  then show ?case using chain.chain_block [of s p i local fsize L h sz block slot q "cs @ ds"] by simp
next
  case (chain_skip c p i local fsize q cs r)
  then show ?case using chain.chain_skip [of s c p i local fsize q L "cs @ ds"] by simp
qed

text \<open>
  A block of a chain lies within one file, since no file is longer than the cap; what is written
  behind the chain leaves it as it is.
\<close>

lemma valid_block_placed:
  assumes v: "valid_block_at L s p h sz block" and sp: "split_offset (fs_max_data_file_size s) p = (i, local)"
    and lt: "\<And>c. fs_max_data_file_size s = Some c \<Longrightarrow> unat p div unat c < 2 ^ 32"
    and short: "\<And>c i. fs_max_data_file_size s = Some c \<Longrightarrow> file_len s i \<le> unat c"
  shows "unsplit s p (22 + unat sz)" and "length (region s p (22 + unat sz)) = 22 + unat sz"
    and "unat local + (22 + unat sz) \<le> file_len s i"
proof -
  show len: "length (region s p (22 + unat sz)) = 22 + unat sz"
    using v by (simp add: valid_block_at_def Let_def)
  then show fits: "unat local + (22 + unat sz) \<le> file_len s i"
    by (simp add: region_eq [OF sp] file_len_def)
  show "unsplit s p (22 + unat sz)"
  proof (cases "fs_max_data_file_size s")
    case (Some c)
    have "unat local = unat p mod unat c"
      using unat_split_offset(2) [OF _ lt [OF Some]] sp Some by simp
    then show ?thesis using fits short [OF Some, of i] Some by (simp add: unsplit_def)
  qed (simp add: unsplit_def)
qed

lemma chain_kept:
  assumes ch: "chain L s p cs r"
    and hd: "header t = header s" and mx: "fs_max_data_file_size t = fs_max_data_file_size s"
    and rg: "\<And>p n. unsplit s p n \<Longrightarrow> length (region s p n) = n \<Longrightarrow> 0 < n \<Longrightarrow> unat p + n \<le> unat r \<Longrightarrow>
      region t p n = region s p n"
    and stay: "\<And>x. is_file s (path_for x) \<Longrightarrow> is_file t (path_for x)"
    and sealed: "\<And>c x. fs_max_data_file_size s = Some c \<Longrightarrow> 0 < unat c \<Longrightarrow> (unat x + 1) * unat c \<le> unat r \<Longrightarrow>
      file_sizes t x = file_sizes s x"
    and lt: "\<And>c. fs_max_data_file_size s = Some c \<Longrightarrow> unat r div unat c < 2 ^ 32"
    and short: "\<And>c i. fs_max_data_file_size s = Some c \<Longrightarrow> file_len s i \<le> unat c"
  shows "chain L t p cs r"
proof -
  have stay': "\<exists>z. file_sizes t x = Some z" if "file_sizes s x = Some y" for x y
    using that stay by (auto simp: file_sizes_eq split: if_splits)
  have "chain L t p cs r'" if "chain L s p cs r'" "r' = r" for r'
    using that
  proof (induction rule: chain.induct)
    case (chain_end p)
    then show ?case by (simp add: chain.chain_end)
  next
    case (chain_block p j l fsize h sz block slot q cs r')
    have pq: "unat p + (22 + unat sz) \<le> unat r"
      using chain_block.hyps(5) chain_le [OF chain_block.hyps(6)] chain_block.prems
      by (simp add: word_le_nat_alt)
    have ltp: "unat p div unat c < 2 ^ 32" if "fs_max_data_file_size s = Some c" for c
      using lt [OF that] div_le_mono [of "unat p" "unat r" "unat c"] pq by linarith
    note pl = valid_block_placed [OF chain_block.hyps(3,1) ltp short]
    have "region t p (22 + unat sz) = region s p (22 + unat sz)"
      by (rule rg [OF pl(1,2) _ pq]) simp_all
    then have "valid_block_at L t p h sz block"
      using chain_block.hyps(3) by (simp add: valid_block_at_def)
    moreover obtain z where "file_sizes t j = Some z" using stay' chain_block.hyps(2) by blast
    ultimately show ?case
      using chain.chain_block [of t p j l z L h sz block slot q cs r'] chain_block mx hd
      by (simp add: index_entry_offset_header [of t s])
  next
    case (chain_skip c p j l fsize q cs r')
    have "(unat j + 1) * unat c \<le> unat r"
      using chain_le [OF chain_skip.hyps(9)] chain_skip.prems chain_skip.hyps(8) by (simp add: word_le_nat_alt)
    then have "file_sizes t j = Some fsize" using sealed [OF chain_skip.hyps(1)] chain_skip.hyps(2,4) by (simp add: unat_gt_0)
    then show ?case
      using chain.chain_skip [of t c p j l fsize q L cs r'] chain_skip mx by simp
  qed
  then show ?thesis using ch by blast
qed

lemma chain_grows:
  assumes ch: "chain L s p cs r" and le: "unat r \<le> unat off"
    and dw: "data_written i (unat local) hb pb s t" and gr: "files_grow i s t"
    and sp: "split_offset (fs_max_data_file_size s) off = (i, local)"
    and lt: "\<And>c. fs_max_data_file_size s = Some c \<Longrightarrow> unat off div unat c < 2 ^ 32"
    and short: "\<And>c i. fs_max_data_file_size s = Some c \<Longrightarrow> file_len s i \<le> unat c"
  shows "chain L t p cs r"
proof (rule chain_kept [OF ch])
  show "header t = header s" "fs_max_data_file_size t = fs_max_data_file_size s"
    using dw store_fields(2) [of t s] by (simp_all add: data_written_def)
  show "is_file s (path_for x) \<Longrightarrow> is_file t (path_for x)" for x using gr by (simp add: files_grow_def)
  show "region t p n = region s p n"
    if "unsplit s p n" "length (region s p n) = n" "0 < n" "unat p + n \<le> unat r" for p n
    by (rule region_kept [OF dw sp _ that(1,2,3) lt]) (use that(4) le in simp_all)
  show "file_sizes t x = file_sizes s x"
    if c: "fs_max_data_file_size s = Some c" "0 < unat c" and x: "(unat x + 1) * unat c \<le> unat r" for c x
  proof -
    have "unat i = unat off div unat c"
      using unat_split_offset(1) [of c off] lt [OF c(1)] sp c by simp
    moreover have "unat x + 1 \<le> unat off div unat c"
      using x le c(2) by (simp add: less_eq_div_iff_mult_less_eq)
    ultimately have "x \<noteq> i" by auto
    then show ?thesis using dw gr by (auto simp: file_sizes_def data_written_def files_grow_def)
  qed
  show "unat r div unat c < 2 ^ 32" if "fs_max_data_file_size s = Some c" for c
    using lt [OF that] div_le_mono [OF le, of "unat c"] by linarith
qed (rule short)

section \<open>The layout under a write\<close>

lemma laid_out_Some:
  assumes "laid_out s e" and "fs_max_data_file_size s = Some c"
  shows "unat e div unat c < 2 ^ 32" "\<And>i. unat i < unat e div unat c \<Longrightarrow> is_file s (path_for i)"
    "\<And>i. unat e div unat c < unat i \<Longrightarrow> \<not> is_file s (path_for i)"
    "\<And>i. file_len s i \<le> unat c" "\<And>i. unat i = unat e div unat c \<Longrightarrow> file_len s i = unat e mod unat c"
  using assms by (simp_all add: laid_out_def Let_def)

lemma place_for_next:
  assumes "place_for (Some c) hw n \<noteq> hw" and "n \<le> unat c" and "0 < unat c"
  shows "place_for (Some c) hw n = (hw div unat c + 1) * unat c" and "hw mod unat c \<noteq> 0"
  using assms by (auto simp: place_for_def split: if_splits)

text \<open>A block goes to the end of its file.\<close>

lemma reserved_at_end:
  assumes lay: "laid_out s (data_highwater s)" and cap: "cap_ok (fs_max_data_file_size s)"
    and off: "unat off = place_for (fs_max_data_file_size s) (unat (data_highwater s)) n"
    and fit: "\<And>c. fs_max_data_file_size s = Some c \<Longrightarrow> n \<le> unat c \<and> unat off div unat c < 2 ^ 32"
    and sp: "split_offset (fs_max_data_file_size s) off = (i, local)"
  shows "file_len s i = unat local"
proof (cases "fs_max_data_file_size s")
  case None
  then show ?thesis using lay off sp by (simp add: laid_out_def place_for_def)
next
  case (Some c)
  let ?hw = "unat (data_highwater s)"
  have c: "0 < unat c" using cap Some by (auto simp: cap_ok_def unat_gt_0)
  have i: "unat i = unat off div unat c" "unat local = unat off mod unat c"
    using unat_split_offset [of c off i local] sp fit [OF Some] Some by simp_all
  show ?thesis
  proof (cases "unat off = ?hw")
    case True
    then show ?thesis using laid_out_Some(5) [OF lay Some, of i] i by simp
  next
    case False
    then have "place_for (Some c) ?hw n = (?hw div unat c + 1) * unat c"
      using place_for_next(1) off fit [OF Some] c Some by simp
    then have "unat off = (?hw div unat c + 1) * unat c" using off Some by simp
    then have "unat i = ?hw div unat c + 1" "unat local = 0" using i c by simp_all
    then show ?thesis using laid_out_Some(3) [OF lay Some, of i] file_len_absent by simp
  qed
qed

lemma laid_out_grown:
  assumes lay: "laid_out s (data_highwater s)" and cap: "cap_ok (fs_max_data_file_size s)"
    and off: "unat off = place_for (fs_max_data_file_size s) (unat (data_highwater s)) n"
    and fit: "\<And>c. fs_max_data_file_size s = Some c \<Longrightarrow> n \<le> unat c \<and> unat off div unat c < 2 ^ 32 \<and>
        unat local + n \<le> unat c \<and> unat e div unat c < 2 ^ 32"
    and sp: "split_offset (fs_max_data_file_size s) off = (i, local)"
    and e: "unat e = unat off + m" "m \<le> n" and mx: "fs_max_data_file_size t = fs_max_data_file_size s"
    and gr: "files_grow i s t" and ti: "is_file t (path_for i)" "file_len t i = unat local + m"
    and others: "\<And>x. x \<noteq> i \<Longrightarrow> file_len t x = file_len s x"
  shows "laid_out t e"
proof (cases "fs_max_data_file_size s")
  case None
  then show ?thesis
    using lay off sp e mx gr ti(2) by (auto simp: laid_out_def place_for_def files_grow_def)
next
  case (Some c)
  let ?c = "unat c" and ?hw = "unat (data_highwater s)"
  have c: "0 < ?c" using cap Some by (auto simp: cap_ok_def unat_gt_0)
  have i: "unat i = unat off div ?c" "unat local = unat off mod ?c"
    using unat_split_offset [of c off i local] sp fit [OF Some] Some by simp_all
  note l = laid_out_Some [OF lay Some]
  have qi: "?hw div ?c \<le> unat i" "unat i \<le> ?hw div ?c + 1"
    and mid: "unat i = ?hw div ?c \<or> ?hw mod ?c \<noteq> 0"
  proof -
    have "unat i = ?hw div ?c \<or> unat i = ?hw div ?c + 1 \<and> ?hw mod ?c \<noteq> 0"
    proof (cases "unat off = ?hw")
      case False
      then show ?thesis
        using place_for_next [of c ?hw n] off fit [OF Some] c i Some by simp
    qed (use i in simp)
    then show "?hw div ?c \<le> unat i" "unat i \<le> ?hw div ?c + 1" "unat i = ?hw div ?c \<or> ?hw mod ?c \<noteq> 0"
      by auto
  qed
  have lm: "unat local + m \<le> ?c" using fit [OF Some] e(2) by linarith
  have ee: "unat e = unat i * ?c + (unat local + m)" using i e(1) by simp
  have full: "unat e div ?c = unat i + 1 \<and> unat e mod ?c = 0" if "unat local + m = ?c"
    using ee that c by simp
  have part: "unat e div ?c = unat i \<and> unat e mod ?c = unat local + m" if "unat local + m \<noteq> ?c"
    using ee that lm c by simp
  have qe: "unat i \<le> unat e div ?c" "unat e div ?c \<le> unat i + 1" using full part by fastforce+
  have gone: "\<not> is_file t (path_for x)" if "unat i < unat x" for x
    using that l(3) [of x] gr qi(1) by (auto simp: files_grow_def)
  have below: "is_file t (path_for x)" if x: "unat x < unat e div ?c" for x
  proof (cases "x = i")
    case False
    then have "unat x < unat i" using x qe(2) by (auto simp: word_unat_eq_iff)
    then have "unat x < ?hw div ?c \<or> unat x = ?hw div ?c \<and> ?hw mod ?c \<noteq> 0" using qi mid by auto
    then have "is_file s (path_for x)" using l(2) l(5) [of x] file_len_absent [of s x] by fastforce
    then show ?thesis using gr by (simp add: files_grow_def)
  qed (use ti in simp)
  have short: "file_len t x \<le> ?c" for x using others [of x] l(4) [of x] ti(2) lm by (cases "x = i") simp_all
  have at_end: "file_len t x = unat e mod ?c" if x: "unat x = unat e div ?c" for x
  proof (cases "unat local + m = ?c")
    case True
    then show ?thesis using full gone [of x] x file_len_absent [of t x] by simp
  next
    case False
    then have "x = i" using part x by (simp add: word_unat_eq_iff)
    then show ?thesis using part [OF False] ti(2) by simp
  qed
  have last: "file_len t x = ?c"
    if x: "unat x + 1 = unat e div ?c" "\<And>j. unat j = unat e div ?c \<Longrightarrow> \<not> is_file t (path_for j)" for x
  proof (cases "unat local + m = ?c")
    case True
    then have "x = i" using full x(1) by (simp add: word_unat_eq_iff)
    then show ?thesis using ti(2) True by simp
  next
    case False
    then show ?thesis using part x(2) [of i] ti(1) by simp
  qed
  have "dir_ok t" using lay gr by (simp add: laid_out_def files_grow_def)
  moreover have "\<not> is_file t (path_for x)" if "unat e div ?c < unat x" for x using gone that qe(1) by simp
  ultimately show ?thesis
    using Some mx fit [OF Some] below short at_end last by (auto simp: laid_out_def Let_def)
qed

section \<open>A write that succeeds\<close>

lemma write_Ok_commit:
  assumes w: "write_block L h block s = (Ok (), t)" and inv: "fs_inv s"
  obtains payload len slot n off new i local u fs where
    "write_request L s h block payload len slot n"
    "reserve_space n s = (Ok (off, new, data_highwater s), s\<lparr>data_highwater := new\<rparr>)"
    "split_offset (fs_max_data_file_size s) off = (i, local)"
    "data_written i (unat local) (serialize (block_header_of L h block len)) payload
       (s\<lparr>data_highwater := new\<rparr>) u" "files_grow i s u"
    "finish_write h new (log_write IndexFile (unat slot)
       (encode_entry \<lparr>ie_offset = off, ie_size = len, ie_reserved = 0\<rparr>) (u\<lparr>faults := fs\<rparr>)) = (Ok (), t)"
    "faults s = [] \<Longrightarrow> fs = []"
  using w
proof (cases rule: write_block_cases)
  case (requested payload len slot n)
  from requested inv show ?thesis
  proof (cases rule: write_stages)
    case (reserved off new i local j k u)
    let ?s = "s\<lparr>data_highwater := new\<rparr>"
    have "fs_inv ?s" "split_offset (fs_max_data_file_size ?s) off = (i, local)"
      using reserved(2) inv by simp_all
    then have "files_grow i ?s (snd (write_data off payload (block_header_of L h block len) ?s))"
      by (rule write_data_grows [OF prod.collapse [symmetric]])
    then have "files_grow i ?s u" by (simp only: reserved(5))
    moreover have "files_grow i s ?s" by (rule files_grow_data_dir) simp
    ultimately have "files_grow i s u" by (blast intro: files_grow_trans)
    moreover from reserved(4) obtain fs where "k = length payload" "j = 22"
      "finish_write h new (log_write IndexFile (unat slot)
         (encode_entry \<lparr>ie_offset = off, ie_size = len, ie_reserved = 0\<rparr>) (u\<lparr>faults := fs\<rparr>)) = (Ok (), t)"
      "faults s = [] \<Longrightarrow> fs = []"
      by (auto simp: Let_def)
    ultimately show ?thesis using that [OF requested(1) reserved(1,2)] reserved(3) by simp
  qed simp
qed simp

text \<open>What the end of a write does to the header on disk: nothing, or a checkpoint.\<close>

lemma contig_only_fields:
  assumes "contig_only s t"
  shows "bytes_of t = bytes_of s" "header t = header s" "height_highwater t = height_highwater s"
    "whole_entries t = whole_entries s"
proof -
  obtain fs m where t: "t = s\<lparr>faults := fs, max_contiguous_height := m\<rparr>"
    using assms unfolding contig_only_def by metis
  then show "bytes_of t = bytes_of s" "header t = header s" "height_highwater t = height_highwater s"
    by (simp_all add: fun_eq_iff)
  then show "whole_entries t = whole_entries s" by (simp add: whole_entries_def)
qed

lemma checkpoint_Ok:
  assumes c: "checkpoint off s = (Ok (), t)"
  obtains fs l where "t = (log_write IndexFile 0 (encode_header ((header s)
      \<lparr>ih_next_write_offset := off, ih_max_height := height_highwater s,
       ih_highest_contiguous := max_contiguous_height s\<rparr>)) (s\<lparr>faults := fs, io_log := l\<rparr>))
      \<lparr>last_checkpoint_offset := off\<rparr>"
proof -
  let ?sync = "if sync s = Sync then sync_all IndexFile else ret ()"
  obtain r1 v where sy: "?sync s = (r1, v)" by fastforce
  have "\<exists>fs l. v = s\<lparr>faults := fs, io_log := l\<rparr>"
  proof (cases "sync s")
    case Async
    then have "v = s\<lparr>faults := faults s, io_log := io_log s\<rparr>" using sy by (simp add: io_simps)
    then show ?thesis by blast
  next
    case Sync
    then have "sync_all IndexFile s = (r1, v)" using sy by simp
    then show ?thesis by (rule sync_all_cases) blast
  qed
  then obtain fs l where v: "v = s\<lparr>faults := fs, io_log := l\<rparr>" by blast
  have r1: "r1 = Ok ()" using c sy by (cases r1) (auto simp: checkpoint_def io_simps io_bind_def split: if_splits)
  let ?h = "(header s)\<lparr>ih_next_write_offset := off, ih_max_height := height_highwater s,
       ih_highest_contiguous := max_contiguous_height s\<rparr>"
  obtain r2 u where wr: "write_all_at IndexFile (encode_header ?h) 0 v = (r2, u)" by fastforce
  have "r2 = Ok () \<and> t = u\<lparr>last_checkpoint_offset := off\<rparr>"
    using c sy r1 wr v by (cases r2) (auto simp: checkpoint_def io_simps io_bind_def split: if_splits)
  moreover from this wr obtain gs where "u = log_write IndexFile (unat (0 :: u64)) (encode_header ?h) (v\<lparr>faults := gs\<rparr>)"
    by (auto elim: write_all_at_OkE)
  moreover have "v\<lparr>faults := gs\<rparr> = s\<lparr>faults := gs, io_log := l\<rparr>" by (simp add: v)
  ultimately show ?thesis using that [of l gs] by simp
qed

lemma checkpoint_header:
  assumes "checkpoint off s = (Ok (), t)"
  shows "disk_header t = (header s)\<lparr>ih_next_write_offset := off, ih_max_height := height_highwater s,
       ih_highest_contiguous := max_contiguous_height s\<rparr>"
    and "height_highwater t = height_highwater s" and "whole_entries s \<Longrightarrow> whole_entries t"
proof -
  from assms obtain fs l where t: "t = (log_write IndexFile 0 (encode_header ((header s)
      \<lparr>ih_next_write_offset := off, ih_max_height := height_highwater s,
       ih_highest_contiguous := max_contiguous_height s\<rparr>)) (s\<lparr>faults := fs, io_log := l\<rparr>))
      \<lparr>last_checkpoint_offset := off\<rparr>" by (rule checkpoint_Ok)
  show "disk_header t = (header s)\<lparr>ih_next_write_offset := off, ih_max_height := height_highwater s,
       ih_highest_contiguous := max_contiguous_height s\<rparr>"
    unfolding t by (simp add: disk_header_def zread_pwrite_same)
  show "height_highwater t = height_highwater s" unfolding t by simp
  assume "whole_entries s"
  then have "whole_entries (s\<lparr>faults := fs, io_log := l\<rparr>)" by (simp add: whole_entries_def)
  then have "whole_entries (log_write IndexFile 0 bs (s\<lparr>faults := fs, io_log := l\<rparr>))"
    if "length bs = 64" for bs using whole_entries_header that by blast
  then show "whole_entries t" unfolding t by (simp add: whole_entries_def)
qed

lemma finish_write_Ok:
  assumes f: "finish_write h off s = (Ok (), t)"
  obtains (plain) "disk_header t = disk_header s" "height_highwater t = max (height_highwater s) h"
      "whole_entries s \<Longrightarrow> whole_entries t"
    | (checkpointed) "ih_next_write_offset (disk_header t) = off"
      "ih_max_height (disk_header t) = height_highwater t"
      "ih_min_height (disk_header t) = ih_min_height (header s)"
      "ih_max_data_file_size (disk_header t) = ih_max_data_file_size (header s)"
      "height_highwater t = max (height_highwater s) h"
      "whole_entries s \<Longrightarrow> whole_entries t"
proof -
  let ?u = "advance_max_contiguous_height h s"
  let ?v = "if height_highwater ?u < h then ?u\<lparr>height_highwater := h\<rparr> else ?u"
  note u = contig_only_fields [OF advance_contig [of s h]]
  have v: "bytes_of ?v = bytes_of s" "header ?v = header s" "height_highwater ?v = max (height_highwater s) h"
    "whole_entries ?v = whole_entries s"
    using u by (auto simp: max_def whole_entries_def)
  from f have "maybe_checkpoint h (height_highwater ?u < h) off ?v = (Ok (), t)"
    by (simp add: finish_write_eq Let_def)
  then show ?thesis
  proof (cases rule: maybe_checkpoint_cases)
    case taken
    note hd = checkpoint_header [OF taken]
    have we: "whole_entries t" if "whole_entries s" using hd(3) that v(4) by blast
    show ?thesis by (rule checkpointed) (use hd(1,2) v we in simp_all)
  next
    case skipped
    then show ?thesis using v by (intro plain) (simp_all add: disk_header_def)
  qed
qed

section \<open>The journal\<close>

text \<open>
  The blocks \<open>cs\<close> behind the checkpoint on disk lead to the high-water mark and the index agrees
  with them. The heights stay below \<open>2 ^ 59\<close>, where the offset of an index entry and of the
  chunk that follows it fit in 64 bits.
\<close>

definition journal :: "libs \<Rightarrow> 'z store_scheme \<Rightarrow> found_block list \<Rightarrow> bool" where
  "journal L s cs \<longleftrightarrow>
     fs_inv s \<and> (\<forall>i. \<not> is_dir s (path_for i)) \<and> laid_out s (data_highwater s) \<and>
     whole_entries s \<and> effective_max (disk_header s) = fs_max_data_file_size s \<and>
     effective_max (header s) = fs_max_data_file_size s \<and>
     ih_min_height (disk_header s) = ih_min_height (header s) \<and>
     chain L s (ih_next_write_offset (disk_header s)) cs (data_highwater s) \<and> index_agrees cs s \<and>
     top_height cs (ih_max_height (disk_header s)) \<le> height_highwater s \<and>
     unat (height_highwater s) < 2 ^ 59"

lemma laid_out_addressable: "laid_out s (data_highwater s) \<Longrightarrow> addressable s"
  by (auto simp: laid_out_def addressable_def Let_def split: option.splits)

lemma effective_max_cong:
  "ih_max_data_file_size a = ih_max_data_file_size b \<Longrightarrow> effective_max a = effective_max b"
  by (simp add: effective_max_def)

lemma top_height_append: "top_height (cs @ ds) m = top_height ds (top_height cs m)"
  by (simp add: top_height_def)

lemma last_found_snoc:
  "last_found (cs @ [(h, p, sz)]) k = (if k = h then Some (p, sz) else last_found cs k)"
  by (simp add: last_found_def)

text \<open>The chain goes over the unused tail of a file.\<close>

lemma chain_over_tail:
  assumes c: "fs_max_data_file_size t = Some c" and c0: "0 < unat c"
    and jl: "split_offset (Some c) hw = (j, l)" and fz: "file_sizes t j = Some l"
    and off: "unat off = (unat hw div unat c + 1) * unat c" and small: "unat off div unat c < 2 ^ 32"
    and lt: "unat off + 22 < 2 ^ 64"
  shows "chain L t hw [] off"
proof -
  let ?c = "unat c"
  have q: "unat hw div ?c + 1 < 2 ^ 32" using small off c0 by simp
  have j: "unat j = unat hw div ?c" "unat l = unat hw mod ?c"
    using unat_split_offset [OF jl] q by simp_all
  have "unat l + 22 < 2 ^ 64"
  proof -
    have "?c \<le> unat off" using off by simp
    moreover have "unat l < ?c" using j(2) c0 by simp
    ultimately show ?thesis using lt by linarith
  qed
  from unat_header_end [OF this] have "l < saturating_add l (u64_of_len SERIALIZED_SIZE)"
    by (simp add: word_less_nat_alt)
  moreover have "unat hw < unat off"
    using off dividend_less_div_times [OF c0, of "unat hw"] by (simp add: mult.commute)
  moreover have "c \<noteq> 0" using c0 by auto
  ultimately show ?thesis
    using chain.chain_skip [OF c _ jl fz _ _ _ _ chain.chain_end] off j q by simp
qed

text \<open>
  The chain behind a write reaches the place of the block: over the tail of a file, if the block
  went to the next one.
\<close>

lemma chain_to_place:
  assumes lay: "laid_out s (data_highwater s)" and cap: "cap_ok (fs_max_data_file_size s)"
    and off: "unat off = place_for (fs_max_data_file_size s) (unat (data_highwater s)) n"
    and fit: "\<And>c. fs_max_data_file_size s = Some c \<Longrightarrow> n \<le> unat c \<and> unat off div unat c < 2 ^ 32"
    and sp: "split_offset (fs_max_data_file_size s) off = (i, local)"
    and lt: "unat off + 22 < 2 ^ 64" and mx: "fs_max_data_file_size t = fs_max_data_file_size s"
    and others: "\<And>x. x \<noteq> i \<Longrightarrow> file_sizes t x = file_sizes s x"
  shows "chain L t (data_highwater s) [] off"
proof (cases "unat off = unat (data_highwater s)")
  case True
  then have "off = data_highwater s" by (rule word_unat_eq_iff [THEN iffD2])
  then show ?thesis by (simp add: chain.chain_end)
next
  case False
  then obtain c where c: "fs_max_data_file_size s = Some c" using off by (auto simp: place_for_def split: option.splits)
  let ?c = "unat c" and ?hw = "data_highwater s"
  have c0: "0 < ?c" using cap c by (auto simp: cap_ok_def unat_gt_0)
  have nxt: "unat off = (unat ?hw div ?c + 1) * ?c" "unat ?hw mod ?c \<noteq> 0"
    using place_for_next [of c "unat ?hw" n] False off fit [OF c] c c0 by simp_all
  obtain j l where jl: "split_offset (Some c) ?hw = (j, l)" by fastforce
  have j: "unat j = unat ?hw div ?c" "unat l = unat ?hw mod ?c"
    using unat_split_offset [OF jl] fit [OF c] nxt(1) c0 by simp_all
  have "unat i = unat ?hw div ?c + 1"
    using unat_split_offset(1) [of c off i local] sp c fit [OF c] nxt(1) c0 by simp
  then have "j \<noteq> i" using j by auto
  moreover have len: "file_len s j = unat l" using laid_out_Some(5) [OF lay c] j by simp
  then have "is_file s (path_for j)" using nxt(2) j file_len_absent [of s j] by auto
  ultimately have "file_sizes t j = Some l" using others [of j] len by (simp add: file_sizes_eq)
  then show ?thesis using chain_over_tail [OF _ c0 jl _ nxt(1) _ lt] fit [OF c] mx c by simp
qed

lemma chain_of_write:
  assumes lay: "laid_out s (data_highwater s)" and cap: "cap_ok (fs_max_data_file_size s)"
    and off: "unat off = place_for (fs_max_data_file_size s) (unat (data_highwater s)) (22 + unat len)"
    and fit: "\<And>c. fs_max_data_file_size s = Some c \<Longrightarrow> 22 + unat len \<le> unat c \<and> unat off div unat c < 2 ^ 32"
    and sp: "split_offset (fs_max_data_file_size s) off = (i, local)"
    and new: "unat new = unat off + 22 + unat len"
    and mx: "fs_max_data_file_size t = fs_max_data_file_size s"
    and others: "\<And>x. x \<noteq> i \<Longrightarrow> file_sizes t x = file_sizes s x"
    and here: "file_sizes t i = Some fsize" and v: "valid_block_at L t off h len block"
    and slot: "index_entry_offset t h = Some slot"
  shows "chain L t (data_highwater s) [(h, off, len)] new"
proof -
  have lt: "unat off + 22 < 2 ^ 64" using new unat_lt_64 [of new] by simp
  have "chain L t (data_highwater s) [] off"
    by (rule chain_to_place [OF lay cap off _ sp lt mx]) (use fit others in blast)+
  moreover have "chain L t off [(h, off, len)] new"
    using chain.chain_block [OF _ here v slot _ chain.chain_end] sp mx new by simp
  ultimately have "chain L t (data_highwater s) ([] @ [(h, off, len)]) new" by (rule chain_append)
  then show ?thesis by simp
qed

lemma file_sizes_cong:
  "(\<And>x. bytes_of t (path_for x) = bytes_of s (path_for x)) \<Longrightarrow> data_dir t = data_dir s \<Longrightarrow>
     file_sizes t = file_sizes s"
  by (rule ext) (simp add: file_sizes_def is_file_def path_for_def)

lemma laid_out_cong:
  assumes "\<And>x. bytes_of t (path_for x) = bytes_of s (path_for x)" and "data_dir t = data_dir s"
    and "fs_max_data_file_size t = fs_max_data_file_size s"
  shows "laid_out t e = laid_out s e"
proof -
  have "is_file t (path_for x) = is_file s (path_for x)" "file_len t x = file_len s x" for x
    using assms(1,2) by (simp_all add: is_file_def path_for_def file_len_def)
  moreover have "dir_ok t = dir_ok s" using assms(2) by (simp add: dir_ok_def)
  ultimately show ?thesis using assms(3) by (simp add: laid_out_def Let_def split: option.split)
qed

lemma written_block_valid:
  assumes acc: "acceptable L s block" and q: "write_request L s h block payload len slot n"
    and dw: "data_written i (unat local) (serialize (block_header_of L h block len)) payload
       (s\<lparr>data_highwater := new\<rparr>) u"
    and sp: "split_offset (fs_max_data_file_size s) off = (i, local)"
  shows "valid_block_at L u off h len block"
proof -
  note qs = q [unfolded write_request_def]
  have c: "payload \<noteq> []" "length payload \<le> 2 ^ 30" "decompress L payload = Ok block"
    using acc qs compress_nonempty [of L block payload] decompress_compress [of L block payload]
    by (simp_all add: acceptable_def)
  have "region u off (22 + unat len) = serialize (block_header_of L h block len) @ payload"
    using region_written [OF dw] sp qs by simp
  moreover have "len \<noteq> 0" using c(1) qs by auto
  moreover have "len \<le> MAX_BLOCK_SIZE" using c(2) qs by (simp add: MAX_BLOCK_SIZE_def word_le_nat_alt)
  ultimately show ?thesis using c(3) qs by (simp add: valid_block_at_def)
qed

lemma index_agrees_Nil [simp]: "index_agrees [] s"
  by (simp add: index_agrees_def last_found_def)

text \<open>The data of the block: the files stay laid out, and the chain reaches the new mark.\<close>

lemma data_written_extends:
  assumes inv: "fs_inv s" "laid_out s (data_highwater s)" and acc: "acceptable L s block"
    and q: "write_request L s h block payload len slot n"
    and rs: "reserve_space n s = (Ok (off, new, data_highwater s), s\<lparr>data_highwater := new\<rparr>)"
    and sp: "split_offset (fs_max_data_file_size s) off = (i, local)"
    and dw: "data_written i (unat local) (serialize (block_header_of L h block len)) payload
       (s\<lparr>data_highwater := new\<rparr>) u" and gr: "files_grow i s u" and ad: "addressable u"
  shows "laid_out u new"
    and "chain L s p cs (data_highwater s) \<Longrightarrow> chain L u p (cs @ [(h, off, len)]) new"
proof -
  let ?s = "s\<lparr>data_highwater := new\<rparr>"
  note qs = q [unfolded write_request_def]
  have cap: "cap_ok (fs_max_data_file_size s)" using inv by (simp add: fs_inv_def)
  have n: "unat n = 22 + unat len" and slot: "index_entry_offset s h = Some slot"
    and pl: "length payload = unat len" using qs by simp_all
  note p = placed_reserved [OF rs inv(1)]
  have new: "unat new = unat off + 22 + unat len" using p(2) n by simp
  have place: "unat off = place_for (fs_max_data_file_size s) (unat (data_highwater s)) (22 + unat len)"
    using reserve_space_place [OF rs cap] n by simp
  have uf: "header u = header s" "fs_max_data_file_size u = fs_max_data_file_size s" "data_highwater u = new"
    using dw store_fields(1,2) [of u ?s] by (simp_all add: data_written_def)
  have ub: "bytes_of u f = (if f = path_for i
      then torn (bytes_of s f) (unat local) (serialize (block_header_of L h block len)) payload
      else bytes_of s f)" for f
    using dw by (simp add: data_written_def)
  have fit: "22 + unat len \<le> unat c \<and> unat off div unat c < 2 ^ 32 \<and> unat local + (22 + unat len) \<le> unat c \<and>
      unat new div unat c < 2 ^ 32"
    if c: "fs_max_data_file_size s = Some c" for c
  proof -
    have o: "unat off div unat c < 2 ^ 32" using p(5) [OF c laid_out_addressable [OF inv(2)]] .
    have "unat local = unat off mod unat c" using unat_split_offset(2) [OF _ o] sp c by simp
    then show ?thesis using o p(4) n c ad uf by (simp add: unsplit_def addressable_def)
  qed
  have "file_len s i = unat local" by (rule reserved_at_end [OF inv(2) cap place _ sp]) (use fit in blast)
  then have grown: "file_len u i = unat local + (22 + unat len)"
    using pl by (cases payload) (simp_all add: file_len_def ub torn_def length_pwrite)
  then have ui: "is_file u (path_for i)" using file_len_absent [of u i] by fastforce
  have uo: "file_len u x = file_len s x" if "x \<noteq> i" for x using that by (simp add: file_len_def ub)
  show "laid_out u new"
    by (rule laid_out_grown [OF inv(2) cap place _ sp _ _ uf(2) gr, where m = "22 + unat len"])
      (use fit new ui grown uo in auto)
  have uos: "file_sizes u x = file_sizes s x" if "x \<noteq> i" for x
    using that gr uo [OF that] by (auto simp: file_sizes_eq files_grow_def)
  have vb: "valid_block_at L u off h len block" by (rule written_block_valid [OF acc q dw sp])
  have "file_sizes u i = Some (u64_of_len (file_len u i))" using ui by (simp add: file_sizes_eq)
  moreover have "index_entry_offset u h = Some slot"
    using slot by (simp add: index_entry_offset_header [OF uf(1)])
  ultimately have tail: "chain L u (data_highwater s) [(h, off, len)] new"
    by (intro chain_of_write [OF inv(2) cap place _ sp new uf(2) uos _ vb]) (use fit in blast)
  assume ch: "chain L s p cs (data_highwater s)"
  have "chain L ?s p cs (data_highwater s)"
  proof (rule chain_cong [OF ch])
    show "file_sizes ?s = file_sizes s" by (rule ext) (simp add: file_sizes_def is_file_def path_for_def)
  qed simp_all
  moreover have "files_grow i ?s u"
    by (rule files_grow_trans [OF files_grow_data_dir gr]) simp
  moreover have "file_len ?s x = file_len s x" for x by (simp add: file_len_def)
  ultimately have "chain L u p cs (data_highwater s)"
    using chain_grows [of L ?s p cs "data_highwater s" off i local _ _ u] p(3) dw sp fit
      laid_out_Some(4) [OF inv(2)] by auto
  from chain_append [OF this tail] show "chain L u p (cs @ [(h, off, len)]) new" .
qed

text \<open>The index entry of the block, and what follows it: the other entries and the header stay.\<close>

lemma index_step:
  assumes slot: "index_entry_offset s h = Some slot" and dw: "data_written i local hb pb s u"
    and v: "v = log_write IndexFile (unat slot) (encode_entry e) (u\<lparr>faults := fs\<rparr>)"
    and bk: "bookkeeping v t" and sl: "index_entry_offset s k = Some sl"
  shows "entry_at t sl = (if k = h then e else entry_at s sl)"
proof -
  have "entry_at t sl = entry_at v sl" by (rule bookkeeping_entry_at [OF bk index_entry_offset_ge [OF sl]])
  also have "\<dots> = (if k = h then e else entry_at s sl)"
  proof (cases "k = h")
    case True
    then show ?thesis using sl slot by (simp add: v entry_written)
  next
    case False
    then have "unat slot + 16 \<le> unat sl \<or> unat sl + 16 \<le> unat slot"
      using index_slots_apart [OF slot sl] by blast
    then have "entry_at v sl = entry_at u sl" unfolding v by (subst entry_kept) auto
    then show ?thesis using False entry_at_data_written [OF dw] by simp
  qed
  finally show ?thesis .
qed

lemma index_step_header:
  assumes slot: "index_entry_offset s h = Some slot" and dw: "data_written i local hb pb s u"
    and v: "v = log_write IndexFile (unat slot) (encode_entry e) (u\<lparr>faults := fs\<rparr>)"
  shows "whole_entries s \<Longrightarrow> whole_entries v" and "disk_header v = disk_header s"
    and "header v = header s" and "height_highwater v = height_highwater s"
proof -
  have ix: "bytes_of u IndexFile = bytes_of s IndexFile" using dw by (simp add: data_written_def)
  show "disk_header v = disk_header s"
    using index_entry_offset_ge [OF slot] by (simp add: disk_header_def v zread_pwrite_other ix)
  show "header v = header s" "height_highwater v = height_highwater s"
    using dw store_fields(2,5) [of u s] by (simp_all add: v data_written_def)
  assume "whole_entries s"
  then have "whole_entries (u\<lparr>faults := fs\<rparr>)" by (simp add: whole_entries_def ix)
  from whole_entries_pwrite [OF slot_dvd [OF slot] _ this] show "whole_entries v" by (simp add: v)
qed

text \<open>A write that succeeds keeps the journal, extending it or cutting it at a checkpoint.\<close>

lemma journal_write:
  assumes j: "journal L s cs" and acc: "acceptable L s block" and small: "unat h < 2 ^ 59"
    and w: "write_block L h block s = (Ok (), t)" and ad: "addressable t"
  shows "\<exists>cs'. journal L t cs'"
proof -
  have inv: "fs_inv s" "laid_out s (data_highwater s)" using j by (simp_all add: journal_def)
  from w inv(1) obtain payload len slot n off new i local u fs where
    q: "write_request L s h block payload len slot n" and
    rs: "reserve_space n s = (Ok (off, new, data_highwater s), s\<lparr>data_highwater := new\<rparr>)" and
    sp: "split_offset (fs_max_data_file_size s) off = (i, local)" and
    dw: "data_written i (unat local) (serialize (block_header_of L h block len)) payload
       (s\<lparr>data_highwater := new\<rparr>) u" and gr: "files_grow i s u" and
    fw: "finish_write h new (log_write IndexFile (unat slot)
       (encode_entry \<lparr>ie_offset = off, ie_size = len, ie_reserved = 0\<rparr>) (u\<lparr>faults := fs\<rparr>)) = (Ok (), t)"
    by (rule write_Ok_commit) blast
  let ?s = "s\<lparr>data_highwater := new\<rparr>"
  let ?e = "\<lparr>ie_offset = off, ie_size = len, ie_reserved = 0\<rparr>"
  let ?cs = "cs @ [(h, off, len)]" and ?p = "ih_next_write_offset (disk_header s)"
  define v where "v = log_write IndexFile (unat slot) (encode_entry ?e) (u\<lparr>faults := fs\<rparr>)"
  note fw = fw [folded v_def]
  have bk: "bookkeeping v t" by (rule finish_write_bookkeeping(1) [OF fw])
  have slot: "index_entry_offset ?s h = Some slot"
    using q index_entry_offset_header [of ?s s] by (simp add: write_request_def)
  note ix = index_step_header [OF slot dw v_def]
  have u: "addressable u" "data_highwater u = new" "header u = header s"
    "fs_max_data_file_size u = fs_max_data_file_size s"
    using ad bk dw store_fields(1,2) [of u ?s]
    by (auto simp: data_written_def bookkeeping_def same_blocks_def v_def addressable_def split: option.splits)
  note ext = data_written_extends [OF inv acc q rs sp dw gr u(1)]
  have tu: "bytes_of t (path_for x) = bytes_of u (path_for x)" "data_dir t = data_dir u"
    "header t = header s" "fs_max_data_file_size t = fs_max_data_file_size s" "data_highwater t = new" for x
    using bk u by (simp_all add: bookkeeping_def same_blocks_def v_def)
  have gt: "files_grow i s t" by (rule files_grow_trans [OF gr files_grow_data_dir [OF tu(2)]])
  have lay: "laid_out t (data_highwater t)"
    using ext(1) laid_out_cong [OF tu(1,2), of new] u(4) tu(4,5) by simp
  have ch: "chain L t ?p ?cs (data_highwater t)"
    using chain_cong [OF ext(2) [OF _], of ?p cs t] j tu u file_sizes_cong [OF tu(1,2)]
    by (simp add: journal_def)
  have agr: "index_agrees ?cs t"
    using j index_step [OF slot dw v_def bk] index_entry_offset_header [of ?s s]
      index_entry_offset_header [OF tu(3)]
    unfolding index_agrees_def journal_def last_found_snoc by (auto split: if_splits)
  note common = write_block_fs_inv(1) [OF w inv(1)] lay tu(3,4) ix
  have nd: "\<not> is_dir t (path_for x)" for x using j gt by (auto simp: journal_def files_grow_def)
  have we: "whole_entries v" using ix(1) j by (simp add: journal_def whole_entries_def)
  have top: "height_highwater t = max (height_highwater s) h \<Longrightarrow> unat (height_highwater t) < 2 ^ 59"
    using j small by (simp add: journal_def max_def)
  from fw show ?thesis
  proof (cases rule: finish_write_Ok)
    case plain
    have d: "disk_header t = disk_header s" using plain(1) ix(2) by (simp add: disk_header_def)
    have "top_height ?cs (ih_max_height (disk_header s)) \<le> height_highwater t"
      using j plain(2) ix(4) by (auto simp: journal_def top_height_append top_height_def max_def)
    then have "journal L t ?cs"
      using j plain common nd d we top ch agr by (simp add: journal_def)
    then show ?thesis ..
  next
    case checkpointed
    have "effective_max (disk_header t) = effective_max (header s)"
      using checkpointed(4) ix(3) by (intro effective_max_cong) simp
    then have "journal L t []"
      using j checkpointed common nd we top chain.chain_end [of L t new] tu(5)
      by (simp add: journal_def top_height_def)
    then show ?thesis ..
  qed
qed

end
