(* ===== verification/Reopen.thy ===== *)
theory Reopen
  imports Journal
begin

text \<open>
  Closing, losing and opening a store: what \<open>open\<close> does on every kind of directory, and that
  a store whose process ends between two calls, with or without \<open>Drop\<close>, opens again with the
  blocks it had.
\<close>

section \<open>A running store\<close>

text \<open>
  The store holds the lock of its index through the descriptor it opened, and no lock is held
  but through the descriptors it keeps.
\<close>

definition alive :: "'z store_scheme \<Rightarrow> bool" where
  "alive s \<longleftrightarrow>
     fs_inv s \<and> own_locks s \<and> faults s = [] \<and>
     (\<forall>n. (IndexFile, n) \<in> set (locks s) \<longrightarrow> n = fd (index_file s))"

lemma alive_cong:
  "fs_inner t = fs_inner s \<Longrightarrow> locks t = locks s \<Longrightarrow> next_fd t = next_fd s \<Longrightarrow>
     fs_max_data_file_size t = fs_max_data_file_size s \<Longrightarrow> index_file t = index_file s \<Longrightarrow>
     faults t = faults s \<Longrightarrow> alive t = alive s"
  by (simp add: alive_def cong: fs_inv_cong own_locks_cong)

lemma alive_log_write [simp]: "alive (log_write f off bs s) = alive s"
  by (rule alive_cong) simp_all

lemma alive_io_log [simp]: "alive (s\<lparr>io_log := l\<rparr>) = alive s"
  by (rule alive_cong) simp_all

lemma alive_faults: "alive s \<Longrightarrow> faults s = []"
  by (simp add: alive_def)

lemma alive_get_or_open:
  assumes "get_or_open i s = (r, t)" and "alive s" shows "alive t"
proof -
  have "same_files s t" by (rule get_or_open_same_files [OF assms(1)])
  then have "index_file t = index_file s" by (intro index_file_more) (simp add: same_files_def)
  then show ?thesis
    using assms get_or_open_fs_inv [OF assms(1)] get_or_open_own_locks [OF assms(1)]
      get_or_open_faults [OF _ assms(1)] get_or_open_index_locks [OF assms(1)]
    by (auto simp: alive_def)
qed

lemma preserves_alive_calls [pres]:
  "preserves alive (read_at f n off)" "preserves alive (write_all_at f bs off)"
  "preserves alive (sync_all f)" "preserves alive (fs_resolve off)"
proof -
  show "preserves alive (read_at f n off)" "preserves alive (write_all_at f bs off)"
    "preserves alive (sync_all f)"
    by (rule preservesI; simp add: alive_faults)+
  show "preserves alive (fs_resolve off)"
  proof (rule preservesI)
    fix s :: "'z store_scheme" assume s: "alive s"
    obtain i l where sp: "split_offset (fs_max_data_file_size s) off = (i, l)" by fastforce
    obtain r u where g: "get_or_open i s = (r, u)" by fastforce
    then have "alive u" using alive_get_or_open s by blast
    then show "alive (snd (fs_resolve off s))"
      using sp g by (cases r) (simp_all add: fs_resolve_eq io_bind_def io_simps)
  qed
qed

lemma alive_updates [simp]:
  "alive (s\<lparr>data_highwater := x\<rparr>) = alive s" "alive (s\<lparr>height_highwater := x\<rparr>) = alive s"
  "alive (s\<lparr>max_contiguous_height := x\<rparr>) = alive s" "alive (s\<lparr>last_checkpoint_offset := x\<rparr>) = alive s"
  by (rule alive_cong; simp)+

lemma alive_contig: "contig_only s t \<Longrightarrow> alive s \<Longrightarrow> alive t"
proof -
  assume c: "contig_only s t" and a: "alive s"
  then have "faults t = []" by (simp add: contig_only_def alive_def)
  moreover obtain fs m where "t = s\<lparr>faults := fs, max_contiguous_height := m\<rparr>"
    using c unfolding contig_only_def by metis
  ultimately have "t = s\<lparr>faults := [], max_contiguous_height := m\<rparr>" by simp
  moreover have "s\<lparr>faults := []\<rparr> = s" using alive_faults [OF a] by simp
  ultimately have "t = s\<lparr>max_contiguous_height := m\<rparr>" by simp
  then show "alive t" using a by simp
qed

lemma preserves_alive_steps [pres]:
  "preserves alive (update_highwater h)" "preserves alive (modify (advance_max_contiguous_height h))"
  by (auto simp: preserves_def update_highwater_def io_simps intro: alive_contig [OF advance_contig])

lemma preserves_alive_checkpoint [pres]: "preserves alive (checkpoint off)"
  unfolding checkpoint_def by (intro pres) auto

lemma preserves_alive_write: "preserves alive (write_block L h block)"
  unfolding write_block_def reserve_space_def write_data_def update_index_at_def maybe_checkpoint_def
    advance_to_next_file_def Let_def
  by (intro pres) (auto simp: release_reservation_def)

lemma preserves_alive_read: "preserves alive (read_block L h)"
  unfolding read_block_def read_index_entry_def deserialize_def read_exact_at_def
  by (intro pres)

section \<open>Opening\<close>

text \<open>The world a dead or closed store leaves: its files, and no lock.\<close>

lemma world_of_alive:
  assumes "alive s"
  shows "locks (world_of s) = []" "faults (world_of s) = []" "idx_file (world_of s) = idx_file s"
    "data_dir (world_of s) = data_dir s" "bytes_of (world_of s) = bytes_of s"
    "is_file (world_of s) = is_file s" "is_dir (world_of s) = is_dir s"
proof -
  have "(f, m) \<notin> set (locks s)" if "m \<notin> fd ` set (index_file s # map snd (handles (fs_inner s)))" for f m
  proof
    assume l: "(f, m) \<in> set (locks s)"
    show False
    proof (cases "f = IndexFile")
      case True
      then show False using l that assms by (auto simp: alive_def)
    next
      case False
      then obtain i h where h: "inner_lookup (fs_inner s) i = Some h" "fd h = m"
        using assms l unfolding alive_def own_locks_def by blast
      then show False using that lookup_in_handles [OF h(1)] by force
    qed
  qed
  then show "locks (world_of s) = []"
    by (auto simp: world_of_def Let_def close_handles_eq filter_empty_conv)
  show w: "faults (world_of s) = []" "idx_file (world_of s) = idx_file s" "data_dir (world_of s) = data_dir s"
    using assms by (simp_all add: world_of_def Let_def close_handles_eq alive_def)
  show "bytes_of (world_of s) = bytes_of s" "is_file (world_of s) = is_file s" "is_dir (world_of s) = is_dir s"
    using w by (auto simp: fun_eq_iff bytes_of_def is_file_def is_dir_def split: file_id.split)
qed

text \<open>An index that is there, unlocked and long enough is opened and its header read.\<close>

definition header_read :: "store_options \<Rightarrow> world \<Rightarrow> index_file_header \<Rightarrow> store" where
  "header_read opts w hdr =
     initial_store opts \<lparr>fd = next_fd w, hfile = IndexFile\<rparr> hdr
       (w\<lparr>next_fd := Suc (next_fd w), locks := [(IndexFile, next_fd w)]\<rparr>)"

lemma prepare_index_existing:
  assumes "faults w = []" and "locks w = []" and "64 \<le> length (bytes_of w IndexFile)"
    and "\<not> opt_truncate opts" and "opt_max_data_files opts \<noteq> 0"
  shows "prepare_index opts w = (Ok (\<lparr>fd = next_fd w, hfile = IndexFile\<rparr>, disk_header w),
     w\<lparr>next_fd := Suc (next_fd w), locks := [(IndexFile, next_fd w)]\<rparr>)"
proof -
  have f: "is_file w IndexFile" using assms(3) bytes_of_absent [of w IndexFile] by fastforce
  let ?v = "w\<lparr>next_fd := Suc (next_fd w)\<rparr>"
  have o: "open_file IndexFile False False w = (Ok \<lparr>fd = next_fd w, hfile = IndexFile\<rparr>, ?v)"
    using assms(1) f by (simp add: open_file_def is_dir_def)
  have "fill_buf (encode_header default_header) (pread (bytes_of w IndexFile) 0 64) =
      zread (bytes_of w IndexFile) 0 64"
    using assms(3) by (simp add: fill_buf_def zread_pread)
  then show ?thesis
    using assms o by (simp add: prepare_index_def io_bind_def io_simps on_err_def try_lock_def
        disk_header_def header_size_def)
qed

lemma header_read_simps [simp]:
  "bytes_of (header_read opts w hdr) = bytes_of w" "header (header_read opts w hdr) = hdr"
  "fs_max_data_file_size (header_read opts w hdr) = effective_max hdr"
  "is_file (header_read opts w hdr) = is_file w" "is_dir (header_read opts w hdr) = is_dir w"
  "data_dir (header_read opts w hdr) = data_dir w"
  "data_highwater (header_read opts w hdr) = ih_next_write_offset hdr"
  by (auto simp: header_read_def initial_store_def fun_eq_iff bytes_of_def is_file_def is_dir_def
      split: file_id.split)

lemma ready_header_read:
  assumes "faults w = []" and "\<And>i. \<not> is_dir w (path_for i)"
  shows "ready (header_read opts w hdr)"
proof -
  have "fs_inv (header_read opts w hdr)" "own_locks (header_read opts w hdr)"
    "faults (header_read opts w hdr) = []"
    using assms(1) by (simp_all add: fs_inv_def own_locks_def cap_ok_def effective_max_def
        header_read_def initial_store_def new_inner_def inner_lookup_def lru_inv_def)
  then show ?thesis using assms(2) by (simp add: ready_def)
qed

lemma open_store_existing:
  assumes "faults w = []" and "locks w = []" and "64 \<le> length (bytes_of w IndexFile)"
    and "\<not> opt_truncate opts" and "opt_max_data_files opts \<noteq> 0"
    and "recover L (header_read opts w (disk_header w)) = (Ok (), t)"
  shows "open_store L opts w = Opened t"
  using prepare_index_existing [OF assms(1-5)] assms(4,6)
  by (simp add: open_store_def header_read_def Let_def)

text \<open>
  What the header on disk says after recovery: a suffix \<open>bs\<close> of the chain would be walked again.
\<close>

definition replays :: "libs \<Rightarrow> 'z store_scheme \<Rightarrow> found_block list \<Rightarrow> u64 \<Rightarrow> bool" where
  "replays L t cs r \<longleftrightarrow>
     effective_max (header t) = fs_max_data_file_size t \<and>
     effective_max (disk_header t) = fs_max_data_file_size t \<and>
     ih_min_height (disk_header t) = ih_min_height (header t) \<and>
     (\<exists>bs. chain L t (ih_next_write_offset (disk_header t)) bs r \<and>
        (\<forall>h x. last_found bs h = Some x \<longrightarrow> last_found cs h = Some x) \<and>
        top_height bs (ih_max_height (disk_header t)) = height_highwater t)"

lemma last_found_append: "last_found (as @ bs) = last_found as ++ last_found bs"
  by (simp add: last_found_def)

lemma resumes_replays:
  assumes rs: "resumes L s cs r s t" and fr: "scan_frame hs s t" and d: "disk_header s = header s"
    and mx: "effective_max (header s) = fs_max_data_file_size s"
    and ch: "chain L s (ih_next_write_offset (header s)) cs r"
    and hh: "height_highwater t = top_height cs (height_highwater s)" "height_highwater s = ih_max_height (header s)"
  shows "replays L t cs r"
proof -
  have f: "bytes_of t (path_for i) = bytes_of s (path_for i)" "fs_max_data_file_size t = fs_max_data_file_size s"
    "data_dir t = data_dir s" "(header t)\<lparr>ih_next_write_offset := 0, ih_max_height := 0\<rparr> =
       (header s)\<lparr>ih_next_write_offset := 0, ih_max_height := 0\<rparr>" for i
    using fr by (simp_all add: scan_frame_def)
  note h = header_kept [OF f(4)]
  have ch': "chain L t p bs r" if "chain L s p bs r" for p bs
    by (rule chain_cong [OF that]) (use f h file_sizes_cong [of t s] in simp_all)
  have mt: "effective_max (header t) = fs_max_data_file_size t"
    using effective_max_cong [OF h(4)] mx f(2) by simp
  show ?thesis
  proof (cases "disk_header t = disk_header s")
    case True
    then show ?thesis using mt mx f(2) d h(1) ch' [OF ch] hh by (auto simp: replays_def)
  next
    case False
    then obtain as bs where bs: "cs = as @ bs" "chain L s (ih_next_write_offset (disk_header t)) bs r"
      "ih_max_height (disk_header t) = top_height as (height_highwater s)"
      "(disk_header t)\<lparr>ih_next_write_offset := 0, ih_max_height := 0\<rparr> =
         (header s)\<lparr>ih_next_write_offset := 0, ih_max_height := 0\<rparr>"
      using rs unfolding resumes_def by blast
    note k = header_kept [OF bs(4)]
    have "effective_max (disk_header t) = fs_max_data_file_size t"
      using effective_max_cong [OF k(4)] mx f(2) by simp
    moreover have "top_height bs (ih_max_height (disk_header t)) = height_highwater t"
      using hh(1) bs(1,3) by (simp add: top_height_append)
    moreover have "last_found cs h = Some x" if "last_found bs h = Some x" for h x
      using that bs(1) by (simp add: last_found_append)
    ultimately show ?thesis using mt k(1) h(1) ch' [OF bs(2)] by (auto simp: replays_def)
  qed
qed

lemma replays_cong:
  assumes "bytes_of t = bytes_of s" and "data_dir t = data_dir s" and "header t = header s"
    and "fs_max_data_file_size t = fs_max_data_file_size s" and "height_highwater t = height_highwater s"
    and "replays L s cs r"
  shows "replays L t cs r"
proof -
  have "chain L t p bs r" if "chain L s p bs r" for p bs
    by (rule chain_cong [OF that]) (use assms file_sizes_cong [of t s] in simp_all)
  moreover have "disk_header t = disk_header s" using assms(1) by (simp add: disk_header_def)
  ultimately show ?thesis using assms(3-6) by (auto simp: replays_def)
qed

lemma alive_held: "alive s \<longleftrightarrow> fs_inv s \<and> own_locks s \<and> faults s = [] \<and> index_held s"
  by (simp add: alive_def index_held_def)

text \<open>
  The store the files of \<open>s\<close> open as: the scan walks the chain, stops behind it, and every block
  of the chain is in the index afterwards.
\<close>

lemma reopen_chain:
  assumes a: "alive s" and d: "\<And>i. \<not> is_dir s (path_for i)" and lay0: "laid_out s e"
    and we: "mended cs s" and mx: "effective_max (disk_header s) = fs_max_data_file_size s"
    and mn: "ih_min_height (disk_header s) = ih_min_height (header s)"
    and ch0: "chain L s (ih_next_write_offset (disk_header s)) cs r" and re: "r \<le> e"
    and st0: "scan_stops (file_sizes s) s e r" and nr: "e \<le> r \<or> unat r + 22 < 2 ^ 64"
    and top: "unat (top_height cs (ih_max_height (disk_header s))) < 2 ^ 59"
    and opts: "\<not> opt_truncate opts" "opt_max_data_files opts \<noteq> 0"
  obtains t where "open_store L opts (world_of s) = Opened t" "ready t" "recovered t" "data_highwater t = r"
    "\<And>i. bytes_of t (path_for i) = bytes_of s (path_for i)"
    "fs_max_data_file_size t = fs_max_data_file_size s" "index_entry_offset t = index_entry_offset s"
    "\<And>h slot. index_entry_offset s h = Some slot \<Longrightarrow> entry_at t slot =
       (case last_found cs h of Some (p, sz) \<Rightarrow> \<lparr>ie_offset = p, ie_size = sz, ie_reserved = 0\<rparr>
        | None \<Rightarrow> entry_at s slot)"
    "ih_min_height (header t) = ih_min_height (header s)"
    "if height_highwater t < ih_min_height (header t)
     then max_contiguous_height t = saturating_sub (ih_min_height (header t)) 1
     else floor_spec t (resume_point t (ih_highest_contiguous (header t))) (height_highwater t)
            (max_contiguous_height t)"
    "replays L t cs r" "alive t" "data_dir t = data_dir s" "whole_entries t"
    "height_highwater t = top_height cs (ih_max_height (disk_header s))"
proof -
  let ?w = "world_of s" and ?d = "disk_header s"
  note w = world_of_alive [OF a]
  have dw: "disk_header ?w = ?d" using w(5) by (simp add: disk_header_def)
  define s0 where "s0 = header_read opts ?w ?d"
  have s0: "bytes_of s0 = bytes_of s" "header s0 = ?d" "fs_max_data_file_size s0 = fs_max_data_file_size s"
    "data_dir s0 = data_dir s"
    using w mx by (simp_all add: s0_def)
  have mh: "ih_min_height (header s0) = ih_min_height (header s)" using mn s0(2) by simp
  have r0: "ready s0" unfolding s0_def by (rule ready_header_read) (use w d in simp_all)
  have lay: "laid_out s0 e" using lay0 laid_out_cong [of s0 s] s0 by simp
  then have d0: "dir_ok s0" by (simp add: laid_out_def)
  have "index_entry_offset s0 = index_entry_offset s" using index_entry_offset_min [OF mh] by (simp add: fun_eq_iff)
  then have w0: "mended cs s0" using we s0(1) mended_cong [of s0 s] by simp
  have fz: "file_sizes s0 = file_sizes s" by (rule file_sizes_cong) (use s0 in simp_all)
  have ch: "chain L s0 (ih_next_write_offset (header s0)) cs r"
    by (rule chain_cong [where s = s]) (use ch0 s0 mh fz in simp_all)
  have cap0: "cap_ok (fs_max_data_file_size s0)" using a s0(3) by (simp add: alive_def fs_inv_def)
  have rg: "region s0 = region s" by (intro ext region_cong) (simp_all add: s0)
  have rj: "rejected_header s0 = rejected_header s" by (simp add: rejected_header_def fun_eq_iff mh)
  have st: "scan_stops (file_sizes s0) s0 e r"
    using st0 unfolding scan_stops_def rg rj fz s0(3) .
  have top0: "unat (top_height cs (ih_max_height (header s0))) < 2 ^ 59" using top s0(2) by simp
  obtain t f where t: "recover L s0 = (Ok (), settled f t)" "replayed cs (after_header s0) t"
    "ih_next_write_offset (header t) = r" "ready t" "whole_entries t"
    "resumes L (after_header s0) cs r (after_header s0) t"
    "if height_highwater t < ih_min_height (header t)
     then f = saturating_sub (ih_min_height (header t)) 1
     else floor_spec t (resume_point t (ih_highest_contiguous (header t))) (height_highwater t) f"
    by (rule recover_over_chain [OF r0 d0 w0 laid_out_short [OF lay] laid_out_layout [OF lay _ cap0]
          ch re st nr top0])
  have fr: "scan_frame (heights_of cs) (after_header s0) t" using t(2) by (simp add: replayed_def)
  have en: "entry_at s0 = entry_at s" using s0(1) by (simp add: entry_at_def fun_eq_iff)
  have sl: "index_entry_offset s0 = index_entry_offset s"
    using index_entry_offset_min [OF mh] by (simp add: fun_eq_iff)
  have ea: "entry_at (after_header s0) = entry_at s0" "index_entry_offset (after_header s0) = index_entry_offset s0"
    by (simp_all add: after_header_def entry_at_def index_entry_offset_def fun_eq_iff)
  have off: "index_entry_offset (settled f t) = index_entry_offset s"
    using scan_frame_slot [OF fr] ea(2) sl by (simp add: fun_eq_iff)
  have ent: "entry_at (settled f t) slot =
      (case last_found cs h of Some (p, sz) \<Rightarrow> \<lparr>ie_offset = p, ie_size = sz, ie_reserved = 0\<rparr>
       | None \<Rightarrow> entry_at s slot)" if h: "index_entry_offset s h = Some slot" for h slot
  proof (cases "last_found cs h")
    case None
    then have "h \<notin> heights_of cs" by (simp add: last_found_None)
    then show ?thesis using None h fr ea en sl by (simp add: scan_frame_def)
  next
    case (Some x)
    then show ?thesis using h t(2) ea sl by (cases x) (simp add: replayed_def)
  qed
  have "open_store L opts ?w = Opened (settled f t)"
    by (rule open_store_existing) (use w mended_long [OF we] opts t(1) dw in \<open>simp_all add: s0_def\<close>)
  moreover have "present (settled f t) = present t"
    by (simp add: fun_eq_iff present_def split: option.split)
  then have fl: "floor_spec (settled f t) = floor_spec t" "resume_point (settled f t) = resume_point t"
    by (simp_all add: fun_eq_iff floor_spec_def resume_point_def)
  moreover have "ih_min_height (header t) = ih_min_height (header s)"
    using scan_frame_min [OF fr] mh by simp
  moreover have "fs_max_data_file_size t = fs_max_data_file_size s" "bytes_of t (path_for i) = bytes_of s (path_for i)" for i
    using fr s0 by (simp_all add: scan_frame_def)
  moreover have tk: "data_dir t = data_dir s" "height_highwater t = top_height cs (ih_max_height ?d)"
    using fr t(2) s0 by (simp_all add: scan_frame_def replayed_def after_header_def)
  moreover have "replays L (settled f t) cs r"
  proof (rule replays_cong)
    have "disk_header (after_header s0) = header (after_header s0)" using s0 by (simp add: disk_header_def)
    moreover have "chain L (after_header s0) (ih_next_write_offset (header (after_header s0))) cs r"
      using chain_cong [OF ch, of "after_header s0"] by simp
    ultimately show "replays L t cs r"
      using resumes_replays [OF t(6) fr] t(2) mx s0 by (simp add: replayed_def)
  qed (simp_all add: settled_def)
  moreover have "alive (settled f t)"
  proof -
    have "index_held s0" by (simp add: s0_def header_read_def initial_store_def index_held_def)
    then have "index_held (after_header s0)" by (simp add: after_header_def index_held_def)
    then have "index_held t" using fr by (simp add: scan_frame_def)
    then have "index_held (settled f t)" by (simp add: settled_def index_held_def)
    then show ?thesis using t(4) ready_settled [of f t] by (simp add: alive_held ready_def)
  qed
  moreover have "data_dir (settled f t) = data_dir t" "whole_entries (settled f t) = whole_entries t"
    by (simp_all add: settled_def whole_entries_def)
  moreover have "if height_highwater (settled f t) < ih_min_height (header (settled f t))
     then max_contiguous_height (settled f t) = saturating_sub (ih_min_height (header (settled f t))) 1
     else floor_spec (settled f t) (resume_point (settled f t) (ih_highest_contiguous (header (settled f t))))
            (height_highwater (settled f t)) (max_contiguous_height (settled f t))"
    using t(7) fl by simp
  ultimately show ?thesis using t(3,4,5) off ent by (intro that [of "settled f t"]) simp_all
qed

text \<open>
  The store a journal opens as: the same blocks, the same end of the data, and a contiguity
  floor that the index bears out.
\<close>

lemma reopen_journal:
  assumes j: "journal L s cs" and a: "alive s"
    and opts: "\<not> opt_truncate opts" "opt_max_data_files opts \<noteq> 0"
  obtains t where "open_store L opts (world_of s) = Opened t" "ready t" "recovered t"
    "data_highwater t = data_highwater s" "\<And>K h. peek K t h = peek K s h"
    "\<And>h. entry_ok t h = entry_ok s h" "alive t" "\<exists>cs'. journal L t cs'"
    "fs_max_data_file_size t = fs_max_data_file_size s" "index_entry_offset t = index_entry_offset s"
proof -
  note js = j [unfolded journal_def]
  obtain t where t: "open_store L opts (world_of s) = Opened t" "ready t" "recovered t"
    "data_highwater t = data_highwater s" "\<And>i. bytes_of t (path_for i) = bytes_of s (path_for i)"
    "fs_max_data_file_size t = fs_max_data_file_size s" "index_entry_offset t = index_entry_offset s"
    "\<And>h slot. index_entry_offset s h = Some slot \<Longrightarrow> entry_at t slot =
       (case last_found cs h of Some (p, sz) \<Rightarrow> \<lparr>ie_offset = p, ie_size = sz, ie_reserved = 0\<rparr>
        | None \<Rightarrow> entry_at s slot)"
    "ih_min_height (header t) = ih_min_height (header s)"
    "replays L t cs (data_highwater s)" "alive t" "data_dir t = data_dir s" "whole_entries t"
    "height_highwater t = top_height cs (ih_max_height (disk_header s))"
    by (rule reopen_chain [where s = s and cs = cs, OF a _ _ _ _ _ _ order_refl])
      (use js opts in \<open>auto simp: scan_stops_def word_le_nat_alt mended_def\<close>)
  have en: "entry_at t slot = entry_at s slot" if "index_entry_offset s h = Some slot" for h slot
    using t(8) [OF that] js that by (auto simp: index_agrees_def split: option.split)
  have "peek K t h = peek K s h" "entry_ok t h = entry_ok s h" for K h
    by (rule peek_cong entry_ok_cong; use t(4-7) en in simp)+
  moreover have "\<exists>cs'. journal L t cs'"
  proof -
    obtain bs where bs: "chain L t (ih_next_write_offset (disk_header t)) bs (data_highwater s)"
      "\<And>h x. last_found bs h = Some x \<Longrightarrow> last_found cs h = Some x"
      "top_height bs (ih_max_height (disk_header t)) = height_highwater t"
      and m: "effective_max (header t) = fs_max_data_file_size t"
      "effective_max (disk_header t) = fs_max_data_file_size t"
      "ih_min_height (disk_header t) = ih_min_height (header t)"
      using t(10) unfolding replays_def by blast
    have "laid_out t (data_highwater t)" using js laid_out_cong [OF t(5,12,6)] t(4) by simp
    moreover have "index_agrees bs t"
      unfolding index_agrees_def using bs(2) t(7,8) by (auto split: option.splits)
    moreover have "unat (height_highwater t) < 2 ^ 59"
      using t(14) js by (auto simp: word_le_nat_alt)
    ultimately have "journal L t bs"
      using m bs t(2,4,13) by (simp add: journal_def ready_def)
    then show ?thesis ..
  qed
  ultimately show ?thesis using that t by blast
qed

section \<open>Closing\<close>

lemma journal_parts:
  assumes j: "journal L s cs" and bk: "bookkeeping s t" and we: "whole_entries t"
    and hh: "height_highwater t = height_highwater s"
  shows "disk_header t = disk_header s \<Longrightarrow> journal L t cs"
    and "effective_max (disk_header t) = fs_max_data_file_size s \<Longrightarrow>
      ih_min_height (disk_header t) = ih_min_height (header s) \<Longrightarrow>
      ih_next_write_offset (disk_header t) = data_highwater s \<Longrightarrow>
      ih_max_height (disk_header t) = height_highwater s \<Longrightarrow> journal L t []"
proof -
  have t: "header t = header s" "fs_max_data_file_size t = fs_max_data_file_size s"
    "data_highwater t = data_highwater s" "data_dir t = data_dir s"
    "\<And>x. bytes_of t (path_for x) = bytes_of s (path_for x)" "fs_inv t = fs_inv s"
    "\<And>x. is_dir t (path_for x) = is_dir s (path_for x)"
    using bk bookkeeping_fs_inv(1) [OF bk] by (simp_all add: bookkeeping_def same_blocks_def)
  have lay: "laid_out t e = laid_out s e" for e by (rule laid_out_cong) (use t in simp_all)
  have ch: "chain L t p cs r" if "chain L s p cs r" for p r
    by (rule chain_cong [OF that]) (use t file_sizes_cong [of t s] in simp_all)
  have "index_agrees cs t"
    using j bookkeeping_entry_at [OF bk index_entry_offset_ge] index_entry_offset_header [OF t(1)]
    unfolding index_agrees_def journal_def by metis
  then show "disk_header t = disk_header s \<Longrightarrow> journal L t cs"
    using j t we hh lay ch by (simp add: journal_def)
  show "journal L t []"
    if "effective_max (disk_header t) = fs_max_data_file_size s"
      "ih_min_height (disk_header t) = ih_min_height (header s)"
      "ih_next_write_offset (disk_header t) = data_highwater s"
      "ih_max_height (disk_header t) = height_highwater s"
    using that j t we hh lay chain.chain_end [of L t "data_highwater s"]
    by (simp add: journal_def top_height_def)
qed

lemma journal_checkpoint:
  assumes j: "journal L s cs" and nf: "faults s = []"
  shows "\<exists>cs'. journal L (snd (checkpoint (data_highwater s) s)) cs'"
proof -
  obtain r t where c: "checkpoint (data_highwater s) s = (r, t)" by fastforce
  show ?thesis
  proof (cases "r = Ok ()")
    case True
    then have ok: "checkpoint (data_highwater s) s = (Ok (), t)" using c by simp
    note hd = checkpoint_header [OF ok]
    have "effective_max (disk_header t) = effective_max (header s)"
      by (rule effective_max_cong) (simp add: hd)
    then have "journal L t []"
      using j hd
      by (intro journal_parts(2) [OF j checkpoint_bookkeeping(1) [OF c]]) (simp_all add: journal_def)
    then show ?thesis using c by auto
  next
    case False
    then have "t = s" using c nf by (auto simp: checkpoint_def io_bind_def io_simps split: if_splits)
    then show ?thesis using c j by auto
  qed
qed

lemma drop_store_cases:
  assumes j: "journal L s cs" and a: "alive s"
  obtains u cs' where "drop_store s = world_of u" "journal L u cs'" "alive u" "data_highwater u = data_highwater s"
    "\<And>K h. peek K u h = peek K s h" "sound s \<Longrightarrow> sound u" "same_blocks s u"
proof -
  define s1 where "s1 = (if sync s = Sync then snd (sync_all IndexFile s) else s)"
  have s1: "s1 = s \<or> s1 = s\<lparr>io_log := EvSync IndexFile # io_log s\<rparr>"
    using alive_faults [OF a] by (simp add: s1_def)
  then have bk1: "bookkeeping s s1" and a1: "alive s1"
    using a bookkeeping_counters(3) [of s _ "faults s"] by auto
  have j1: "journal L s1 cs"
    by (rule journal_parts(1) [OF j bk1]) (use s1 j in \<open>auto simp: journal_def disk_header_def whole_entries_def\<close>)
  define s2 where "s2 = (if \<not> recovered s1 then s1 else snd (checkpoint (data_highwater s1) s1))"
  have d: "drop_store s = world_of s2" by (simp add: drop_store_def s1_def s2_def Let_def)
  have bk2: "bookkeeping s1 s2"
    unfolding s2_def using checkpoint_bookkeeping(1) [of "data_highwater s1" s1, OF prod.collapse [symmetric]] by simp
  have "\<exists>cs'. journal L s2 cs'"
    using j1 journal_checkpoint [OF j1 alive_faults [OF a1]] by (auto simp: s2_def)
  moreover have "alive s2"
    using a1 preserves_alive_checkpoint [of "data_highwater s1"] by (auto simp: s2_def preserves_def)
  moreover have bk: "bookkeeping s s2" using bk1 bk2 by (rule bookkeeping_trans)
  then have "same_blocks s s2" by (simp add: bookkeeping_def)
  moreover from this have "data_highwater s2 = data_highwater s" by (simp add: same_blocks_def)
  moreover have "sound s2" if "sound s"
    using that same_blocks_view(3) [OF \<open>same_blocks s s2\<close>] by (simp add: sound_def)
  ultimately show ?thesis using that [OF d] same_blocks_view(1) by blast
qed

section \<open>The life of a store\<close>

lemma empty_store_files [simp]:
  "bytes_of (empty_store c m y n) (path_for i) = []" "\<not> is_file (empty_store c m y n) (path_for i)"
  "\<not> is_dir (empty_store c m y n) (path_for i)" "data_dir (empty_store c m y n) = []"
  by (simp_all add: empty_store_def Let_def bytes_of_def is_file_def is_dir_def path_for_def)

lemma empty_store_disk_header: "disk_header (empty_store c m y n) = header (empty_store c m y n)"
  by (simp add: disk_header_def empty_store_def Let_def bytes_of_def zread_pread pread_all)

lemma empty_store_effective:
  "c \<noteq> Some 0 \<Longrightarrow> c \<noteq> Some u64_max \<Longrightarrow> effective_max (header (empty_store c m y n)) = c"
  by (auto simp: effective_max_def empty_store_def Let_def split: option.split)

lemma empty_store_alive: "c \<noteq> Some 0 \<Longrightarrow> alive (empty_store c m y n)"
  using empty_store_ready [of c m y n] by (simp add: alive_def ready_def) (simp add: empty_store_def Let_def)

lemma journal_empty:
  assumes "c \<noteq> Some 0" and "c \<noteq> Some u64_max" and "unat m < 2 ^ 59"
  shows "journal L (empty_store c m y n) []"
proof -
  let ?s = "empty_store c m y n"
  have f: "fs_inv ?s" using assms(1) empty_store_ready [of c m y n] by (simp add: ready_def)
  have "laid_out ?s 0"
    by (auto simp: laid_out_def dir_ok_def file_len_def Let_def split: option.split)
  moreover have "whole_entries ?s" by (simp add: whole_entries_def empty_store_def Let_def bytes_of_def)
  moreover have "height_highwater ?s = saturating_sub m 1" "ih_max_height (header ?s) = 0"
    "ih_next_write_offset (header ?s) = 0"
    by (simp_all add: empty_store_def Let_def with_lowest_block_height_def default_header_def)
  moreover have "unat (saturating_sub m 1) < 2 ^ 59" using assms(3) by (simp only: unat_saturating_sub)
  ultimately show ?thesis
    using f chain.chain_end [of L ?s 0] empty_store_effective [OF assms(1,2)]
    by (simp add: journal_def empty_store_disk_header top_height_def)
qed

lemma write_seq_journal:
  assumes "journal L s cs" and "alive s" and "write_seq (write_block L) ps s = (Ok (), t)"
    and "fits_seq (write_block L) (acceptable L) ps s" and "\<forall>p\<in>set ps. unat (fst p) < 2 ^ 59"
    and "addressable t"
  shows "(\<exists>cs'. journal L t cs') \<and> alive t"
  using assms
proof (induction ps arbitrary: s cs)
  case Nil
  then show ?case by (auto simp: io_simps)
next
  case (Cons p ps)
  from Cons.prems(3) obtain u where u: "write_block L (fst p) (snd p) s = (Ok (), u)"
    "write_seq (write_block L) ps u = (Ok (), t)" by (auto elim: io_bind_OkE)
  have fit: "acceptable L s (snd p)" "fits_seq (write_block L) (acceptable L) ps u"
    using Cons.prems(4) u(1) by simp_all
  have "addressable u"
    using fit(2) u(2) Cons.prems(6) by (cases ps) (auto simp: acceptable_def io_simps)
  then obtain cs' where "journal L u cs'"
    using journal_write [OF Cons.prems(1) fit(1) _ u(1)] Cons.prems(5) by auto
  moreover have "alive u" by (rule preservesD [OF preserves_alive_write Cons.prems(2) u(1)])
  ultimately show ?case using Cons.IH u(2) fit(2) Cons.prems(5,6) by auto
qed

text \<open>The options of an open that finds a store, and a run of writes on a new store.\<close>

definition keeps_store :: "store_options \<Rightarrow> bool" where
  "keeps_store opts \<longleftrightarrow> \<not> opt_truncate opts \<and> opt_max_data_files opts \<noteq> 0"

definition new_store_ok :: "u64 option \<Rightarrow> u64 \<Rightarrow> bool" where
  "new_store_ok cap m \<longleftrightarrow> cap \<noteq> Some 0 \<and> cap \<noteq> Some u64_max \<and> unat m < 2 ^ 59"

definition heights_ok :: "(u64 \<times> bytes) list \<Rightarrow> bool" where
  "heights_ok ps \<longleftrightarrow> (\<forall>p\<in>set ps. unat (fst p) < 2 ^ 59)"

lemma run_of_writes:
  assumes "new_store_ok cap m" and "write_seq (write_block L) ps (empty_store cap m mode n) = (Ok (), s)"
    and "fits_seq (write_block L) (acceptable L) ps (empty_store cap m mode n)"
    and "heights_ok ps" and "addressable s"
  obtains cs where "journal L s cs" "alive s" "contents L s = map_of (rev ps)"
proof -
  let ?e = "empty_store cap m mode n"
  have e: "journal L ?e []" "alive ?e" "store_ok ?e"
    using assms(1) empty_store_ready [of cap m mode n]
    by (simp_all add: new_store_ok_def journal_empty empty_store_alive store_ok_def ready_def)
  have "(\<exists>cs. journal L s cs) \<and> alive s"
    by (rule write_seq_journal [OF e(1,2) assms(2,3) _ assms(5)]) (use assms(4) in \<open>simp add: heights_ok_def\<close>)
  moreover have "contents L s = contents L ?e ++ map_of (rev ps)"
    using store.write_seq_view [OF e(3) assms(2,3)] by blast
  moreover have "contents L ?e = Map.empty" by (simp add: empty_store_contents fun_eq_iff)
  ultimately show ?thesis using that by auto
qed

lemma reopened:
  assumes "journal L s cs" and "alive s" and "keeps_store opts"
  obtains t where "open_store L opts (world_of s) = Opened t" "ready t"
    "contents L t = contents L s" "data_highwater t = data_highwater s" "sound s \<Longrightarrow> store_ok t"
    "\<And>K h. peek K t h = peek K s h" "alive t" "\<exists>cs'. journal L t cs'"
    "fs_max_data_file_size t = fs_max_data_file_size s" "index_entry_offset t = index_entry_offset s"
proof -
  have o: "\<not> opt_truncate opts" "opt_max_data_files opts \<noteq> 0" using assms(3) by (simp_all add: keeps_store_def)
  obtain t where t: "open_store L opts (world_of s) = Opened t" "ready t" "recovered t"
    "data_highwater t = data_highwater s" "\<And>K h. peek K t h = peek K s h"
    "\<And>h. entry_ok t h = entry_ok s h" "alive t" "\<exists>cs'. journal L t cs'"
    "fs_max_data_file_size t = fs_max_data_file_size s" "index_entry_offset t = index_entry_offset s"
    by (rule reopen_journal [OF assms(1,2) o]) blast
  have "contents L t = contents L s" using t(5) by (simp add: contents_def fun_eq_iff)
  moreover have "store_ok t" if "sound s" using that t(2,6) by (simp add: store_ok_def sound_def ready_def)
  ultimately show ?thesis using that t by blast
qed

section \<open>Claims\<close>

text \<open>
  C9: durability. A store that was created empty, took any run of successful writes and whose
  process then died without running \<open>Drop\<close> opens again as a store that holds exactly the blocks
  written, the last one at each height, and that goes on writing at the end of the data.
\<close>

theorem reopen_after_crash:
  assumes "new_store_ok cap m" and "write_seq (write_block L) ps (empty_store cap m mode n) = (Ok (), s)"
    and "fits_seq (write_block L) (acceptable L) ps (empty_store cap m mode n)"
    and "heights_ok ps" and "addressable s" and "keeps_store opts"
  shows "\<exists>t. open_store L opts (world_of s) = Opened t \<and> ready t \<and>
    contents L t = map_of (rev ps) \<and> data_highwater t = data_highwater s"
proof -
  obtain cs where r: "journal L s cs" "alive s" "contents L s = map_of (rev ps)"
    by (rule run_of_writes [OF assms(1-5)])
  obtain t where "open_store L opts (world_of s) = Opened t" "ready t"
    "contents L t = contents L s" "data_highwater t = data_highwater s"
    by (rule reopened [OF r(1,2) assms(6)])
  then show ?thesis using r(3) by auto
qed

lemma one_block_run:
  "write_seq (write_block plain_libs) [(7, [1, 2, 3])] (empty_store None 5 Async 4) =
     (Ok (), one_block_store)"
  "fits_seq (write_block plain_libs) (acceptable plain_libs) [(7, [1, 2, 3])] (empty_store None 5 Async 4)"
proof -
  let ?s = "empty_store None 5 Async 4"
  have "write_request plain_libs ?s 7 [1, 2, 3] [1, 2, 3] 3 96 25" "room ?s (unat (25 :: u64))"
    by (simp_all add: write_request_def room_def index_entry_offset_Some)
  then obtain t where t: "write_block plain_libs 7 [1, 2, 3] ?s = (Ok (), t)"
    by (rule write_block_ready [rotated 1]) simp_all
  then show "write_seq (write_block plain_libs) [(7, [1, 2, 3])] ?s = (Ok (), one_block_store)"
    by (simp add: one_block_store_def io_bind_def io_simps)
  show "fits_seq (write_block plain_libs) (acceptable plain_libs) [(7, [1, 2, 3])] ?s"
    using t by (simp add: acceptable_plain)
qed

theorem reopen_after_crash_witness:
  "\<exists>t. open_store plain_libs default_options (world_of one_block_store) = Opened t \<and> ready t \<and>
     contents plain_libs t = [7 \<mapsto> [1, 2, 3]] \<and> data_highwater t = data_highwater one_block_store"
  using reopen_after_crash [OF _ one_block_run, of default_options]
  by (simp add: new_store_ok_def heights_ok_def keeps_store_def default_options_def
      DEFAULT_MAX_DATA_FILES_def)

text \<open>
  The same for a store that is closed: \<open>Drop\<close> syncs and checkpoints (or, on a store without a
  block, fails to), and the next open finds the same blocks.
\<close>

theorem reopen_after_close:
  assumes "new_store_ok cap m" and "write_seq (write_block L) ps (empty_store cap m mode n) = (Ok (), s)"
    and "fits_seq (write_block L) (acceptable L) ps (empty_store cap m mode n)"
    and "heights_ok ps" and "addressable s" and "keeps_store opts"
  shows "\<exists>t. open_store L opts (drop_store s) = Opened t \<and> ready t \<and>
    contents L t = map_of (rev ps) \<and> data_highwater t = data_highwater s"
proof -
  obtain cs where r: "journal L s cs" "alive s" "contents L s = map_of (rev ps)"
    by (rule run_of_writes [OF assms(1-5)])
  obtain u cs' where u: "drop_store s = world_of u" "journal L u cs'" "alive u"
    "data_highwater u = data_highwater s" "\<And>K h. peek K u h = peek K s h"
    by (rule drop_store_cases [OF r(1,2)]) blast
  obtain t where "open_store L opts (world_of u) = Opened t" "ready t"
    "contents L t = contents L u" "data_highwater t = data_highwater u"
    by (rule reopened [OF u(2,3) assms(6)])
  moreover have "contents L u = contents L s" using u(5) by (simp add: contents_def fun_eq_iff)
  ultimately show ?thesis using r(3) u by auto
qed

theorem reopen_after_close_witness:
  "\<exists>t. open_store plain_libs default_options (drop_store one_block_store) = Opened t \<and> ready t \<and>
     contents plain_libs t = [7 \<mapsto> [1, 2, 3]] \<and> data_highwater t = data_highwater one_block_store"
  using reopen_after_close [OF _ one_block_run, of default_options]
  by (simp add: new_store_ok_def heights_ok_def keeps_store_def default_options_def
      DEFAULT_MAX_DATA_FILES_def)

end
