(* ===== verification/Fresh.thy ===== *)
theory Fresh
  imports Reopen
begin

text \<open>
  A truncating open: it empties the index, removes the data files and writes a fresh header. On a
  directory nobody else uses it gives an empty store, whatever the directory held; on a store that
  is open elsewhere it is refused, but only after the index has been emptied.
\<close>

section \<open>Removing the data files\<close>

definition is_data_entry :: "string \<times> dirent \<Rightarrow> bool" where
  "is_data_entry e \<longleftrightarrow> snd e \<noteq> SubDir \<and> parse_data_file_index (fst e) \<noteq> None"

lemma data_dir_const: "data_dir_update f w = w\<lparr>data_dir := f (data_dir w)\<rparr>"
  by simp

lemma remove_entries_none:
  assumes "faults w = []"
  shows "remove_entries es w = (Ok (), w\<lparr>data_dir :=
    filter (\<lambda>e. fst e \<notin> fst ` set (filter is_data_entry es)) (data_dir w)\<rparr>)"
  using assms
proof (induction es arbitrary: w)
  case Nil
  then show ?case by (simp add: io_simps)
next
  case (Cons x es)
  obtain name ent where x: "x = (name, ent)" by fastforce
  show ?case
  proof (cases "is_data_entry x")
    case False
    then have "remove_entries (x # es) w = remove_entries es w"
      using Cons.prems x by (cases ent) (auto simp: is_data_entry_def io_bind_def io_simps)
    then show ?thesis using Cons False by simp
  next
    case True
    then obtain b where b: "ent = RegFile b" "parse_data_file_index name \<noteq> None"
      using x by (cases ent) (auto simp: is_data_entry_def)
    let ?w = "w\<lparr>data_dir := AList.delete name (data_dir w)\<rparr>"
    have "remove_entries (x # es) w = remove_entries es ?w"
      using Cons.prems x b by (simp add: io_bind_def io_simps remove_file_def data_dir_const [of "AList.delete name" w])
    moreover have "filter (\<lambda>e. fst e \<notin> fst ` set (filter is_data_entry es)) (AList.delete name (data_dir w)) =
        filter (\<lambda>e. fst e \<notin> fst ` set (filter is_data_entry (x # es))) (data_dir w)"
      using True x by (auto simp: AList.delete_eq intro!: filter_cong)
    ultimately show ?thesis using Cons.IH [of ?w] Cons.prems by simp
  qed
qed

text \<open>A directory no process uses and whose calls succeed.\<close>

definition calm :: "world \<Rightarrow> bool" where
  "calm w \<longleftrightarrow>
     locks w = [] \<and> faults w = [] \<and> distinct (map fst (data_dir w)) \<and>
     (\<forall>i. \<not> is_dir w (path_for i))"

lemma remove_existing_none:
  assumes "faults w = []" and "distinct (map fst (data_dir w))"
  shows "remove_existing_data_files w =
    (Ok (), w\<lparr>data_dir := filter (\<lambda>e. \<not> is_data_entry e) (data_dir w)\<rparr>)"
proof -
  have "fst e \<notin> fst ` set (filter is_data_entry (data_dir w)) \<longleftrightarrow> \<not> is_data_entry e"
    if "e \<in> set (data_dir w)" for e
    using that assms(2) by (force simp: distinct_map inj_on_def)
  then have "filter (\<lambda>e. fst e \<notin> fst ` set (filter is_data_entry (data_dir w))) (data_dir w) =
      filter (\<lambda>e. \<not> is_data_entry e) (data_dir w)"
    by (rule filter_cong [OF refl])
  then show ?thesis
    using assms(1) by (simp add: remove_existing_data_files_def read_dir_def io_bind_def io_simps
        remove_entries_none)
qed

section \<open>The store it gives\<close>

definition truncates :: "store_options \<Rightarrow> bool" where
  "truncates opts \<longleftrightarrow> opt_truncate opts \<and> opt_max_data_files opts \<noteq> 0"

definition fresh_world :: "store_options \<Rightarrow> world \<Rightarrow> world" where
  "fresh_world opts w =
     w\<lparr>idx_file := Some (encode_header (fresh_header opts)),
       data_dir := filter (\<lambda>e. \<not> is_data_entry e) (data_dir w),
       locks := [(IndexFile, next_fd w)], next_fd := Suc (next_fd w),
       io_log := EvWrite IndexFile 0 (encode_header (fresh_header opts)) # io_log w\<rparr>"

definition fresh_store :: "store_options \<Rightarrow> world \<Rightarrow> store" where
  "fresh_store opts w =
     initial_store opts \<lparr>fd = next_fd w, hfile = IndexFile\<rparr> (fresh_header opts) (fresh_world opts w)"

lemma open_fresh:
  assumes "calm w" and "truncates opts"
  shows "open_store L opts w = Opened (fresh_store opts w)"
proof -
  note c = assms(1) [unfolded calm_def]
  let ?u = "w\<lparr>idx_file := Some [], next_fd := Suc (next_fd w)\<rparr>"
  let ?v = "?u\<lparr>locks := [(IndexFile, next_fd w)]\<rparr>"
  have o: "open_file IndexFile True True w = (Ok \<lparr>fd = next_fd w, hfile = IndexFile\<rparr>, ?u)"
    using c by (simp add: open_file_def is_dir_def put_bytes_def)
  have "encode_header (fresh_header opts) \<noteq> []"
    using length_encode_header [of "fresh_header opts"] by fastforce
  then have l: "log_write IndexFile 0 (encode_header (fresh_header opts))
      (?v\<lparr>data_dir := filter (\<lambda>e. \<not> is_data_entry e) (data_dir w)\<rparr>) = fresh_world opts w"
    by (simp add: log_write_def put_bytes_def bytes_of_def pwrite_def fresh_world_def)
  have r: "remove_existing_data_files ?v =
      (Ok (), ?v\<lparr>data_dir := filter (\<lambda>e. \<not> is_data_entry e) (data_dir w)\<rparr>)"
    using c remove_existing_none [of ?v] by simp
  have "prepare_index opts w =
      (Ok (\<lparr>fd = next_fd w, hfile = IndexFile\<rparr>, fresh_header opts), fresh_world opts w)"
    using assms(2) c o r l
    by (simp add: prepare_index_def truncates_def io_bind_def io_simps on_err_def try_lock_def)
  then show ?thesis
    using assms(2) by (simp add: open_store_def truncates_def fresh_store_def Let_def)
qed

lemma fresh_store_files:
  assumes "calm w"
  shows "bytes_of (fresh_store opts w) IndexFile = encode_header (fresh_header opts)"
    and "\<not> is_file (fresh_store opts w) (path_for i)" and "bytes_of (fresh_store opts w) (path_for i) = []"
    and "\<not> is_dir (fresh_store opts w) (path_for i)" and "dir_ok (fresh_store opts w)"
proof -
  let ?d = "filter (\<lambda>e. \<not> is_data_entry e) (data_dir w)"
  have d: "distinct (map fst ?d)" using assms by (simp add: calm_def distinct_map_filter)
  have n: "map_of ?d (data_file_name i) = None" for i
  proof -
    have "(data_file_name i, SubDir) \<notin> set (data_dir w)"
      using assms by (auto simp: calm_def is_dir_def path_for_def)
    moreover have "e = SubDir" if "(data_file_name i, e) \<in> set ?d" for e
      using that by (auto simp: is_data_entry_def)
    ultimately show ?thesis by (force simp: map_of_eq_None_iff)
  qed
  have f: "idx_file (fresh_store opts w) = Some (encode_header (fresh_header opts))"
    "data_dir (fresh_store opts w) = ?d"
    by (simp_all add: fresh_store_def initial_store_def fresh_world_def)
  show "bytes_of (fresh_store opts w) IndexFile = encode_header (fresh_header opts)"
    and "\<not> is_file (fresh_store opts w) (path_for i)" and "bytes_of (fresh_store opts w) (path_for i) = []"
    and "\<not> is_dir (fresh_store opts w) (path_for i)"
    using n [of i] by (simp_all add: f bytes_of_def is_file_def is_dir_def path_for_def)
  show "dir_ok (fresh_store opts w)"
    using d by (auto simp: dir_ok_def f is_data_entry_def)
qed

lemma fresh_store_fields [simp]:
  "header (fresh_store opts w) = fresh_header opts" "data_highwater (fresh_store opts w) = 0"
  "max_contiguous_height (fresh_store opts w) = saturating_sub (opt_minimum_height opts) 1"
  "height_highwater (fresh_store opts w) = saturating_sub (opt_minimum_height opts) 1"
  "fs_max_data_file_size (fresh_store opts w) = effective_max (fresh_header opts)"
  "ih_next_write_offset (fresh_header opts) = 0" "ih_max_height (fresh_header opts) = 0"
  "ih_min_height (fresh_header opts) = opt_minimum_height opts"
  by (simp_all add: fresh_store_def initial_store_def fresh_header_def default_header_def
      with_lowest_block_height_def)

lemma fresh_effective:
  "new_store_ok (opt_max_data_file_size opts) m \<Longrightarrow>
     effective_max (fresh_header opts) = opt_max_data_file_size opts"
  by (auto simp: effective_max_def fresh_header_def new_store_ok_def split: option.split)

lemma fresh_alive:
  assumes "calm w" shows "alive (fresh_store opts w)" "ready (fresh_store opts w)"
proof -
  have "fs_inv (fresh_store opts w)" "own_locks (fresh_store opts w)" "faults (fresh_store opts w) = []"
    using assms by (simp_all add: calm_def fs_inv_def own_locks_def cap_ok_def effective_max_def
        fresh_store_def fresh_world_def initial_store_def new_inner_def inner_lookup_def lru_inv_def)
  then show "alive (fresh_store opts w)" "ready (fresh_store opts w)"
    using fresh_store_files(4) [OF assms]
    by (simp_all add: alive_def ready_def) (simp add: fresh_store_def fresh_world_def initial_store_def)
qed

lemma fresh_entry: "calm w \<Longrightarrow> 64 \<le> unat slot \<Longrightarrow> entry_at (fresh_store opts w) slot = default_entry"
  by (simp add: entry_at_def fresh_store_files(1) zread_beyond decode_zeros)

lemma fresh_blocks:
  assumes "calm w"
  shows "contents L (fresh_store opts w) = Map.empty" "store_ok (fresh_store opts w)"
  using fresh_alive(2) [OF assms]
  by (auto simp: fun_eq_iff contents_def peek_def Let_def fresh_entry [OF assms] index_entry_offset_ge
      default_entry_def store_ok_def ready_def sound_def entry_ok_def split: option.split)

lemma fresh_journal:
  assumes "calm w" and "new_store_ok (opt_max_data_file_size opts) (opt_minimum_height opts)"
  shows "journal L (fresh_store opts w) []"
proof -
  let ?s = "fresh_store opts w"
  have h: "disk_header ?s = fresh_header opts"
    by (simp add: disk_header_def fresh_store_files(1) [OF assms(1)] zread_pread pread_all)
  have "laid_out ?s 0"
    using fresh_store_files(2,3,5) [OF assms(1)]
    by (auto simp: laid_out_def file_len_def fresh_effective [OF assms(2)] Let_def split: option.split)
  moreover have "whole_entries ?s"
    by (simp add: whole_entries_def fresh_store_files(1) [OF assms(1)])
  moreover have "unat (saturating_sub (opt_minimum_height opts) 1) < 2 ^ 59"
    using assms(2) by (auto simp: unat_saturating_sub new_store_ok_def intro: le_less_trans [OF diff_le_self])
  ultimately show ?thesis
    using fresh_alive(2) [OF assms(1), of opts] chain.chain_end [of L ?s 0]
    by (simp add: journal_def h ready_def top_height_def)
qed

section \<open>The directory of an open store\<close>

text \<open>The files as another open sees them while the store is open, and the store after it changed them.\<close>

definition world_part :: "store \<Rightarrow> world" where
  "world_part s =
     \<lparr>idx_file = idx_file s, data_dir = data_dir s, locks = locks s, next_fd = next_fd s,
      faults = faults s, io_log = io_log s\<rparr>"

definition set_world :: "world \<Rightarrow> store \<Rightarrow> store" where
  "set_world w s =
     s\<lparr>idx_file := idx_file w, data_dir := data_dir w, locks := locks w, next_fd := next_fd w,
       faults := faults w, io_log := io_log w\<rparr>"

text \<open>What a refused open leaves: with truncation, an empty index.\<close>

definition refused :: "store_options \<Rightarrow> world \<Rightarrow> world" where
  "refused opts w =
     w\<lparr>idx_file := if opt_truncate opts then Some [] else idx_file w, next_fd := Suc (next_fd w)\<rparr>"

lemma open_locked:
  assumes "faults w = []" and "IndexFile \<in> fst ` set (locks w)" and "is_file w IndexFile"
    and "\<forall>(f, n) \<in> set (locks w). n < next_fd w" and "opt_max_data_files opts \<noteq> 0"
  shows "open_store L opts w = Failed (Error WouldBlock index_lock_msg) (refused opts w)"
proof -
  let ?v = "w\<lparr>idx_file := if opt_truncate opts then Some [] else idx_file w, next_fd := Suc (next_fd w)\<rparr>"
  have o: "open_file IndexFile (opt_truncate opts) (opt_truncate opts) w =
      (Ok \<lparr>fd = next_fd w, hfile = IndexFile\<rparr>, ?v)"
    using assms(1,3) by (simp add: open_file_def is_dir_def put_bytes_def Let_def)
  have t: "try_lock \<lparr>fd = next_fd w, hfile = IndexFile\<rparr> index_lock_msg ?v =
      (Err (Error WouldBlock index_lock_msg), ?v)"
    using assms(1,2) by (simp add: try_lock_def)
  have "filter (\<lambda>(f, m). m \<noteq> next_fd w) (locks w) = locks w"
    using assms(4) by (intro filter_True) auto
  then have "close_fd (next_fd w) ?v = refused opts w" by (simp add: close_fd_def refused_def)
  then have "prepare_index opts w = (Err (Error WouldBlock index_lock_msg), refused opts w)"
    using assms(5) o t by (simp add: prepare_index_def io_bind_def on_err_def)
  then show ?thesis by (simp add: open_store_def)
qed

text \<open>Nothing is readable through an empty index.\<close>

lemma wiped_contents:
  assumes "idx_file s = Some []" shows "contents L s h = None"
proof -
  have "entry_at s slot = default_entry" for slot
    using assms by (simp add: entry_at_def bytes_of_def zread_beyond decode_zeros)
  then show ?thesis
    by (auto simp: contents_def peek_def Let_def default_entry_def split: option.split)
qed

section \<open>The life of a store\<close>

lemma lived_store_reopens:
  assumes "calm w" and "truncates opts" and "new_store_ok (opt_max_data_file_size opts) (opt_minimum_height opts)"
    and "open_store L opts w = Opened s0" and "write_seq (write_block L) ps s0 = (Ok (), s)"
    and "fits_seq (write_block L) (acceptable L) ps s0" and "heights_ok ps" and "addressable s"
    and "keeps_store opts'"
  shows "(\<exists>t. open_store L opts' (world_of s) = Opened t \<and> ready t \<and> store_ok t \<and> contents L t = map_of (rev ps) \<and>
      (\<forall>h. peek L t h = peek L s h)) \<and>
    (\<exists>t. open_store L opts' (drop_store s) = Opened t \<and> ready t \<and> store_ok t \<and> contents L t = map_of (rev ps) \<and>
      (\<forall>h. peek L t h = peek L s h))"
proof -
  have s0: "s0 = fresh_store opts w" using open_fresh [OF assms(1,2), of L] assms(4) by simp
  have "(\<exists>cs. journal L s cs) \<and> alive s"
    by (rule write_seq_journal [OF fresh_journal [OF assms(1,3)] fresh_alive(1) [OF assms(1)]])
      (use assms(5-8) in \<open>simp_all add: s0 heights_ok_def\<close>)
  then obtain cs where j: "journal L s cs" "alive s" by blast
  have c: "contents L s = map_of (rev ps)" "sound s"
    using store.write_seq_view [OF fresh_blocks(2) [OF assms(1)] assms(5)[unfolded s0] assms(6)[unfolded s0]]
      fresh_blocks(1) [OF assms(1)] by (simp_all add: store_ok_def)
  obtain u cs' where u: "drop_store s = world_of u" "journal L u cs'" "alive u"
    "data_highwater u = data_highwater s" "\<And>K h. peek K u h = peek K s h" "sound s \<Longrightarrow> sound u"
    by (rule drop_store_cases [OF j]) blast
  have "contents L u = contents L s" using u(5) by (simp add: contents_def fun_eq_iff)
  moreover have "sound u" using u(6) c(2) .
  ultimately show ?thesis
    using reopened [OF j assms(9)] reopened [OF u(2,3) assms(9)] c u(1,5) by metis
qed

section \<open>Claims\<close>

text \<open>
  C29: creating a store: a truncating open of any directory that nobody else uses, whatever it
  holds, succeeds and gives an empty, well-formed store with the header the options ask for.
\<close>

theorem truncating_open_is_empty:
  assumes "calm w" and "truncates opts"
  shows "\<exists>s. open_store L opts w = Opened s \<and> ready s \<and> store_ok s \<and> contents L s = Map.empty \<and>
    header s = fresh_header opts \<and> data_highwater s = 0 \<and>
    (\<forall>i. \<not> is_file s (path_for i)) \<and>
    max_contiguous_height s = saturating_sub (opt_minimum_height opts) 1"
  using open_fresh [OF assms] fresh_alive(2) [OF assms(1)] fresh_blocks [OF assms(1)]
    fresh_store_files(2) [OF assms(1)] by auto

definition old_dir :: world where
  "old_dir =
     \<lparr>idx_file = Some [1, 2, 3],
      data_dir = [(data_file_name 3, RegFile [9]), (''notes'', RegFile [7]), (''blockdb_007.dat'', RegFile [])],
      locks = [], next_fd = 3, faults = [], io_log = []\<rparr>"

lemma old_dir_calm: "calm old_dir"
proof -
  have "data_file_name i \<noteq> ''notes''" for i by (simp add: data_file_name_def DATA_FILE_PREFIX_def)
  moreover have "data_file_name 3 = ''blockdb_3.dat''" by code_simp
  ultimately show ?thesis by (auto simp: calm_def old_dir_def is_dir_def path_for_def)
qed

theorem truncating_open_is_empty_witness:
  "\<exists>s. open_store plain_libs (default_options\<lparr>opt_truncate := True\<rparr>) old_dir = Opened s \<and>
     contents plain_libs s = Map.empty \<and> (\<forall>i. \<not> is_file s (path_for i))"
  using truncating_open_is_empty [OF old_dir_calm, of "default_options\<lparr>opt_truncate := True\<rparr>" plain_libs]
  by (auto simp: truncates_def default_options_def DEFAULT_MAX_DATA_FILES_def)

text \<open>
  The whole life of a store, from any directory: created by a truncating open, written by any
  run of successful writes, then either dropped or killed, and opened again, it holds exactly the
  blocks written and is well formed.
\<close>

theorem life_of_a_store:
  assumes "calm w" and "truncates opts" and "new_store_ok (opt_max_data_file_size opts) (opt_minimum_height opts)"
    and "open_store L opts w = Opened s0" and "write_seq (write_block L) ps s0 = (Ok (), s)"
    and "fits_seq (write_block L) (acceptable L) ps s0" and "heights_ok ps" and "addressable s"
    and "keeps_store opts'"
  shows "(\<exists>t. open_store L opts' (world_of s) = Opened t \<and> ready t \<and> store_ok t \<and> contents L t = map_of (rev ps)) \<and>
    (\<exists>t. open_store L opts' (drop_store s) = Opened t \<and> ready t \<and> store_ok t \<and> contents L t = map_of (rev ps))"
  using lived_store_reopens [OF assms] by blast

text \<open>A store created over \<open>old_dir\<close> that has taken one block.\<close>

definition created_options :: store_options where
  "created_options = default_options\<lparr>opt_truncate := True, opt_minimum_height := 5\<rparr>"

definition lived_store :: store where
  "lived_store = snd (write_block plain_libs 7 [1, 2, 3] (fresh_store created_options old_dir))"

lemma created_options_ok:
  "truncates created_options"
  "new_store_ok (opt_max_data_file_size created_options) (opt_minimum_height created_options)"
  by (simp_all add: truncates_def created_options_def default_options_def DEFAULT_MAX_DATA_FILES_def new_store_ok_def)

lemma lived_store_run:
  "write_seq (write_block plain_libs) [(7, [1, 2, 3])] (fresh_store created_options old_dir) = (Ok (), lived_store)"
  "fits_seq (write_block plain_libs) (acceptable plain_libs) [(7, [1, 2, 3])] (fresh_store created_options old_dir)"
  "heights_ok [(7, [1, 2, 3])]" "addressable lived_store" "keeps_store default_options"
proof -
  have "fst (write_block plain_libs 7 [1, 2, 3] (fresh_store created_options old_dir)) = Ok ()" by code_simp
  then have w: "write_block plain_libs 7 [1, 2, 3] (fresh_store created_options old_dir) = (Ok (), lived_store)"
    by (metis lived_store_def prod.collapse)
  then show "write_seq (write_block plain_libs) [(7, [1, 2, 3])] (fresh_store created_options old_dir) = (Ok (), lived_store)"
    by (simp add: io_bind_def io_simps)
  have "fs_max_data_file_size lived_store = None" by code_simp
  then show "addressable lived_store" by (simp add: addressable_def)
  have "addressable (fresh_store created_options old_dir)"
    using fresh_effective [OF created_options_ok(2)]
    by (simp add: addressable_def) (simp add: created_options_def default_options_def)
  then show "fits_seq (write_block plain_libs) (acceptable plain_libs) [(7, [1, 2, 3])] (fresh_store created_options old_dir)"
    using w by (simp add: acceptable_def)
qed (simp_all add: heights_ok_def keeps_store_def default_options_def DEFAULT_MAX_DATA_FILES_def)

lemmas lived_store_hyps = old_dir_calm created_options_ok
  open_fresh [OF old_dir_calm created_options_ok(1)] lived_store_run

lemma lived_store_opens:
  obtains t where "open_store plain_libs default_options (drop_store lived_store) = Opened t"
    "ready t" "store_ok t" "contents plain_libs t = [7 \<mapsto> [1, 2, 3]]"
    "\<And>h. peek plain_libs t h = peek plain_libs lived_store h"
  using lived_store_reopens [OF lived_store_hyps] by auto

theorem life_of_a_store_witness:
  "\<exists>t. open_store plain_libs default_options (drop_store lived_store) = Opened t \<and> ready t \<and>
     store_ok t \<and> contents plain_libs t = [7 \<mapsto> [1, 2, 3]]"
  using life_of_a_store [OF lived_store_hyps, THEN conjunct2] by simp

text \<open>
  C30: an open of a store that is open elsewhere is refused with \<open>WouldBlock\<close> and, without
  truncation, changes no file; with truncation it empties the index first, and nothing can be read
  through the running store any more.
\<close>

theorem second_open_refused:
  assumes "alive s" and "IndexFile \<in> fst ` set (locks s)" and "is_file s IndexFile"
    and "opt_max_data_files opts \<noteq> 0"
  shows "\<exists>v. open_store L opts (world_part s) = Failed (Error WouldBlock index_lock_msg) v \<and>
    locks v = locks s \<and> data_dir v = data_dir s \<and>
    (if opt_truncate opts then \<forall>h. contents L (set_world v s) h = None else idx_file v = idx_file s)"
proof -
  let ?w = "world_part s"
  have "open_store L opts ?w = Failed (Error WouldBlock index_lock_msg) (refused opts ?w)"
    using assms by (intro open_locked)
      (auto simp: world_part_def alive_def fs_inv_def is_file_def)
  then show ?thesis
    by (auto simp: refused_def world_part_def set_world_def intro!: wiped_contents)
qed

theorem second_open_refused_witness:
  "\<exists>v. open_store plain_libs (default_options\<lparr>opt_truncate := True\<rparr>) (world_part one_block_store) =
       Failed (Error WouldBlock index_lock_msg) v \<and>
     contents plain_libs one_block_store 7 = Some [1, 2, 3] \<and>
     contents plain_libs (set_world v one_block_store) 7 = None"
proof -
  have "alive one_block_store"
    unfolding one_block_store_def
    by (rule preservesD [OF preserves_alive_write empty_store_alive prod.collapse [symmetric]]) simp
  moreover have "IndexFile \<in> fst ` set (locks one_block_store)" "is_file one_block_store IndexFile"
    by code_simp+
  ultimately show ?thesis
    using second_open_refused [of one_block_store "default_options\<lparr>opt_truncate := True\<rparr>" plain_libs]
    by (auto simp: default_options_def DEFAULT_MAX_DATA_FILES_def)
qed

end
