(* ===== verification/Cached.thy ===== *)
theory Cached
  imports StoreContract Recovery
begin

text \<open>
  \<open>cached_store.rs\<close>: the store behind a read-through cache of blocks. The cache itself is the
  \<open>LruCache\<close> of the \<open>lru-mem\<close> crate, which is not part of the repository: it is a parameter, a
  record of its operations, and \<open>lru_lawful\<close> is the documented behaviour the wrapper relies on.
  The mutex around the cache is the atomicity of each call on it. The cached store is an instance
  of \<open>block_map\<close>, with the contents of the inner store as the view.
\<close>

section \<open>The cache\<close>

text \<open>
  \<open>lru_insert\<close> is given the accounting function of the value type, and says whether the entry was
  accepted: it is refused when it is larger than the whole budget.
\<close>

record 'c lru =
  lru_new :: "nat \<Rightarrow> 'c"
  lru_peek :: "'c \<Rightarrow> u64 \<Rightarrow> bytes option"
  lru_get :: "u64 \<Rightarrow> 'c \<Rightarrow> bytes option \<times> 'c"
  lru_insert :: "(bytes \<Rightarrow> nat) \<Rightarrow> u64 \<Rightarrow> bytes \<Rightarrow> 'c \<Rightarrow> bool \<times> 'c"

definition heap_size :: "bytes \<Rightarrow> nat" where
  "heap_size entry = length entry"

text \<open>
  A lookup returns the entry and may reorder; an insertion may drop other entries; a refused
  insertion adds nothing. What a refused insertion does to an older entry under the same key is
  left open.
\<close>

definition lru_lawful :: "'c lru \<Rightarrow> bool" where
  "lru_lawful Q \<longleftrightarrow>
     (\<forall>n k. lru_peek Q (lru_new Q n) k = None) \<and>
     (\<forall>k c. fst (lru_get Q k c) = lru_peek Q c k \<and>
        lru_peek Q (snd (lru_get Q k c)) = lru_peek Q c) \<and>
     (\<forall>hs k v c. fst (lru_insert Q hs k v c) \<longrightarrow>
        lru_peek Q (snd (lru_insert Q hs k v c)) k = Some v) \<and>
     (\<forall>hs k v c k'. k' \<noteq> k \<or> \<not> fst (lru_insert Q hs k v c) \<longrightarrow>
        lru_peek Q (snd (lru_insert Q hs k v c)) k' \<in> {None, lru_peek Q c k'})"

lemma lru_new_peek: "lru_lawful Q \<Longrightarrow> lru_peek Q (lru_new Q n) k = None"
  and lru_get_peek: "lru_lawful Q \<Longrightarrow> lru_get Q k c = (x, d) \<Longrightarrow> x = lru_peek Q c k \<and> lru_peek Q d = lru_peek Q c"
  by (simp add: lru_lawful_def) (simp add: lru_lawful_def, metis fst_conv snd_conv)

lemma lru_insert_peek:
  assumes "lru_lawful Q" and "lru_insert Q hs k v c = (ok, d)" and "lru_peek Q d k' = Some w"
  shows "if k' = k \<and> ok then w = v else lru_peek Q c k' = Some w"
proof -
  from assms(1,2) have "ok \<Longrightarrow> lru_peek Q d k = Some v"
    and "k' \<noteq> k \<or> \<not> ok \<Longrightarrow> lru_peek Q d k' \<in> {None, lru_peek Q c k'}"
    unfolding lru_lawful_def by (metis fst_conv snd_conv)+
  with assms(3) show ?thesis by auto
qed

section \<open>The cached store\<close>

record 'c cached_store =
  cs_inner :: store
  cs_cache :: 'c

definition on_inner :: "(store, 'a) io \<Rightarrow> ('c cached_store, 'a) io" where
  "on_inner m s = (case m (cs_inner s) of (r, t) \<Rightarrow> (r, s\<lparr>cs_inner := t\<rparr>))"

datatype 'c cached_opened =
  CachedOpened "'c cached_store" | CachedFailed err world | CachedCrashed string world

definition cached_open :: "'c lru \<Rightarrow> libs \<Rightarrow> store_options \<Rightarrow> world \<Rightarrow> 'c cached_opened" where
  "cached_open Q L options w =
     (case open_store L options w of
        Opened s \<Rightarrow> CachedOpened \<lparr>cs_inner = s, cs_cache = lru_new Q (opt_cache_size options)\<rparr>
      | Failed e v \<Rightarrow> CachedFailed e v
      | Crashed m v \<Rightarrow> CachedCrashed m v)"

definition cache_get :: "'c lru \<Rightarrow> u64 \<Rightarrow> ('c cached_store, bytes option) io" where
  "cache_get Q height s =
     (case lru_get Q height (cs_cache s) of (x, c) \<Rightarrow> (Ok x, s\<lparr>cs_cache := c\<rparr>))"

text \<open>The outcome of the insertion only selects a metrics counter.\<close>

definition populate :: "'c lru \<Rightarrow> u64 \<Rightarrow> bytes \<Rightarrow> ('c cached_store, unit) io" where
  "populate Q height entry s =
     (case lru_insert Q heap_size height entry (cs_cache s) of
        (accepted, c) \<Rightarrow> (Ok (), s\<lparr>cs_cache := c\<rparr>))"

definition cached_read_block ::
  "'c lru \<Rightarrow> libs \<Rightarrow> u64 \<Rightarrow> ('c cached_store, bytes option) io" where
  "cached_read_block Q L height =
     io_bind (cache_get Q height) (\<lambda>cached.
     case cached of
       Some entry \<Rightarrow> ret (Some entry)
     | None \<Rightarrow>
         io_bind (on_inner (read_block L height)) (\<lambda>block.
         io_bind (case block of Some b \<Rightarrow> populate Q height b | None \<Rightarrow> ret ()) (\<lambda>_.
         ret block)))"

definition cached_write_block ::
  "'c lru \<Rightarrow> libs \<Rightarrow> u64 \<Rightarrow> bytes \<Rightarrow> ('c cached_store, unit) io" where
  "cached_write_block Q L height data =
     io_bind (on_inner (write_block L height data)) (\<lambda>_. populate Q height data)"

definition cached_max_contiguous_height :: "'c cached_store \<Rightarrow> u64" where
  "cached_max_contiguous_height s = max_contiguous_height (cs_inner s)"

definition cached_height_highwater :: "'c cached_store \<Rightarrow> u64" where
  "cached_height_highwater s = height_highwater (cs_inner s)"

definition cached_min_block_height :: "'c cached_store \<Rightarrow> u64" where
  "cached_min_block_height s = min_block_height (cs_inner s)"

section \<open>Coherence\<close>

text \<open>Every cached block is the block the inner store holds; \<open>coherent_at\<close> is the same at one height.\<close>

definition coherent_at :: "'c lru \<Rightarrow> libs \<Rightarrow> 'c cached_store \<Rightarrow> u64 \<Rightarrow> bool" where
  "coherent_at Q L s h \<longleftrightarrow>
     (\<forall>b. lru_peek Q (cs_cache s) h = Some b \<longrightarrow> contents L (cs_inner s) h = Some b)"

definition cached_ok :: "'c lru \<Rightarrow> libs \<Rightarrow> 'c cached_store \<Rightarrow> bool" where
  "cached_ok Q L s \<longleftrightarrow> lru_lawful Q \<and> store_ok (cs_inner s) \<and> (\<forall>h. coherent_at Q L s h)"

text \<open>A block whose insertion leaves no older block under its height.\<close>

definition cacheable :: "'c lru \<Rightarrow> 'c cached_store \<Rightarrow> bytes \<Rightarrow> bool" where
  "cacheable Q s b \<longleftrightarrow>
     (\<forall>h. lru_peek Q (snd (lru_insert Q heap_size h b (cs_cache s))) h \<in> {None, Some b})"

definition cached_fits :: "'c lru \<Rightarrow> libs \<Rightarrow> 'c cached_store \<Rightarrow> bytes \<Rightarrow> bool" where
  "cached_fits Q L s b \<longleftrightarrow> acceptable L (cs_inner s) b \<and> cacheable Q s b"

lemma populate_cases:
  assumes "populate Q h b s = (r, t)"
  obtains ok where "r = Ok ()" "lru_insert Q heap_size h b (cs_cache s) = (ok, cs_cache t)"
    "cs_inner t = cs_inner s"
  using assms by (auto simp: populate_def split: prod.splits)

lemma populate_coherent:
  assumes "lru_lawful Q" and "populate Q h b s = (r, t)" and "coherent_at Q L s h'"
    and "h' = h \<Longrightarrow> contents L (cs_inner s) h = Some b"
  shows "coherent_at Q L t h'"
  using assms(2)
proof (cases rule: populate_cases)
  case (1 ok)
  show ?thesis
    unfolding coherent_at_def
  proof (intro allI impI)
    fix w
    assume "lru_peek Q (cs_cache t) h' = Some w"
    from lru_insert_peek [OF assms(1) 1(2) this] assms(3,4) show "contents L (cs_inner t) h' = Some w"
      by (auto simp: coherent_at_def 1(3) split: if_splits)
  qed
qed

text \<open>A read is a hit, which touches only the cache, or a read of the inner store.\<close>

lemma cached_read_cases:
  assumes "cached_read_block Q L h s = (r, t)" and "lru_lawful Q"
  obtains (hit) b where "lru_peek Q (cs_cache s) h = Some b" "r = Ok (Some b)"
      "cs_inner t = cs_inner s" "lru_peek Q (cs_cache t) = lru_peek Q (cs_cache s)"
    | (miss) u c where "lru_peek Q (cs_cache s) h = None" "read_block L h (cs_inner s) = (r, u)"
        "lru_peek Q c = lru_peek Q (cs_cache s)" "cs_inner t = u"
        "t = (case r of Ok (Some b) \<Rightarrow> snd (populate Q h b \<lparr>cs_inner = u, cs_cache = c\<rparr>)
              | _ \<Rightarrow> \<lparr>cs_inner = u, cs_cache = c\<rparr>)"
proof -
  obtain x c where g: "lru_get Q h (cs_cache s) = (x, c)" by fastforce
  with lru_get_peek [OF assms(2)] have x: "x = lru_peek Q (cs_cache s) h"
    "lru_peek Q c = lru_peek Q (cs_cache s)" by blast+
  show ?thesis
  proof (cases x)
    case (Some b)
    then show ?thesis
      using assms(1) g x by (intro hit) (auto simp: cached_read_block_def cache_get_def io_bind_def io_simps)
  next
    case None
    obtain r' u where rd: "read_block L h (cs_inner s) = (r', u)" by fastforce
    have s': "s\<lparr>cs_cache := c, cs_inner := u\<rparr> = \<lparr>cs_inner = u, cs_cache = c\<rparr>" by simp
    have "cached_read_block Q L h s = (r',
        case r' of Ok (Some b) \<Rightarrow> snd (populate Q h b \<lparr>cs_inner = u, cs_cache = c\<rparr>)
        | _ \<Rightarrow> \<lparr>cs_inner = u, cs_cache = c\<rparr>)"
      using g None rd
      by (simp add: cached_read_block_def cache_get_def on_inner_def populate_def io_bind_def io_simps
          s' [simplified] split: res.split option.split prod.split)
    from trans [OF sym [OF assms(1)] this] have rt: "r = r'"
      and t: "t = (case r' of Ok (Some b) \<Rightarrow> snd (populate Q h b \<lparr>cs_inner = u, cs_cache = c\<rparr>)
        | _ \<Rightarrow> \<lparr>cs_inner = u, cs_cache = c\<rparr>)"
      by (simp_all only: prod.inject)
    then have "cs_inner t = u"
      by (auto simp: populate_def split: res.splits option.splits prod.splits)
    then show ?thesis using None x rd rt t by (intro miss) auto
  qed
qed

lemma cached_read_keeps:
  assumes "cached_ok Q L s" and "cached_read_block Q L h s = (r, t)"
  shows "contents L (cs_inner t) = contents L (cs_inner s) \<and> cached_ok Q L t \<and>
    (\<forall>x. r = Ok x \<longrightarrow> x = contents L (cs_inner s) h)"
proof -
  from assms(1) have q: "lru_lawful Q" and ok: "store_ok (cs_inner s)" and co: "\<And>h. coherent_at Q L s h"
    by (auto simp: cached_ok_def)
  from assms(2) q show ?thesis
  proof (cases rule: cached_read_cases)
    case (hit b)
    then show ?thesis using q ok co by (auto simp: cached_ok_def coherent_at_def)
  next
    case (miss u c)
    note keep = store.rd_keeps [OF ok miss(2)]
    let ?m = "\<lparr>cs_inner = u, cs_cache = c\<rparr>"
    have m: "\<And>h. coherent_at Q L ?m h" using co keep miss(3) by (simp add: coherent_at_def)
    have view: "\<And>x. r = Ok x \<Longrightarrow> x = contents L (cs_inner s) h"
      using store.rd_view [OF ok] miss(2) by blast
    have "coherent_at Q L t h'" for h'
    proof (cases "\<exists>b. r = Ok (Some b)")
      case True
      then obtain b where b: "r = Ok (Some b)" ..
      then have "t = snd (populate Q h b ?m)" using miss(5) by simp
      moreover have "contents L (cs_inner ?m) h = Some b" using view [OF b] keep by simp
      ultimately show ?thesis
        using populate_coherent [OF q prod.collapse [symmetric] m] by simp
    next
      case False
      then have "t = ?m" using miss(5) by (auto split: res.splits option.splits)
      then show ?thesis using m by simp
    qed
    then show ?thesis using q keep miss(4) view by (simp add: cached_ok_def)
  qed
qed

lemma cached_write_cases:
  assumes "cached_write_block Q L h b s = (r, t)"
  obtains (written) u where "write_block L h b (cs_inner s) = (Ok (), u)"
      "populate Q h b (s\<lparr>cs_inner := u\<rparr>) = (r, t)"
    | (failed) u where "write_block L h b (cs_inner s) = (r, u)" "\<not> is_ok r" "t = s\<lparr>cs_inner := u\<rparr>"
  using assms
  by (cases "write_block L h b (cs_inner s)"; cases "fst (write_block L h b (cs_inner s))")
    (auto simp: cached_write_block_def on_inner_def io_bind_def)

lemma cached_write_view:
  assumes "cached_ok Q L s" and fits: "cached_fits Q L s b"
    and "cached_write_block Q L h b s = (Ok (), t)"
  shows "contents L (cs_inner t) = (contents L (cs_inner s))(h \<mapsto> b) \<and> cached_ok Q L t"
  using assms(3)
proof (cases rule: cached_write_cases)
  case (written u)
  from assms(1) have q: "lru_lawful Q" and ok: "store_ok (cs_inner s)" and co: "\<And>h. coherent_at Q L s h"
    by (auto simp: cached_ok_def)
  have w: "contents L u = (contents L (cs_inner s))(h \<mapsto> b)" "store_ok u"
    using store.wr_view [OF ok _ written(1)] fits by (auto simp: cached_fits_def)
  from written(2) obtain k where k: "lru_insert Q heap_size h b (cs_cache s) = (k, cs_cache t)"
    and t: "cs_inner t = u" by (auto elim: populate_cases)
  have "coherent_at Q L t h'" for h'
  proof (cases "h' = h")
    case True
    have "lru_peek Q (cs_cache t) h \<in> {None, Some b}"
      using fits k unfolding cached_fits_def cacheable_def by (metis snd_conv)
    then show ?thesis using True w t by (auto simp: coherent_at_def)
  next
    case False
    then have "coherent_at Q L (s\<lparr>cs_inner := u\<rparr>) h'" using co [of h'] w by (simp add: coherent_at_def)
    with False show ?thesis using populate_coherent [OF q written(2)] by blast
  qed
  then show ?thesis using q w t by (simp add: cached_ok_def)
next
  case failed
  then show ?thesis by simp
qed

interpretation cached: block_map "cached_write_block Q L" "cached_read_block Q L"
  "\<lambda>s. contents L (cs_inner s)" "cached_ok Q L" "cached_fits Q L" for Q :: "'c lru" and L
proof
  fix s :: "'c cached_store" and h r t
  assume "cached_ok Q L s" "cached_read_block Q L h s = (r, t)"
  then show "contents L (cs_inner t) = contents L (cs_inner s) \<and> cached_ok Q L t"
    using cached_read_keeps by metis
next
  fix s :: "'c cached_store" and h x t
  assume "cached_ok Q L s" "cached_read_block Q L h s = (Ok x, t)"
  then show "x = contents L (cs_inner s) h" using cached_read_keeps by metis
qed (rule cached_write_view)

section \<open>An instance of the cache\<close>

text \<open>A list, most recently used first, cut where the budget ends.\<close>

fun trim :: "(bytes \<Rightarrow> nat) \<Rightarrow> nat \<Rightarrow> (u64 \<times> bytes) list \<Rightarrow> (u64 \<times> bytes) list" where
  "trim hs n [] = []"
| "trim hs n (p # ps) = (if hs (snd p) \<le> n then p # trim hs (n - hs (snd p)) ps else [])"

definition list_lru :: "(nat \<times> (u64 \<times> bytes) list) lru" where
  "list_lru =
     \<lparr>lru_new = (\<lambda>n. (n, [])),
      lru_peek = (\<lambda>c k. map_of (snd c) k),
      lru_get = (\<lambda>k c. case map_of (snd c) k of
         None \<Rightarrow> (None, c)
       | Some b \<Rightarrow> (Some b, (fst c, (k, b) # AList.delete k (snd c)))),
      lru_insert = (\<lambda>hs k v c.
         if hs v \<le> fst c then (True, (fst c, trim hs (fst c) ((k, v) # AList.delete k (snd c))))
         else (False, c))\<rparr>"

lemma map_of_trim: "map_of (trim hs n ps) k \<in> {None, map_of ps k}"
  by (induction ps arbitrary: n) auto

lemma map_of_trim_Some: "map_of (trim hs n ps) k = Some v \<Longrightarrow> map_of ps k = Some v"
  using map_of_trim [of hs n ps k] by auto

lemma list_lru_lawful [simp]: "lru_lawful list_lru"
  unfolding lru_lawful_def
proof (intro conjI allI impI)
  fix k c
  show "fst (lru_get list_lru k c) = lru_peek list_lru c k"
    by (auto simp: list_lru_def split: option.split)
  show "lru_peek list_lru (snd (lru_get list_lru k c)) = lru_peek list_lru c"
    by (auto simp: list_lru_def fun_eq_iff map_of_delete_eq split: option.split)
next
  fix hs k v c
  assume "fst (lru_insert list_lru hs k v c)"
  then show "lru_peek list_lru (snd (lru_insert list_lru hs k v c)) k = Some v"
    by (simp add: list_lru_def split: if_splits)
next
  fix hs k v c k'
  assume "k' \<noteq> k \<or> \<not> fst (lru_insert list_lru hs k v c)"
  then show "lru_peek list_lru (snd (lru_insert list_lru hs k v c)) k' \<in> {None, lru_peek list_lru c k'}"
    using map_of_trim_Some [of hs "fst c - hs v" "AList.delete k (snd c)" k']
    by (cases "map_of (trim hs (fst c - hs v) (AList.delete k (snd c))) k'")
      (auto simp: list_lru_def map_of_delete_eq split: if_splits)
qed (simp add: list_lru_def)

lemma list_lru_cacheable: "cs_cache s = (n, es) \<Longrightarrow> length b \<le> n \<Longrightarrow> cacheable list_lru s b"
  by (simp add: cacheable_def list_lru_def heap_size_def)

lemma list_lru_peek: "lru_peek list_lru (n, es) k = map_of es k"
  and list_lru_refuses: "n < length b \<Longrightarrow> lru_insert list_lru heap_size h b (n, es) = (False, (n, es))"
  by (simp_all add: list_lru_def heap_size_def)

text \<open>The cached form of the store that holds one block, with an empty and with a warm cache.\<close>

definition cold_cache :: "(nat \<times> (u64 \<times> bytes) list) cached_store" where
  "cold_cache = \<lparr>cs_inner = one_block_store, cs_cache = lru_new list_lru 3\<rparr>"

lemma cold_cache_ok [simp]:
  "cached_ok list_lru plain_libs cold_cache"
  "contents plain_libs (cs_inner cold_cache) = [7 \<mapsto> [1, 2, 3]]"
  by (simp_all add: cached_ok_def cold_cache_def coherent_at_def lru_new_peek)

lemma cold_read_ok: "cached_read_block list_lru plain_libs 7 cold_cache = (r, t) \<Longrightarrow> is_ok r"
proof -
  have "is_ok (fst (cached_read_block list_lru plain_libs 7 cold_cache))" by code_simp
  then show "cached_read_block list_lru plain_libs 7 cold_cache = (r, t) \<Longrightarrow> is_ok r" by simp
qed

definition warm_cache :: "(nat \<times> (u64 \<times> bytes) list) cached_store" where
  "warm_cache = snd (cached_read_block list_lru plain_libs 7 cold_cache)"

lemma warm_cache_ok [simp]:
  "cached_ok list_lru plain_libs warm_cache" "ready (cs_inner warm_cache)"
  "contents plain_libs (cs_inner warm_cache) = [7 \<mapsto> [1, 2, 3]]"
  "cs_cache warm_cache = (3, [(7, [1, 2, 3])])" "addressable (cs_inner warm_cache)"
proof -
  obtain r where c: "cached_read_block list_lru plain_libs 7 cold_cache = (r, warm_cache)"
    by (metis prod.collapse warm_cache_def)
  from cached_read_keeps [OF cold_cache_ok(1) c] show
    "cached_ok list_lru plain_libs warm_cache"
    "contents plain_libs (cs_inner warm_cache) = [7 \<mapsto> [1, 2, 3]]"
    by simp_all
  obtain v where v: "read_block plain_libs 7 one_block_store = (peek plain_libs one_block_store 7, v)" "ready v"
    by (rule read_block_ready [OF one_block_store_ok(1)])
  from c list_lru_lawful show "ready (cs_inner warm_cache)"
    by (cases rule: cached_read_cases) (use v in \<open>simp_all add: cold_cache_def\<close>)
  show "cs_cache warm_cache = (3, [(7, [1, 2, 3])])" by code_simp
  have "fs_max_data_file_size (cs_inner warm_cache) = None" by code_simp
  then show "addressable (cs_inner warm_cache)" by (simp add: addressable_def)
qed

section \<open>Claims\<close>

text \<open>
  C12: on a cached store that is coherent, every read that returns \<open>Ok\<close> returns what the inner
  store holds, whether it hits or misses and whichever system calls fail, and keeps it coherent;
  a hit does not touch the inner store at all.
\<close>

theorem cached_read_is_view:
  assumes "cached_ok Q L s" and "cached_read_block Q L h s = (r, t)"
  shows "(\<forall>x. r = Ok x \<longrightarrow> x = contents L (cs_inner s) h) \<and>
    contents L (cs_inner t) = contents L (cs_inner s) \<and> cached_ok Q L t \<and>
    (lru_peek Q (cs_cache s) h \<noteq> None \<longrightarrow>
       r = Ok (lru_peek Q (cs_cache s) h) \<and> cs_inner t = cs_inner s)"
proof -
  have "lru_lawful Q" using assms(1) by (simp add: cached_ok_def)
  with assms(2) have "lru_peek Q (cs_cache s) h \<noteq> None \<longrightarrow>
       r = Ok (lru_peek Q (cs_cache s) h) \<and> cs_inner t = cs_inner s"
    by (cases rule: cached_read_cases) auto
  then show ?thesis using cached_read_keeps [OF assms] by blast
qed

theorem cached_read_is_view_witness:
  "fst (cached_read_block list_lru plain_libs 7 cold_cache) = Ok (Some [1, 2, 3]) \<and>
   fst (cached_read_block list_lru plain_libs 7 warm_cache) = Ok (Some [1, 2, 3]) \<and>
   cs_inner (snd (cached_read_block list_lru plain_libs 7 warm_cache)) = cs_inner warm_cache"
proof -
  obtain r t where c: "cached_read_block list_lru plain_libs 7 cold_cache = (r, t)"
    by (rule surj_pair [THEN exE, of "cached_read_block list_lru plain_libs 7 cold_cache"]) blast
  have "is_ok r" using c by (rule cold_read_ok)
  then have r: "r = Ok (Some [1, 2, 3])"
    using cached_read_is_view [OF cold_cache_ok(1) c] by (cases r) simp_all
  have "lru_peek list_lru (cs_cache warm_cache) 7 = Some [1, 2, 3]" by (simp add: list_lru_peek)
  then have "fst (cached_read_block list_lru plain_libs 7 warm_cache) = Ok (Some [1, 2, 3]) \<and>
      cs_inner (snd (cached_read_block list_lru plain_libs 7 warm_cache)) = cs_inner warm_cache"
    using cached_read_is_view [OF warm_cache_ok(1) prod.collapse [symmetric],
        THEN conjunct2, THEN conjunct2, THEN conjunct2, of 7] by (simp only:) simp
  with r show ?thesis by (simp add: c)
qed



text \<open>
  C31: caching is transparent: on a coherent store whose system calls succeed, a cached read
  returns exactly the result of the uncached read, errors included.
\<close>

theorem cached_read_equals_uncached:
  assumes "cached_ok Q L s" and "ready (cs_inner s)"
  shows "fst (cached_read_block Q L h s) = fst (read_block L h (cs_inner s))"
proof -
  from assms(1) have q: "lru_lawful Q" and co: "coherent_at Q L s h" by (auto simp: cached_ok_def)
  obtain v where rd: "read_block L h (cs_inner s) = (peek L (cs_inner s) h, v)"
    using assms(2) by (rule read_block_ready)
  obtain r t where c: "cached_read_block Q L h s = (r, t)" by fastforce
  then show ?thesis using q
  proof (cases rule: cached_read_cases)
    case (hit b)
    then have "contents L (cs_inner s) h = Some b" using co by (simp add: coherent_at_def)
    then show ?thesis
      using c hit(2) rd by (cases "peek L (cs_inner s) h") (simp_all add: contents_def)
  qed (use c in simp)
qed

theorem cached_read_equals_uncached_witness:
  "fst (cached_read_block list_lru plain_libs 7 warm_cache) =
     fst (read_block plain_libs 7 (cs_inner warm_cache)) \<and>
   fst (cached_read_block list_lru plain_libs 2 warm_cache) =
     fst (read_block plain_libs 2 (cs_inner warm_cache))"
  using cached_read_equals_uncached [of list_lru plain_libs warm_cache] by simp

text \<open>
  C32: a write that fails, anywhere, leaves the cache as it was, and a write, failed or not, leaves
  every other height that was coherent coherent.
\<close>

theorem cached_write_spares_other_heights:
  assumes "cached_ok Q L s" and "addressable (cs_inner s)"
    and "cached_write_block Q L h b s = (r, t)" and "h' \<noteq> h"
  shows "(\<not> is_ok r \<longrightarrow> cs_cache t = cs_cache s) \<and> coherent_at Q L t h' \<and>
    contents L (cs_inner t) h' = contents L (cs_inner s) h'"
proof -
  from assms(1) have q: "lru_lawful Q" and co: "coherent_at Q L s h'"
    and ok: "fs_inv (cs_inner s)" "entry_ok (cs_inner s) h'"
    by (auto simp: cached_ok_def store_ok_def sound_def)
  have same: "contents L u h' = contents L (cs_inner s) h'"
    if "write_block L h b (cs_inner s) = (q, u)" for q u
    using write_keeps_others [OF that ok(1) assms(2,4) ok(2)] by (simp add: contents_def)
  from assms(3) show ?thesis
  proof (cases rule: cached_write_cases)
    case (written u)
    then have "coherent_at Q L (s\<lparr>cs_inner := u\<rparr>) h'" using co same by (simp add: coherent_at_def)
    then have "coherent_at Q L t h'" using populate_coherent [OF q written(2)] assms(4) by blast
    then show ?thesis using written same by (auto elim: populate_cases)
  next
    case (failed u)
    then show ?thesis using same [OF failed(1)] co by (simp add: coherent_at_def)
  qed
qed

theorem cached_write_spares_other_heights_witness:
  "let t = snd (cached_write_block list_lru plain_libs 9 [4] warm_cache)
   in coherent_at list_lru plain_libs t 7 \<and> contents plain_libs (cs_inner t) 7 = Some [1, 2, 3]"
  using cached_write_spares_other_heights
    [of list_lru plain_libs warm_cache 9 "[4]" _ _ 7, OF _ _ prod.collapse [symmetric]]
  by (simp add: Let_def)

text \<open>
  C35: the limit of caching: a cached write of a block larger than the whole budget over a cached
  height returns \<open>Ok\<close>, and when the cache keeps its older entry on a refused insertion the next
  read returns the old block, although the store holds the new one.
\<close>

theorem oversize_overwrite_is_stale:
  assumes "cached_ok Q L s" and "acceptable L (cs_inner s) b"
    and "cached_write_block Q L h b s = (Ok (), t)"
    and "\<not> fst (lru_insert Q heap_size h b (cs_cache s))"
    and "lru_peek Q (snd (lru_insert Q heap_size h b (cs_cache s))) h = Some old"
  shows "fst (cached_read_block Q L h t) = Ok (Some old) \<and> contents L (cs_inner t) h = Some b"
proof -
  from assms(1) have q: "lru_lawful Q" and ok: "store_ok (cs_inner s)" by (auto simp: cached_ok_def)
  from assms(3) obtain u where w: "write_block L h b (cs_inner s) = (Ok (), u)"
    and p: "populate Q h b (s\<lparr>cs_inner := u\<rparr>) = (Ok (), t)"
    by (cases rule: cached_write_cases) auto
  from p have t: "cs_inner t = u" "lru_peek Q (cs_cache t) h = Some old"
    using assms(5) by (auto elim!: populate_cases)
  moreover have "contents L u h = Some b" using store.wr_view [OF ok assms(2) w] by simp
  moreover have "fst (cached_read_block Q L h t) = Ok (Some old)"
    using prod.collapse [symmetric, of "cached_read_block Q L h t"] q
    by (cases rule: cached_read_cases) (use t in simp_all)
  ultimately show ?thesis by simp
qed

theorem oversize_overwrite_is_stale_witness:
  "let t = snd (cached_write_block list_lru plain_libs 7 [4, 5, 6, 7] warm_cache)
   in fst (cached_read_block list_lru plain_libs 7 t) = Ok (Some [1, 2, 3]) \<and>
      contents plain_libs (cs_inner t) 7 = Some [4, 5, 6, 7]"
proof -
  let ?b = "[4, 5, 6, 7] :: bytes"
  have "fst (cached_write_block list_lru plain_libs 7 ?b warm_cache) = Ok ()" by code_simp
  then have "cached_write_block list_lru plain_libs 7 ?b warm_cache =
      (Ok (), snd (cached_write_block list_lru plain_libs 7 ?b warm_cache))" by (metis prod.collapse)
  then show ?thesis
    using oversize_overwrite_is_stale [of list_lru plain_libs warm_cache ?b 7 _ "[1, 2, 3]"]
    by (simp add: acceptable_def list_lru_peek list_lru_refuses Let_def)
qed

end
