(* ===== verification/Values.thy ===== *)
theory Values
  imports Bytes Effects "HOL-Library.AList"
begin

text \<open>
  The values that cross the C boundary (\<open>blockstore-ffi/src/value\<close>): slices borrowed from C,
  slices owned by Rust and handed to C, and the result enums.

  Rust's heap is a list of live boxed slices by address. An operation on an address that is not
  live, or with the wrong length, is undefined behaviour in the source and \<open>None\<close> here. The
  memory of the C caller is a function from addresses to bytes; that a borrowed slice points to
  initialised memory is the caller's obligation and holds of every such function.
\<close>

section \<open>The heap of boxed slices\<close>

record mem =
  live :: "(nat \<times> bytes) list"
  next_addr :: nat

text \<open>A box of no bytes has no allocation behind it: its pointer dangles, at the alignment.\<close>

definition dangling :: nat where
  "dangling = 1"

text \<open>\<open>Box::leak\<close> and \<open>Box::from_raw\<close>; the box a \<open>from_raw\<close> gives is freed when it goes out of scope.\<close>

definition box_leak :: "bytes \<Rightarrow> 'z mem_scheme \<Rightarrow> nat \<times> 'z mem_scheme" where
  "box_leak data m =
     (if data = [] then (dangling, m)
      else (next_addr m, m\<lparr>live := (next_addr m, data) # live m, next_addr := Suc (next_addr m)\<rparr>))"

definition box_from_raw :: "nat \<Rightarrow> nat \<Rightarrow> 'z mem_scheme \<Rightarrow> (bytes \<times> 'z mem_scheme) option" where
  "box_from_raw p n m =
     (if n = 0 then Some ([], m)
      else
        (case map_of (live m) p of
           None \<Rightarrow> None
         | Some data \<Rightarrow>
             if length data = n then Some (data, m\<lparr>live := AList.delete p (live m)\<rparr>) else None))"

section \<open>Owned slices\<close>

record owned =
  optr :: "nat option"
  olen :: nat

definition owned_as_slice :: "'z mem_scheme \<Rightarrow> owned \<Rightarrow> bytes option" where
  "owned_as_slice m ow =
     (case optr ow of
        None \<Rightarrow> Some []
      | Some p \<Rightarrow>
          if olen ow = 0 then Some []
          else (case map_of (live m) p of
                  None \<Rightarrow> None
                | Some data \<Rightarrow> if olen ow \<le> length data then Some (take (olen ow) data) else None))"

text \<open>\<open>take_box\<close> leaves the slice without its pointer.\<close>

definition take_box :: "owned \<Rightarrow> 'z mem_scheme \<Rightarrow> (bytes \<times> owned \<times> 'z mem_scheme) option" where
  "take_box ow m =
     (case optr ow of
        Some p \<Rightarrow>
          map_option (\<lambda>(data, m'). (data, ow\<lparr>optr := None\<rparr>, m')) (box_from_raw p (olen ow) m)
      | None \<Rightarrow> Some ([], ow, m))"

definition owned_of_box :: "bytes \<Rightarrow> 'z mem_scheme \<Rightarrow> owned \<times> 'z mem_scheme" where
  "owned_of_box data m =
     (let len = length data; (p, m') = box_leak data m
      in (\<lparr>optr = Some p, olen = len\<rparr>, m'))"

definition box_of_owned :: "owned \<Rightarrow> 'z mem_scheme \<Rightarrow> (bytes \<times> 'z mem_scheme) option" where
  "box_of_owned ow m = map_option (\<lambda>(data, _, m'). (data, m')) (take_box ow m)"

definition into_boxed_slice :: "owned \<Rightarrow> 'z mem_scheme \<Rightarrow> (bytes \<times> 'z mem_scheme) option" where
  "into_boxed_slice ow m = box_of_owned ow m"

definition owned_drop :: "owned \<Rightarrow> 'z mem_scheme \<Rightarrow> 'z mem_scheme option" where
  "owned_drop ow m = map_option (\<lambda>(_, _, m'). m') (take_box ow m)"

text \<open>\<open>From<Vec>\<close>, and \<open>From<String>\<close> by way of the bytes of the string.\<close>

definition owned_of_vec :: "bytes \<Rightarrow> 'z mem_scheme \<Rightarrow> owned \<times> 'z mem_scheme" where
  "owned_of_vec data m = owned_of_box data m"

definition string_bytes :: "string \<Rightarrow> bytes" where
  "string_bytes s = map of_char s"

definition owned_of_string :: "string \<Rightarrow> 'z mem_scheme \<Rightarrow> owned \<times> 'z mem_scheme" where
  "owned_of_string s m = owned_of_vec (string_bytes s) m"

section \<open>Borrowed slices\<close>

text \<open>The address 0 is the null pointer.\<close>

record borrowed =
  bptr :: nat
  blen :: nat

definition borrowed_as_slice :: "(nat \<Rightarrow> u8) \<Rightarrow> borrowed \<Rightarrow> bytes" where
  "borrowed_as_slice cmem b = (if bptr b = 0 then [] else map (\<lambda>i. cmem (bptr b + i)) [0..<blen b])"

definition borrowed_from_slice :: "nat \<Rightarrow> nat \<Rightarrow> borrowed" where
  "borrowed_from_slice p n = \<lparr>bptr = p, blen = n\<rparr>"

definition borrowed_is_null :: "borrowed \<Rightarrow> bool" where
  "borrowed_is_null b \<longleftrightarrow> bptr b = 0"

text \<open>
  \<open>str::from_utf8\<close>: the end of the longest valid prefix and the length of the bad sequence after
  it, \<open>None\<close> when the string only ends too early.
\<close>

definition between :: "u8 \<Rightarrow> u8 \<Rightarrow> u8 \<Rightarrow> bool" where
  "between lo hi b \<longleftrightarrow> lo \<le> b \<and> b \<le> hi"

definition continuation :: "u8 \<Rightarrow> bool" where
  "continuation b \<longleftrightarrow> between 0x80 0xBF b"

datatype sequence_check = Good nat | Bad nat | Cut

text \<open>The sequence that starts with \<open>b\<close>, whose second byte is restricted for some first bytes.\<close>

definition second_ok :: "u8 \<Rightarrow> u8 \<Rightarrow> bool" where
  "second_ok b c \<longleftrightarrow>
     (if b = 0xE0 then between 0xA0 0xBF c
      else if b = 0xED then between 0x80 0x9F c
      else if b = 0xF0 then between 0x90 0xBF c
      else if b = 0xF4 then between 0x80 0x8F c
      else continuation c)"

definition check_sequence :: "u8 \<Rightarrow> bytes \<Rightarrow> sequence_check" where
  "check_sequence b bs =
     (let width = (if b < 0x80 then 1 else if between 0xC2 0xDF b then 2
                   else if between 0xE0 0xEF b then 3 else if between 0xF0 0xF4 b then 4
                   else 0 :: nat)
      in if width = 0 then Bad 1
         else if width = 1 then Good 1
         else
           (case bs of
              [] \<Rightarrow> Cut
            | c1 # bs1 \<Rightarrow>
                if \<not> second_ok b c1 then Bad 1
                else if width = 2 then Good 2
                else
                  (case bs1 of
                     [] \<Rightarrow> Cut
                   | c2 # bs2 \<Rightarrow>
                       if \<not> continuation c2 then Bad 2
                       else if width = 3 then Good 3
                       else
                         (case bs2 of
                            [] \<Rightarrow> Cut
                          | c3 # bs3 \<Rightarrow> if \<not> continuation c3 then Bad 3 else Good 4))))"

datatype utf8_error = Utf8Error (valid_up_to: nat) (error_len: "nat option")

function check_utf8 :: "nat \<Rightarrow> bytes \<Rightarrow> utf8_error option" where
  "check_utf8 i [] = None"
| "check_utf8 i (b # bs) =
     (case check_sequence b bs of
        Good n \<Rightarrow> check_utf8 (i + n) (drop (n - 1) bs)
      | Bad n \<Rightarrow> Some (Utf8Error i (Some n))
      | Cut \<Rightarrow> Some (Utf8Error i None))"
  by pat_completeness auto
termination by (relation "measure (\<lambda>(i, bs). length bs)") auto

definition from_utf8 :: "bytes \<Rightarrow> utf8_error + bytes" where
  "from_utf8 bs = (case check_utf8 0 bs of None \<Rightarrow> Inr bs | Some e \<Rightarrow> Inl e)"

text \<open>\<open>Display for Utf8Error\<close>.\<close>

fun utf8_message :: "utf8_error \<Rightarrow> string" where
  "utf8_message (Utf8Error i (Some n)) =
     ''invalid utf-8 sequence of '' @ dec n @ '' bytes from index '' @ dec i"
| "utf8_message (Utf8Error i None) = ''incomplete utf-8 byte sequence from index '' @ dec i"

definition borrowed_as_str :: "(nat \<Rightarrow> u8) \<Rightarrow> borrowed \<Rightarrow> utf8_error + bytes" where
  "borrowed_as_str cmem b = from_utf8 (borrowed_as_slice cmem b)"

section \<open>Results\<close>

datatype void_result = VoidNullHandlePointer | VoidOk | VoidErr owned

datatype store_handle_result = HandleOk nat | HandleErr owned

datatype block_result = BlockNullHandlePointer | BlockNone | BlockSome owned | BlockErr owned

text \<open>
  The conversions. \<open>Result<T, E>\<close> is a sum, and an error is displayed as its message; the last of
  them allocates the box of the handle.
\<close>

definition void_of_unit :: "unit \<Rightarrow> 's \<Rightarrow> void_result \<times> 's" where
  "void_of_unit u m = (VoidOk, m)"

definition void_of_result :: "err + unit \<Rightarrow> 'z mem_scheme \<Rightarrow> void_result \<times> 'z mem_scheme" where
  "void_of_result r m =
     (case r of
        Inr u \<Rightarrow> (VoidOk, m)
      | Inl e \<Rightarrow> (case owned_of_string (message e) m of (ow, m') \<Rightarrow> (VoidErr ow, m')))"

definition handle_of_result ::
  "('a \<Rightarrow> 'z mem_scheme \<Rightarrow> nat \<times> 'z mem_scheme) \<Rightarrow> err + 'a \<Rightarrow> 'z mem_scheme \<Rightarrow>
     store_handle_result \<times> 'z mem_scheme" where
  "handle_of_result box_new r m =
     (case r of
        Inr store \<Rightarrow> (case box_new store m of (a, m') \<Rightarrow> (HandleOk a, m'))
      | Inl e \<Rightarrow> (case owned_of_string (message e) m of (ow, m') \<Rightarrow> (HandleErr ow, m')))"

definition block_of_result ::
  "err + bytes option \<Rightarrow> 'z mem_scheme \<Rightarrow> block_result \<times> 'z mem_scheme" where
  "block_of_result r m =
     (case r of
        Inr None \<Rightarrow> (BlockNone, m)
      | Inr (Some data) \<Rightarrow> (case owned_of_box data m of (ow, m') \<Rightarrow> (BlockSome ow, m'))
      | Inl e \<Rightarrow> (case owned_of_string (message e) m of (ow, m') \<Rightarrow> (BlockErr ow, m')))"

text \<open>\<open>NullHandleResult\<close> of the two enums that have the variant.\<close>

definition void_null_handle :: void_result where
  "void_null_handle = VoidNullHandlePointer"

definition block_null_handle :: block_result where
  "block_null_handle = BlockNullHandlePointer"

section \<open>Panics\<close>

text \<open>What a panic may carry: each error trait object by the text it displays.\<close>

datatype payload =
  StrPayload string | StringPayload string | SendSyncErrPayload string | SendErrPayload string |
  OtherPayload

datatype caught =
  Static string | Formatted string | SendSyncErr string | SendErr string | Unknown

fun caught_of :: "payload \<Rightarrow> caught" where
  "caught_of (StrPayload s) = Static s"
| "caught_of (StringPayload s) = Formatted s"
| "caught_of (SendSyncErrPayload s) = SendSyncErr s"
| "caught_of (SendErrPayload s) = SendErr s"
| "caught_of OtherPayload = Unknown"

fun caught_message :: "caught \<Rightarrow> string" where
  "caught_message (Static msg) = msg"
| "caught_message (Formatted msg) = msg"
| "caught_message (SendSyncErr e) = e"
| "caught_message (SendErr e) = e"
| "caught_message Unknown = ''unknown panic type recovered''"

text \<open>\<open>CResult::from_err\<close> of each enum, given the constructor, and \<open>CResult::from_panic\<close>.\<close>

definition from_err :: "(owned \<Rightarrow> 't) \<Rightarrow> string \<Rightarrow> 'z mem_scheme \<Rightarrow> 't \<times> 'z mem_scheme" where
  "from_err mk msg m = (case owned_of_string msg m of (ow, m') \<Rightarrow> (mk ow, m'))"

definition from_panic :: "(owned \<Rightarrow> 't) \<Rightarrow> payload \<Rightarrow> 'z mem_scheme \<Rightarrow> 't \<times> 'z mem_scheme" where
  "from_panic mk p m = from_err mk (caught_message (caught_of p)) m"

section \<open>Laws of the heap\<close>

definition mem_ok :: "'z mem_scheme \<Rightarrow> bool" where
  "mem_ok m \<longleftrightarrow>
     distinct (map fst (live m)) \<and> dangling < next_addr m \<and>
     (\<forall>(a, d) \<in> set (live m). dangling < a \<and> a < next_addr m \<and> d \<noteq> [])"

lemma mem_ok_fresh: "mem_ok m \<Longrightarrow> next_addr m \<notin> fst ` set (live m)"
  by (force simp: mem_ok_def)

lemma mem_ok_next: "mem_ok m \<Longrightarrow> mem_ok (m\<lparr>next_addr := Suc (next_addr m)\<rparr>)"
  by (force simp: mem_ok_def)

text \<open>A slice given to C: what it reads as, and that only it is new.\<close>

lemma owned_of_box_cases:
  assumes "owned_of_box data m = (ow, m')" and "mem_ok m"
  obtains (empty) "data = []" "ow = \<lparr>optr = Some dangling, olen = 0\<rparr>" "m' = m"
    | (alloc) "data \<noteq> []" "ow = \<lparr>optr = Some (next_addr m), olen = length data\<rparr>"
        "m' = m\<lparr>live := (next_addr m, data) # live m, next_addr := Suc (next_addr m)\<rparr>" "mem_ok m'"
  using assms mem_ok_fresh [OF assms(2)]
  by (cases "data = []") (force simp: owned_of_box_def box_leak_def mem_ok_def Let_def)+

lemma owned_of_box_read:
  assumes "owned_of_box data m = (ow, m')" and "mem_ok m"
  shows "owned_as_slice m' ow = Some data \<and> mem_ok m'"
  using assms by (cases rule: owned_of_box_cases) (use assms(2) in \<open>simp_all add: owned_as_slice_def\<close>)

text \<open>Freeing it gives the heap back as it was, but for the next address.\<close>

lemma owned_drop_of_box:
  assumes "owned_of_box data m = (ow, m')" and "mem_ok m"
  shows "\<exists>m''. owned_drop ow m' = Some m'' \<and> live m'' = live m"
  using assms
proof (cases rule: owned_of_box_cases)
  case alloc
  have "AList.delete (next_addr m) (live m) = live m"
    using mem_ok_fresh [OF assms(2)] by (simp add: delete_id)
  then show ?thesis using alloc by (simp add: owned_drop_def take_box_def box_from_raw_def)
qed (simp add: owned_drop_def take_box_def box_from_raw_def)

text \<open>Freeing it again is not defined.\<close>

lemma owned_drop_twice:
  assumes "owned_of_box data m = (ow, m')" and "mem_ok m" and "data \<noteq> []"
    and "owned_drop ow m' = Some m''"
  shows "owned_drop ow m'' = None"
  using assms(1,2)
proof (cases rule: owned_of_box_cases)
  case alloc
  then have "map_of (live m'') (next_addr m) = None"
    using assms(4) by (auto simp: owned_drop_def take_box_def box_from_raw_def delete_conv')
  then show ?thesis using alloc by (simp add: owned_drop_def take_box_def box_from_raw_def)
qed (use assms(3) in simp)

text \<open>Dropping a slice whose pointer was taken does nothing.\<close>

lemma drop_after_take:
  "take_box ow m = Some (d, ow', m') \<Longrightarrow> owned_drop ow' m' = Some m'"
  by (auto simp: take_box_def owned_drop_def split: option.splits)

text \<open>Plain text is valid UTF-8.\<close>

lemma check_utf8_ascii: "\<forall>b \<in> set bs. b < 0x80 \<Longrightarrow> check_utf8 i bs = None"
  by (induction i bs rule: check_utf8.induct) (auto simp: check_sequence_def)

end
