(* ===== verification/Ffi.thy ===== *)
theory Ffi
  imports Cached Values Fresh "HOL-Library.Multiset"
begin

text \<open>
  \<open>blockstore-ffi/src/lib.rs\<close>: the functions exported to C. The state of the process is Rust's
  heap (boxed slices and boxed stores), the memory of C, and the directories of closed stores.
  A call with a handle that is neither null nor live is undefined behaviour, and gives \<open>None\<close>;
  every other outcome, a panic of the library included, is a value of the result enum.

  The build unwinds (no profile sets \<open>panic = "abort"\<close>), so the \<open>panic = "unwind"\<close> branch of
  \<open>invoke\<close> is the one modelled.
\<close>

section \<open>The handle\<close>

datatype 'c ffi_store = Uncached store | Cached "'c cached_store"

definition core_store :: "'c ffi_store \<Rightarrow> store" where
  "core_store h = (case h of Uncached s \<Rightarrow> s | Cached c \<Rightarrow> cs_inner c)"

text \<open>\<open>forward!\<close>: the same call on whichever store the handle holds.\<close>

definition forward ::
  "(store, 'a) io \<Rightarrow> ('c cached_store, 'a) io \<Rightarrow> ('c ffi_store, 'a) io" where
  "forward f g h =
     (case h of
        Uncached s \<Rightarrow> (case f s of (r, t) \<Rightarrow> (r, Uncached t))
      | Cached c \<Rightarrow> (case g c of (r, d) \<Rightarrow> (r, Cached d)))"

definition ffi_write_block ::
  "'c lru \<Rightarrow> libs \<Rightarrow> u64 \<Rightarrow> bytes \<Rightarrow> ('c ffi_store, unit) io" where
  "ffi_write_block Q L height data =
     forward (write_block L height data) (cached_write_block Q L height data)"

definition ffi_read_block ::
  "'c lru \<Rightarrow> libs \<Rightarrow> u64 \<Rightarrow> ('c ffi_store, bytes option) io" where
  "ffi_read_block Q L height = forward (read_block L height) (cached_read_block Q L height)"

definition ffi_max_contiguous_height :: "'c ffi_store \<Rightarrow> u64" where
  "ffi_max_contiguous_height h =
     (case h of Uncached s \<Rightarrow> max_contiguous_height s | Cached c \<Rightarrow> cached_max_contiguous_height c)"

definition ffi_height_highwater :: "'c ffi_store \<Rightarrow> u64" where
  "ffi_height_highwater h =
     (case h of Uncached s \<Rightarrow> height_highwater s | Cached c \<Rightarrow> cached_height_highwater c)"

definition ffi_min_block_height :: "'c ffi_store \<Rightarrow> u64" where
  "ffi_min_block_height h =
     (case h of Uncached s \<Rightarrow> min_block_height s | Cached c \<Rightarrow> cached_min_block_height c)"

section \<open>The process\<close>

text \<open>
  A live box carries the path it was opened at. The directory of an open store is the one inside
  the store; \<open>dirs\<close> holds the others.
\<close>

record 'c ffi = mem +
  cmem :: "nat \<Rightarrow> u8"
  boxes :: "(nat \<times> bytes \<times> 'c ffi_store) list"
  dirs :: "(bytes \<times> world) list"

definition map_core :: "(store \<Rightarrow> store) \<Rightarrow> 'c ffi_store \<Rightarrow> 'c ffi_store" where
  "map_core f h =
     (case h of Uncached s \<Rightarrow> Uncached (f s) | Cached c \<Rightarrow> Cached (c\<lparr>cs_inner := f (cs_inner c)\<rparr>))"

definition dir_world :: "bytes \<Rightarrow> 'c ffi \<Rightarrow> world option" where
  "dir_world path st =
     (case filter (\<lambda>(a, p, h). p = path) (boxes st) of
        (a, p, h) # _ \<Rightarrow> Some (world_part (core_store h))
      | [] \<Rightarrow> map_of (dirs st) path)"

definition put_dir :: "bytes \<Rightarrow> world \<Rightarrow> 'c ffi \<Rightarrow> 'c ffi" where
  "put_dir path w st =
     (if \<exists>b \<in> set (boxes st). fst (snd b) = path
      then st\<lparr>boxes := map (\<lambda>(a, p, h). (a, p, if p = path then map_core (set_world w) h else h)) (boxes st)\<rparr>
      else st\<lparr>dirs := AList.update path w (dirs st)\<rparr>)"

definition box_store :: "bytes \<times> 'c ffi_store \<Rightarrow> 'c ffi \<Rightarrow> nat \<times> 'c ffi" where
  "box_store ph st =
     (next_addr st,
      st\<lparr>boxes := (next_addr st, ph) # boxes st, next_addr := Suc (next_addr st)\<rparr>)"

definition on_box :: "nat \<Rightarrow> ('c ffi_store, 'a) io \<Rightarrow> ('c ffi, 'a) io" where
  "on_box a m st =
     (case map_of (boxes st) a of
        Some (p, h) \<Rightarrow> (case m h of (r, h') \<Rightarrow> (r, st\<lparr>boxes := AList.update a (p, h') (boxes st)\<rparr>))
      | None \<Rightarrow> (Panic [], st))"

text \<open>A handle argument C may pass: null, or the address of a live box.\<close>

definition valid_handle :: "nat option \<Rightarrow> 'c ffi \<Rightarrow> bool" where
  "valid_handle handle st \<longleftrightarrow> (case handle of None \<Rightarrow> True | Some a \<Rightarrow> a \<in> fst ` set (boxes st))"

section \<open>Calls\<close>

definition invoke ::
  "(err + 'v \<Rightarrow> 's \<Rightarrow> 't \<times> 's) \<Rightarrow> (payload \<Rightarrow> 's \<Rightarrow> 't \<times> 's) \<Rightarrow> ('s, 'v) io \<Rightarrow> 's \<Rightarrow> 't \<times> 's" where
  "invoke into panicked once s =
     (case once s of
        (Ok v, t) \<Rightarrow> into (Inr v) t
      | (Err e, t) \<Rightarrow> into (Inl e) t
      | (Panic m, t) \<Rightarrow> panicked (StringPayload m) t)"

definition invoke_with_handle ::
  "'t \<Rightarrow> (err + 'v \<Rightarrow> 's \<Rightarrow> 't \<times> 's) \<Rightarrow> (payload \<Rightarrow> 's \<Rightarrow> 't \<times> 's) \<Rightarrow> 'h option \<Rightarrow>
     ('h \<Rightarrow> ('s, 'v) io) \<Rightarrow> 's \<Rightarrow> 't \<times> 's" where
  "invoke_with_handle null_handle into panicked handle once s =
     (case handle of Some h \<Rightarrow> invoke into panicked (once h) s | None \<Rightarrow> (null_handle, s))"

record store_args =
  sa_path :: borrowed
  sa_cache_size :: nat
  sa_max_data_file_size :: u64
  sa_minimum_height :: u64
  sa_max_data_files :: nat
  sa_truncate :: bool
  sa_sync :: sync_mode

text \<open>The options \<open>bs_open_store\<close> builds: 0 stands for a default, except for the minimum height.\<close>

definition options_of_args :: "store_args \<Rightarrow> store_options" where
  "options_of_args args =
     \<lparr>opt_cache_size = (if sa_cache_size args = 0 then 1 else sa_cache_size args),
      opt_truncate = sa_truncate args,
      opt_sync = sa_sync args,
      opt_minimum_height = sa_minimum_height args,
      opt_max_data_file_size =
        (if sa_max_data_file_size args = 0 then None else Some (sa_max_data_file_size args)),
      opt_max_data_files =
        (if sa_max_data_files args = 0 then DEFAULT_MAX_DATA_FILES else sa_max_data_files args)\<rparr>"

text \<open>Opening the directory at a path, one that does not exist included.\<close>

definition open_at ::
  "'c lru \<Rightarrow> libs \<Rightarrow> bool \<Rightarrow> store_options \<Rightarrow> bytes \<Rightarrow> ('c ffi, 'c ffi_store) io" where
  "open_at Q L cached options path st =
     (case dir_world path st of
        None \<Rightarrow> (Err (Error NotFound ''No such file or directory (os error 2)''), st)
      | Some w \<Rightarrow>
          if cached
          then (case cached_open Q L options w of
                  CachedOpened c \<Rightarrow> (Ok (Cached c), st)
                | CachedFailed e v \<Rightarrow> (Err e, put_dir path v st)
                | CachedCrashed m v \<Rightarrow> (Panic m, put_dir path v st))
          else (case open_store L options w of
                  Opened s \<Rightarrow> (Ok (Uncached s), st)
                | Failed e v \<Rightarrow> (Err e, put_dir path v st)
                | Crashed m v \<Rightarrow> (Panic m, put_dir path v st)))"

definition bs_open_store ::
  "'c lru \<Rightarrow> libs \<Rightarrow> store_args \<Rightarrow> 'c ffi \<Rightarrow> store_handle_result \<times> 'c ffi" where
  "bs_open_store Q L args =
     invoke (handle_of_result box_store) (from_panic HandleErr)
       (io_bind (gets (\<lambda>st. borrowed_as_str (cmem st) (sa_path args))) (\<lambda>path_str.
        case path_str of
          Inl e \<Rightarrow> fail InvalidData (utf8_message e)
        | Inr path \<Rightarrow>
            io_bind (open_at Q L (sa_cache_size args \<noteq> 0) (options_of_args args) path) (\<lambda>store.
            ret (path, store))))"

text \<open>Dropping the box: the store is dropped and its directory is closed.\<close>

definition drop_box :: "nat \<Rightarrow> ('c ffi, unit) io" where
  "drop_box a st =
     (case map_of (boxes st) a of
        Some (p, h) \<Rightarrow>
          (Ok (), st\<lparr>boxes := AList.delete a (boxes st),
                     dirs := AList.update p (drop_store (core_store h)) (dirs st)\<rparr>)
      | None \<Rightarrow> (Panic [], st))"

definition bs_close_store :: "nat option \<Rightarrow> 'c ffi \<Rightarrow> (void_result \<times> 'c ffi) option" where
  "bs_close_store handle st =
     (if valid_handle handle st
      then Some (invoke_with_handle void_null_handle (\<lambda>r. void_of_unit ()) (from_panic VoidErr)
                   handle drop_box st)
      else None)"

definition bs_write_block ::
  "'c lru \<Rightarrow> libs \<Rightarrow> nat option \<Rightarrow> u64 \<Rightarrow> borrowed \<Rightarrow> 'c ffi \<Rightarrow> (void_result \<times> 'c ffi) option" where
  "bs_write_block Q L handle height data st =
     (if valid_handle handle st
      then Some (invoke_with_handle void_null_handle void_of_result (from_panic VoidErr) handle
                   (\<lambda>a. on_box a (ffi_write_block Q L height (borrowed_as_slice (cmem st) data))) st)
      else None)"

definition bs_read_block ::
  "'c lru \<Rightarrow> libs \<Rightarrow> nat option \<Rightarrow> u64 \<Rightarrow> 'c ffi \<Rightarrow> (block_result \<times> 'c ffi) option" where
  "bs_read_block Q L handle height st =
     (if valid_handle handle st
      then Some (invoke_with_handle block_null_handle block_of_result (from_panic BlockErr) handle
                   (\<lambda>a. on_box a (ffi_read_block Q L height)) st)
      else None)"

text \<open>The three accessors: 0 for a null handle.\<close>

definition accessor :: "('c ffi_store \<Rightarrow> u64) \<Rightarrow> nat option \<Rightarrow> 'c ffi \<Rightarrow> u64 option" where
  "accessor f handle st =
     (case handle of None \<Rightarrow> Some 0 | Some a \<Rightarrow> map_option (f \<circ> snd) (map_of (boxes st) a))"

definition bs_max_contiguous_height :: "nat option \<Rightarrow> 'c ffi \<Rightarrow> u64 option" where
  "bs_max_contiguous_height = accessor ffi_max_contiguous_height"

definition bs_height_highwater :: "nat option \<Rightarrow> 'c ffi \<Rightarrow> u64 option" where
  "bs_height_highwater = accessor ffi_height_highwater"

definition bs_min_block_height :: "nat option \<Rightarrow> 'c ffi \<Rightarrow> u64 option" where
  "bs_min_block_height = accessor ffi_min_block_height"

definition bs_free_owned_bytes :: "owned \<Rightarrow> 'c ffi \<Rightarrow> (void_result \<times> 'c ffi) option" where
  "bs_free_owned_bytes bytes st =
     map_option (invoke (\<lambda>r. void_of_unit ()) (from_panic VoidErr) (ret ())) (owned_drop bytes st)"

section \<open>Outcomes\<close>

text \<open>What C gets for each outcome of the library's call, an error message being read back.\<close>

definition gives :: "'z mem_scheme \<Rightarrow> string \<Rightarrow> owned \<Rightarrow> bool" where
  "gives m msg ow \<longleftrightarrow> owned_as_slice m ow = Some (string_bytes msg) \<and> mem_ok m"

lemma owned_of_string_gives:
  "owned_of_string msg m = (ow, m') \<Longrightarrow> mem_ok m \<Longrightarrow> gives m' msg ow"
  by (auto simp: gives_def owned_of_string_def owned_of_vec_def dest: owned_of_box_read)

lemma mem_ok_update [simp]:
  "mem_ok (cmem_update f st) = mem_ok st" "mem_ok (boxes_update g st) = mem_ok st"
  "mem_ok (dirs_update d st) = mem_ok st"
  by (simp_all add: mem_ok_def)

lemma on_box_cases:
  assumes "on_box a m st = (r, t)" and "map_of (boxes st) a = Some (p, h)"
  obtains h' where "m h = (r, h')" "t = st\<lparr>boxes := AList.update a (p, h') (boxes st)\<rparr>"
  using assms by (auto simp: on_box_def split: prod.splits)

lemma valid_handle_Some: "map_of (boxes st) a = Some ph \<Longrightarrow> valid_handle (Some a) st"
  by (force simp: valid_handle_def dest: map_of_SomeD)

text \<open>The parts of the state a conversion of a result touches.\<close>

lemma owned_of_box_fields:
  assumes "owned_of_box data (st :: 'c ffi) = (ow, st')"
  shows "boxes st' = boxes st \<and> dirs st' = dirs st \<and> cmem st' = cmem st"
  using assms by (auto simp: owned_of_box_def box_leak_def Let_def split: if_splits)

lemma write_outcome:
  assumes "map_of (boxes st) a = Some (p, h)" and "mem_ok st"
    and "bs_write_block Q L (Some a) n d st = Some (r, t)"
    and "ffi_write_block Q L n (borrowed_as_slice (cmem st) d) h = (q, h')"
  shows "boxes t = AList.update a (p, h') (boxes st) \<and> dirs t = dirs st \<and> mem_ok t \<and>
    (case q of
       Ok u \<Rightarrow> r = VoidOk \<and> live t = live st
     | Err e \<Rightarrow> \<exists>ow. r = VoidErr ow \<and> gives t (message e) ow
     | Panic m \<Rightarrow> \<exists>ow. r = VoidErr ow \<and> gives t m ow)"
proof -
  let ?u = "st\<lparr>boxes := AList.update a (p, h') (boxes st)\<rparr>"
  have u: "on_box a (ffi_write_block Q L n (borrowed_as_slice (cmem st) d)) st = (q, ?u)"
    using assms(1,4) by (simp add: on_box_def)
  have m: "mem_ok ?u" using assms(2) by simp
  show ?thesis
  proof (cases q)
    case (Ok v)
    then show ?thesis
      using assms(3) u m valid_handle_Some [OF assms(1)]
      by (auto simp: bs_write_block_def invoke_with_handle_def invoke_def void_of_result_def)
  next
    case (Err e)
    obtain ow v where o: "owned_of_string (message e) ?u = (ow, v)" by fastforce
    then have "t = v" "r = VoidErr ow"
      using assms(3) u Err valid_handle_Some [OF assms(1)]
      by (auto simp: bs_write_block_def invoke_with_handle_def invoke_def void_of_result_def)
    then show ?thesis
      using owned_of_string_gives [OF o m] owned_of_box_fields [of _ ?u ow v] o Err
      by (auto simp: gives_def owned_of_string_def owned_of_vec_def)
  next
    case (Panic e)
    obtain ow v where o: "owned_of_string e ?u = (ow, v)" by fastforce
    then have "t = v" "r = VoidErr ow"
      using assms(3) u Panic valid_handle_Some [OF assms(1)]
      by (auto simp: bs_write_block_def invoke_with_handle_def invoke_def from_panic_def from_err_def)
    then show ?thesis
      using owned_of_string_gives [OF o m] owned_of_box_fields [of _ ?u ow v] o Panic
      by (auto simp: gives_def owned_of_string_def owned_of_vec_def)
  qed
qed

lemma read_outcome:
  assumes "map_of (boxes st) a = Some (p, h)" and "mem_ok st"
    and "bs_read_block Q L (Some a) n st = Some (r, t)"
    and "ffi_read_block Q L n h = (q, h')"
  shows "boxes t = AList.update a (p, h') (boxes st) \<and> dirs t = dirs st \<and> mem_ok t \<and>
    (case q of
       Ok None \<Rightarrow> r = BlockNone \<and> live t = live st
     | Ok (Some b) \<Rightarrow> \<exists>ow. r = BlockSome ow \<and> owned_as_slice t ow = Some b
     | Err e \<Rightarrow> \<exists>ow. r = BlockErr ow \<and> gives t (message e) ow
     | Panic m \<Rightarrow> \<exists>ow. r = BlockErr ow \<and> gives t m ow)"
proof -
  let ?u = "st\<lparr>boxes := AList.update a (p, h') (boxes st)\<rparr>"
  have u: "on_box a (ffi_read_block Q L n) st = (q, ?u)"
    using assms(1,4) by (simp add: on_box_def)
  have m: "mem_ok ?u" using assms(2) by simp
  note defs = bs_read_block_def invoke_with_handle_def invoke_def block_of_result_def
    from_panic_def from_err_def
  show ?thesis
  proof (cases q)
    case (Ok x)
    show ?thesis
    proof (cases x)
      case None
      then show ?thesis using assms(3) u m Ok valid_handle_Some [OF assms(1)] by (auto simp: defs)
    next
      case (Some b)
      obtain ow v where o: "owned_of_box b ?u = (ow, v)" by fastforce
      then have "t = v" "r = BlockSome ow"
        using assms(3) u Ok Some valid_handle_Some [OF assms(1)] by (auto simp: defs)
      then show ?thesis
        using owned_of_box_read [OF o m] owned_of_box_fields [OF o] Ok Some by simp
    qed
  next
    case (Err e)
    obtain ow v where o: "owned_of_string (message e) ?u = (ow, v)" by fastforce
    then have "t = v" "r = BlockErr ow"
      using assms(3) u Err valid_handle_Some [OF assms(1)] by (auto simp: defs)
    then show ?thesis
      using owned_of_string_gives [OF o m] owned_of_box_fields [of _ ?u ow v] o Err
      by (auto simp: gives_def owned_of_string_def owned_of_vec_def)
  next
    case (Panic e)
    obtain ow v where o: "owned_of_string e ?u = (ow, v)" by fastforce
    then have "t = v" "r = BlockErr ow"
      using assms(3) u Panic valid_handle_Some [OF assms(1)] by (auto simp: defs)
    then show ?thesis
      using owned_of_string_gives [OF o m] owned_of_box_fields [of _ ?u ow v] o Panic
      by (auto simp: gives_def owned_of_string_def owned_of_vec_def)
  qed
qed

section \<open>Both kinds of handle\<close>

definition handle_ok :: "'c lru \<Rightarrow> libs \<Rightarrow> 'c ffi_store \<Rightarrow> bool" where
  "handle_ok Q L h = (case h of Uncached s \<Rightarrow> store_ok s | Cached c \<Rightarrow> cached_ok Q L c)"

definition handle_fits :: "'c lru \<Rightarrow> libs \<Rightarrow> 'c ffi_store \<Rightarrow> bytes \<Rightarrow> bool" where
  "handle_fits Q L h b =
     (case h of Uncached s \<Rightarrow> acceptable L s b | Cached c \<Rightarrow> cached_fits Q L c b)"

interpretation handle: block_map "ffi_write_block Q L" "ffi_read_block Q L"
  "\<lambda>h. contents L (core_store h)" "handle_ok Q L" "handle_fits Q L" for Q :: "'c lru" and L
proof
  fix s :: "'c ffi_store" and h x t
  assume "handle_ok Q L s" "ffi_read_block Q L h s = (Ok x, t)"
  then show "x = contents L (core_store s) h"
    using store.rd_view cached.rd_view
    by (fastforce simp: handle_ok_def ffi_read_block_def forward_def core_store_def
        split: ffi_store.splits prod.splits)
next
  fix s :: "'c ffi_store" and h r t
  assume "handle_ok Q L s" "ffi_read_block Q L h s = (r, t)"
  then show "contents L (core_store t) = contents L (core_store s) \<and> handle_ok Q L t"
    using store.rd_keeps cached.rd_keeps
    by (fastforce simp: handle_ok_def ffi_read_block_def forward_def core_store_def
        split: ffi_store.splits prod.splits)
next
  fix s :: "'c ffi_store" and h b t
  assume "handle_ok Q L s" "handle_fits Q L s b" "ffi_write_block Q L h b s = (Ok (), t)"
  then show "contents L (core_store t) = (contents L (core_store s))(h \<mapsto> b) \<and> handle_ok Q L t"
    using store.wr_view cached.wr_view
    by (fastforce simp: handle_ok_def handle_fits_def ffi_write_block_def forward_def core_store_def
        split: ffi_store.splits prod.splits)
qed

end
