(* ===== verification/FfiClient.thy ===== *)
theory FfiClient
  imports Ffi
begin

text \<open>
  A client of the C interface that keeps the rules of its documentation: it closes each handle
  once and does not use it afterwards, and it frees each byte slice it was given once. Every
  sequence of calls of such a client is defined, and when the client has closed and freed
  everything, nothing is left allocated.
\<close>

section \<open>The client\<close>

record client =
  hs :: "nat list"
  outs :: "owned list"

datatype call =
    COpen store_args
  | CClose nat
  | CWrite nat u64 borrowed
  | CRead nat u64
  | CFree nat

definition without :: "nat \<Rightarrow> 'a list \<Rightarrow> 'a list" where
  "without i xs = take i xs @ drop (Suc i) xs"

fun void_bytes :: "void_result \<Rightarrow> owned list" where
  "void_bytes (VoidErr ow) = [ow]"
| "void_bytes VoidOk = []"
| "void_bytes VoidNullHandlePointer = []"

fun block_bytes :: "block_result \<Rightarrow> owned list" where
  "block_bytes (BlockSome ow) = [ow]"
| "block_bytes (BlockErr ow) = [ow]"
| "block_bytes BlockNone = []"
| "block_bytes BlockNullHandlePointer = []"

text \<open>The \<open>i\<close>-th handle or slice; a client that has none passes null, or frees nothing.\<close>

definition handle_at :: "client \<Rightarrow> nat \<Rightarrow> nat option" where
  "handle_at c i = (if i < length (hs c) then Some (hs c ! i) else None)"

fun client_step :: "'c lru \<Rightarrow> libs \<Rightarrow> call \<Rightarrow> client \<times> 'c ffi \<Rightarrow> (client \<times> 'c ffi) option" where
  "client_step Q L (COpen args) (c, st) =
     (case bs_open_store Q L args st of
        (HandleOk a, t) \<Rightarrow> Some (c\<lparr>hs := hs c @ [a]\<rparr>, t)
      | (HandleErr ow, t) \<Rightarrow> Some (c\<lparr>outs := outs c @ [ow]\<rparr>, t))"
| "client_step Q L (CClose i) (c, st) =
     map_option (\<lambda>(r, t). (c\<lparr>hs := without i (hs c), outs := outs c @ void_bytes r\<rparr>, t))
       (bs_close_store (handle_at c i) st)"
| "client_step Q L (CWrite i height data) (c, st) =
     map_option (\<lambda>(r, t). (c\<lparr>outs := outs c @ void_bytes r\<rparr>, t))
       (bs_write_block Q L (handle_at c i) height data st)"
| "client_step Q L (CRead i height) (c, st) =
     map_option (\<lambda>(r, t). (c\<lparr>outs := outs c @ block_bytes r\<rparr>, t))
       (bs_read_block Q L (handle_at c i) height st)"
| "client_step Q L (CFree i) (c, st) =
     (if i < length (outs c)
      then map_option (\<lambda>(r, t). (c\<lparr>outs := without i (outs c) @ void_bytes r\<rparr>, t))
             (bs_free_owned_bytes (outs c ! i) st)
      else Some (c, st))"

primrec client_run ::
  "'c lru \<Rightarrow> libs \<Rightarrow> call list \<Rightarrow> client \<times> 'c ffi \<Rightarrow> (client \<times> 'c ffi) option" where
  "client_run Q L [] x = Some x"
| "client_run Q L (k # ks) x = Option.bind (client_step Q L k x) (client_run Q L ks)"

section \<open>Accounts\<close>

text \<open>
  What the client holds is what the process has allocated: its handles are the live boxes, its
  slices with bytes are the live boxed slices, each with its length.
\<close>

definition slice_key :: "owned \<Rightarrow> (nat \<times> nat) multiset" where
  "slice_key ow = (case optr ow of Some p \<Rightarrow> if olen ow = 0 then {#} else {#(p, olen ow)#} | None \<Rightarrow> {#})"

definition slice_keys :: "owned list \<Rightarrow> (nat \<times> nat) multiset" where
  "slice_keys os = sum_list (map slice_key os)"

definition live_keys :: "'z mem_scheme \<Rightarrow> (nat \<times> nat) multiset" where
  "live_keys m = mset (map (\<lambda>(a, d). (a, length d)) (live m))"

definition box_keys :: "'c ffi \<Rightarrow> nat multiset" where
  "box_keys st = mset (map fst (boxes st))"

definition process_ok :: "'c ffi \<Rightarrow> bool" where
  "process_ok st \<longleftrightarrow>
     mem_ok st \<and> distinct (map fst (boxes st)) \<and> (\<forall>a \<in> set (map fst (boxes st)). a < next_addr st)"

definition balanced :: "client \<times> 'c ffi \<Rightarrow> bool" where
  "balanced x \<longleftrightarrow>
     process_ok (snd x) \<and> mset (hs (fst x)) = box_keys (snd x) \<and>
     slice_keys (outs (fst x)) = live_keys (snd x)"

lemma slice_keys_simps [simp]:
  "slice_keys [] = {#}" "slice_keys (ow # os) = slice_key ow + slice_keys os"
  "slice_keys (os @ ps) = slice_keys os + slice_keys ps"
  by (simp_all add: slice_keys_def)

lemma mset_without:
  assumes "i < length xs"
  shows "mset xs = add_mset (xs ! i) (mset (without i xs))"
proof -
  have "mset xs = mset (take i xs @ xs ! i # drop (Suc i) xs)"
    using id_take_nth_drop [OF assms] by (rule arg_cong)
  then show ?thesis by (simp add: without_def)
qed

lemma slice_keys_without:
  "i < length os \<Longrightarrow> slice_keys os = slice_key (os ! i) + slice_keys (without i os)"
  by (simp add: slice_keys_def mset_without flip: sum_mset_sum_list)

lemma mset_delete:
  "distinct (map fst al) \<Longrightarrow> map_of al k = Some v \<Longrightarrow> mset al = add_mset (k, v) (mset (AList.delete k al))"
  by (induction al) (auto simp: delete_id dest: map_of_SomeD)

text \<open>A conversion adds to the heap exactly the slice it returns.\<close>

lemma owned_of_box_account:
  assumes "owned_of_box data st = (ow, t)" and "process_ok st"
  shows "process_ok t \<and> boxes t = boxes st \<and> live_keys t = slice_key ow + live_keys st"
proof -
  have "mem_ok st" using assms(2) by (simp add: process_ok_def)
  with assms(1) show ?thesis
    by (cases rule: owned_of_box_cases)
      (use assms(2) in \<open>auto simp: slice_key_def live_keys_def process_ok_def less_Suc_eq\<close>)
qed

lemmas owned_of_string_account =
  owned_of_box_account [of "string_bytes s" for s, folded owned_of_vec_def, folded owned_of_string_def]

text \<open>Freeing a slice of the client is defined and removes exactly it.\<close>

lemma owned_drop_account:
  assumes "process_ok st" and "live_keys st = slice_key ow + K"
  shows "\<exists>t. owned_drop ow st = Some t \<and> process_ok t \<and> boxes t = boxes st \<and> live_keys t = K"
proof (cases "slice_key ow = {#}")
  case True
  then have "owned_drop ow st = Some st"
    by (auto simp: slice_key_def owned_drop_def take_box_def box_from_raw_def
        split: option.splits if_splits)
  then show ?thesis using assms True by simp
next
  case False
  then obtain p where p: "optr ow = Some p" "olen ow \<noteq> 0" and k: "slice_key ow = {#(p, olen ow)#}"
    by (auto simp: slice_key_def split: option.splits if_splits)
  have "(p, olen ow) \<in># live_keys st" using assms(2) k by simp
  then obtain d where d: "(p, d) \<in> set (live st)" "length d = olen ow"
    by (auto simp: live_keys_def)
  have m: "mem_ok st" "distinct (map fst (live st))" using assms(1) by (simp_all add: process_ok_def mem_ok_def)
  then have "map_of (live st) p = Some d" using d(1) by simp
  then have drop: "owned_drop ow st = Some (st\<lparr>live := AList.delete p (live st)\<rparr>)"
    and keys: "mset (live st) = add_mset (p, d) (mset (AList.delete p (live st)))"
    using p d(2) mset_delete [OF m(2)] by (simp_all add: owned_drop_def take_box_def box_from_raw_def)
  have "live_keys st = add_mset (p, olen ow) (live_keys (st\<lparr>live := AList.delete p (live st)\<rparr>))"
    using keys d(2) by (simp add: live_keys_def)
  then have "live_keys (st\<lparr>live := AList.delete p (live st)\<rparr>) = K" using assms(2) k by simp
  moreover have "process_ok (st\<lparr>live := AList.delete p (live st)\<rparr>)"
    using assms(1) by (auto simp: process_ok_def mem_ok_def AList.delete_eq distinct_map_filter)
  ultimately show ?thesis using drop by simp
qed

section \<open>Every call keeps the accounts\<close>

text \<open>A call whose conversion returns the slices \<open>os\<close>.\<close>

definition charged :: "'c ffi \<Rightarrow> 'c ffi \<Rightarrow> owned list \<Rightarrow> bool" where
  "charged st t os \<longleftrightarrow>
     process_ok t \<and> box_keys t = box_keys st \<and> live_keys t = slice_keys os + live_keys st"

lemma process_ok_boxes:
  "process_ok st \<Longrightarrow> a \<in> fst ` set (boxes st) \<Longrightarrow>
     process_ok (st\<lparr>boxes := AList.update a x (boxes st)\<rparr>)"
  using update_keys [of a x "boxes st"]
  by (simp add: process_ok_def del: set_map flip: set_map)

lemma charged_on_box:
  assumes "process_ok st" and "on_box a m st = (r, t)"
  shows "charged st t []"
proof (cases "map_of (boxes st) a")
  case (Some ph)
  then have "a \<in> fst ` set (boxes st)" by (force dest: map_of_SomeD)
  moreover obtain x where "t = st\<lparr>boxes := AList.update a x (boxes st)\<rparr>"
    using assms(2) Some by (cases ph) (auto simp: on_box_def split: prod.splits)
  ultimately show ?thesis
    using process_ok_boxes [OF assms(1)]
    by (auto simp: charged_def box_keys_def live_keys_def update_keys)
next
  case None
  then show ?thesis using assms by (simp add: on_box_def charged_def)
qed

lemma charged_conversions:
  assumes "process_ok st"
  shows "void_of_result r st = (v, t) \<Longrightarrow> charged st t (void_bytes v)"
    and "block_of_result q st = (b, t) \<Longrightarrow> charged st t (block_bytes b)"
    and "from_panic VoidErr p st = (v, t) \<Longrightarrow> charged st t (void_bytes v)"
    and "from_panic BlockErr p st = (b, t) \<Longrightarrow> charged st t (block_bytes b)"
    and "from_panic HandleErr p st = (x, t) \<Longrightarrow> \<exists>ow. x = HandleErr ow \<and> charged st t [ow]"
  using owned_of_box_account [OF _ assms] owned_of_string_account [OF _ assms] assms
  by (auto simp: charged_def box_keys_def void_of_result_def block_of_result_def from_panic_def
      from_err_def split: sum.splits option.splits prod.splits)

lemma charged_trans: "charged st t [] \<Longrightarrow> charged t u os \<Longrightarrow> charged st u os"
  by (simp add: charged_def)

lemma charged_balanced:
  assumes "balanced (c, st)" and "charged st t os"
  shows "balanced (c\<lparr>outs := outs c @ os\<rparr>, t)"
  using assms by (simp add: balanced_def charged_def ac_simps)

lemma charged_write:
  assumes "process_ok st" and "bs_write_block Q L h n d st = Some (r, t)"
  shows "charged st t (void_bytes r)"
proof (cases h)
  case None
  then show ?thesis
    using assms by (simp add: bs_write_block_def valid_handle_def invoke_with_handle_def
        void_null_handle_def charged_def)
next
  case (Some a)
  obtain q u where u: "on_box a (ffi_write_block Q L n (borrowed_as_slice (cmem st) d)) st = (q, u)"
    by fastforce
  note c = charged_on_box [OF assms(1) u]
  then have "process_ok u" by (simp add: charged_def)
  from charged_conversions [OF this] have "charged u t (void_bytes r)"
    using assms(2) u Some
    by (auto simp: bs_write_block_def invoke_with_handle_def invoke_def split: res.splits if_splits)
  with c show ?thesis by (rule charged_trans)
qed

lemma charged_read:
  assumes "process_ok st" and "bs_read_block Q L h n st = Some (r, t)"
  shows "charged st t (block_bytes r)"
proof (cases h)
  case None
  then show ?thesis
    using assms by (simp add: bs_read_block_def valid_handle_def invoke_with_handle_def
        block_null_handle_def charged_def)
next
  case (Some a)
  obtain q u where u: "on_box a (ffi_read_block Q L n) st = (q, u)" by fastforce
  note c = charged_on_box [OF assms(1) u]
  then have "process_ok u" by (simp add: charged_def)
  from charged_conversions [OF this] have "charged u t (block_bytes r)"
    using assms(2) u Some
    by (auto simp: bs_read_block_def invoke_with_handle_def invoke_def split: res.splits if_splits)
  with c show ?thesis by (rule charged_trans)
qed

lemma process_ok_put_dir: "process_ok st \<Longrightarrow> process_ok (put_dir p w st)"
  and box_keys_put_dir: "box_keys (put_dir p w st) = box_keys st"
  and live_keys_put_dir: "live_keys (put_dir p w st) = live_keys st"
  by (simp_all add: put_dir_def process_ok_def box_keys_def live_keys_def comp_def case_prod_beta
      del: mset_map)

lemma charged_open_at:
  assumes "process_ok st" and "open_at Q L cached opts p st = (r, t)"
  shows "charged st t []"
  using assms process_ok_put_dir [OF assms(1)]
  by (auto simp: open_at_def charged_def box_keys_put_dir live_keys_put_dir
      split: option.splits opened.splits cached_opened.splits if_splits)

lemma open_account:
  assumes "process_ok st" and "bs_open_store Q L args st = (r, t)"
  shows "process_ok t \<and>
    (case r of
       HandleOk a \<Rightarrow> box_keys t = add_mset a (box_keys st) \<and> live_keys t = live_keys st
     | HandleErr ow \<Rightarrow> box_keys t = box_keys st \<and> live_keys t = slice_key ow + live_keys st)"
proof -
  obtain x u where b: "(case borrowed_as_str (cmem st) (sa_path args) of
          Inl e \<Rightarrow> fail InvalidData (utf8_message e)
        | Inr path \<Rightarrow> io_bind (open_at Q L (sa_cache_size args \<noteq> 0) (options_of_args args) path) (\<lambda>s.
            ret (path, s))) st = (x, u)" by fastforce
  have c: "charged st u []"
    using b assms(1) charged_open_at [OF assms(1)]
    by (auto simp: io_bind_def io_simps charged_def split: sum.splits prod.splits res.splits)
  then have ok: "process_ok u" by (simp add: charged_def)
  have t: "(case x of
        Ok v \<Rightarrow> handle_of_result box_store (Inr v) u
      | Err e \<Rightarrow> handle_of_result box_store (Inl e) u
      | Panic m \<Rightarrow> from_panic HandleErr (StringPayload m) u) = (r, t)"
    using assms(2) b by (simp add: bs_open_store_def invoke_def io_simps split: res.splits)
  show ?thesis
  proof (cases x)
    case (Ok v)
    then have "r = HandleOk (next_addr u)" "t = snd (box_store v u)"
      using t by (auto simp: handle_of_result_def box_store_def)
    then show ?thesis
      using c by (force simp: charged_def box_store_def box_keys_def live_keys_def process_ok_def mem_ok_def)
  next
    case (Err e)
    obtain ow v where o: "owned_of_string (message e) u = (ow, v)" by fastforce
    then have "r = HandleErr ow" "t = v" using t Err by (auto simp: handle_of_result_def)
    then show ?thesis
      using owned_of_string_account [OF o ok] c by (simp add: charged_def box_keys_def)
  next
    case (Panic m)
    then have "from_panic HandleErr (StringPayload m) u = (r, t)" using t by simp
    from charged_conversions(5) [OF ok this] c show ?thesis by (auto simp: charged_def)
  qed
qed

lemma close_account:
  assumes "process_ok st" and "a \<in># box_keys st"
  shows "\<exists>t. bs_close_store (Some a) st = Some (VoidOk, t) \<and> process_ok t \<and>
    box_keys st = add_mset a (box_keys t) \<and> live_keys t = live_keys st"
proof -
  have d: "distinct (map fst (boxes st))" using assms(1) by (simp add: process_ok_def)
  from assms(2) obtain p h where "(a, p, h) \<in> set (boxes st)" by (auto simp: box_keys_def)
  with d have m: "map_of (boxes st) a = Some (p, h)" by simp
  let ?t = "st\<lparr>boxes := AList.delete a (boxes st),
               dirs := AList.update p (drop_store (core_store h)) (dirs st)\<rparr>"
  have "bs_close_store (Some a) st = Some (VoidOk, ?t)"
    using m valid_handle_Some [OF m]
    by (simp add: bs_close_store_def invoke_with_handle_def invoke_def drop_box_def void_of_unit_def)
  moreover have "process_ok ?t"
    using assms(1) by (auto simp: process_ok_def mem_ok_def AList.delete_eq distinct_map_filter)
  moreover have "box_keys st = add_mset a (box_keys ?t)"
    using mset_delete [OF d m] by (simp add: box_keys_def)
  moreover have "live_keys ?t = live_keys st" by (simp add: live_keys_def)
  ultimately show ?thesis by blast
qed

lemma handle_at_cases:
  assumes "balanced (c, st)"
  obtains (live) "i < length (hs c)" "handle_at c i = Some (hs c ! i)" "hs c ! i \<in># box_keys st"
      "mset (hs c) = add_mset (hs c ! i) (mset (without i (hs c)))"
    | (null) "handle_at c i = None" "without i (hs c) = hs c"
proof (cases "i < length (hs c)")
  case True
  have m: "mset (hs c) = box_keys st" using assms by (simp add: balanced_def)
  have "hs c ! i \<in># mset (hs c)" using True by simp
  then show ?thesis
    using mset_without [OF True] True by (intro live) (simp_all add: handle_at_def m)
next
  case False
  then show ?thesis by (intro null) (simp_all add: handle_at_def without_def)
qed

lemma valid_handle_at: "balanced (c, st) \<Longrightarrow> valid_handle (handle_at c i) st"
  by (rule handle_at_cases [of c st i]) (auto simp: valid_handle_def box_keys_def)

lemma client_step_balanced:
  assumes "balanced x"
  shows "\<exists>y. client_step Q L k x = Some y \<and> balanced y"
proof -
  obtain c st where x: "x = (c, st)" by fastforce
  with assms have b: "balanced (c, st)" and ok: "process_ok st" by (auto simp: balanced_def)
  note v = valid_handle_at [OF b]
  show ?thesis
  proof (cases k)
    case (COpen args)
    obtain r t where o: "bs_open_store Q L args st = (r, t)" by fastforce
    note a = open_account [OF ok this]
    show ?thesis
    proof (cases r)
      case (HandleOk h)
      then show ?thesis using a b by (simp add: x COpen o balanced_def)
    next
      case (HandleErr ow)
      then show ?thesis using a b by (simp add: x COpen o balanced_def)
    qed
  next
    case (CWrite i height data)
    obtain r t where w: "bs_write_block Q L (handle_at c i) height data st = Some (r, t)"
      using v by (force simp: bs_write_block_def)
    show ?thesis
      using charged_balanced [OF b charged_write [OF ok w]] by (simp add: x CWrite w)
  next
    case (CRead i height)
    obtain r t where w: "bs_read_block Q L (handle_at c i) height st = Some (r, t)"
      using v by (force simp: bs_read_block_def)
    show ?thesis
      using charged_balanced [OF b charged_read [OF ok w]] by (simp add: x CRead w)
  next
    case (CFree i)
    show ?thesis
    proof (cases "i < length (outs c)")
      case True
      have "live_keys st = slice_key (outs c ! i) + slice_keys (without i (outs c))"
        using b slice_keys_without [OF True] by (simp add: balanced_def)
      from owned_drop_account [OF ok this] obtain t where t: "owned_drop (outs c ! i) st = Some t"
        "process_ok t" "boxes t = boxes st" "live_keys t = slice_keys (without i (outs c))" by blast
      then show ?thesis
        using b by (simp add: x CFree True bs_free_owned_bytes_def invoke_def io_simps
            void_of_unit_def balanced_def box_keys_def)
    qed (use b in \<open>simp add: x CFree\<close>)
  next
    case (CClose i)
    from b show ?thesis
    proof (cases rule: handle_at_cases [where i = i])
      case live
      from close_account [OF ok live(3)] obtain t where
        t: "bs_close_store (Some (hs c ! i)) st = Some (VoidOk, t)" "process_ok t"
          "box_keys st = add_mset (hs c ! i) (box_keys t)" "live_keys t = live_keys st" by blast
      then show ?thesis using b live by (simp add: x CClose balanced_def)
    next
      case null
      then show ?thesis
        using b by (simp add: x CClose bs_close_store_def valid_handle_def invoke_with_handle_def
            void_null_handle_def balanced_def)
    qed
  qed
qed

lemma balanced_nothing:
  assumes "balanced (c, st)" and "hs c = []" and "outs c = []"
  shows "boxes st = [] \<and> live st = []"
proof -
  have "box_keys st = {#}" "live_keys st = {#}" using assms by (simp_all add: balanced_def)
  then show ?thesis by (simp add: box_keys_def live_keys_def)
qed

lemma open_at_Ok:
  assumes "open_at Q L cached opts path st = (Ok h, t)"
  obtains w s where "dir_world path st = Some w" "open_store L opts w = Opened s"
    "if cached then h = Cached \<lparr>cs_inner = s, cs_cache = lru_new Q (opt_cache_size opts)\<rparr> else h = Uncached s"
    "t = st"
  using assms
  by (auto simp: open_at_def cached_open_def split: option.splits opened.splits cached_opened.splits if_splits)

lemma open_HandleOk:
  assumes "bs_open_store Q L args st = (HandleOk a, t)"
  obtains path h where "borrowed_as_str (cmem st) (sa_path args) = Inr path"
    "open_at Q L (sa_cache_size args \<noteq> 0) (options_of_args args) path st = (Ok h, st)"
    "box_store (path, h) st = (a, t)"
proof (cases "borrowed_as_str (cmem st) (sa_path args)")
  case (Inl e)
  then show ?thesis
    using assms by (simp add: bs_open_store_def invoke_def io_simps handle_of_result_def split: prod.splits)
next
  case (Inr path)
  obtain x u where x: "open_at Q L (sa_cache_size args \<noteq> 0) (options_of_args args) path st = (x, u)"
    by fastforce
  show ?thesis
  proof (cases x)
    case (Ok h)
    then have "u = st" using x by (auto elim: open_at_Ok)
    moreover have "box_store (path, h) u = (a, t)"
      using assms Inr x Ok by (simp add: bs_open_store_def invoke_def io_bind_def io_simps
          handle_of_result_def split: prod.splits)
    ultimately show ?thesis using Inr x Ok by (intro that) simp_all
  qed (use assms Inr x in \<open>simp_all add: bs_open_store_def invoke_def io_bind_def io_simps
      handle_of_result_def from_panic_def from_err_def split: prod.splits\<close>)
qed

section \<open>Claims\<close>

text \<open>
  C16: a client that closes each handle once and frees each slice once never runs into undefined
  behaviour, whatever the calls return, and once it has closed and freed everything, no box and no
  slice is left allocated.
\<close>

theorem client_never_undefined:
  assumes "balanced x"
  shows "\<exists>c st. client_run Q L ks x = Some (c, st) \<and> balanced (c, st) \<and>
    (hs c = [] \<and> outs c = [] \<longrightarrow> boxes st = [] \<and> live st = [])"
  using assms
proof (induction ks arbitrary: x)
  case Nil
  then show ?case using balanced_nothing by (cases x) auto
next
  case (Cons k ks)
  then obtain y where "client_step Q L k x = Some y" "balanced y" using client_step_balanced by blast
  with Cons.IH [of y] show ?case by simp
qed

text \<open>A process with one empty directory, and a client that creates a store in it.\<close>

definition new_process :: "'c ffi" where
  "new_process =
     \<lparr>live = [], next_addr = 2, cmem = (\<lambda>a. of_nat a), boxes = [],
      dirs = [([0x64], \<lparr>idx_file = None, data_dir = [], locks = [], next_fd = 3, faults = [], io_log = []\<rparr>)]\<rparr>"

definition new_args :: "nat \<Rightarrow> store_args" where
  "new_args budget =
     \<lparr>sa_path = \<lparr>bptr = 0x64, blen = 1\<rparr>, sa_cache_size = budget, sa_max_data_file_size = 0,
      sa_minimum_height = 5, sa_max_data_files = 0, sa_truncate = True, sa_sync = Async\<rparr>"

lemma new_process_balanced [simp]: "balanced (\<lparr>hs = [], outs = []\<rparr>, new_process)"
  by (simp add: balanced_def process_ok_def mem_ok_def new_process_def box_keys_def live_keys_def dangling_def)

theorem client_never_undefined_witness:
  "\<exists>c st. client_run list_lru plain_libs
       [COpen (new_args 0), COpen (new_args 8), CWrite 0 3 \<lparr>bptr = 7, blen = 2\<rparr>, CRead 4 7,
        CFree 0, CFree 0, CClose 0, CClose 0]
       (\<lparr>hs = [], outs = []\<rparr>, new_process) = Some (c, st) \<and>
     balanced (c, st) \<and> (hs c = [] \<and> outs c = [] \<longrightarrow> boxes st = [] \<and> live st = [])"
  by (rule client_never_undefined) simp


text \<open>A process with one open store, whose block 7 is cached.\<close>

definition open_process :: "(nat \<times> (u64 \<times> bytes) list) ffi" where
  "open_process = new_process\<lparr>boxes := [(2, [0x64], Cached warm_cache)], next_addr := 3\<rparr>"

lemma open_process_ok:
  "map_of (boxes open_process) 2 = Some ([0x64], Cached warm_cache)" "mem_ok open_process"
  "borrowed_as_slice (cmem open_process) \<lparr>bptr = 7, blen = 2\<rparr> = [7, 8]"
  by (simp_all add: open_process_def new_process_def mem_ok_def dangling_def borrowed_as_slice_def upt_rec)


text \<open>
  C33: what C gets from a write through a live handle: \<open>Ok\<close> exactly when the store's write
  returned, otherwise an owned slice that reads as the message of the error, or of the panic; no
  panic crosses the boundary. A null handle is reported and changes nothing, for writes, reads and
  closing alike.
\<close>

theorem ffi_reports_outcome:
  assumes "map_of (boxes st) a = Some (p, h)" and "mem_ok st"
    and "ffi_write_block Q L n (borrowed_as_slice (cmem st) d) h = (q, h')"
  shows "(\<exists>r t. bs_write_block Q L (Some a) n d st = Some (r, t) \<and>
      (case q of
         Ok u \<Rightarrow> r = VoidOk \<and> live t = live st
       | Err e \<Rightarrow> \<exists>ow. r = VoidErr ow \<and> owned_as_slice t ow = Some (string_bytes (message e))
       | Panic m \<Rightarrow> \<exists>ow. r = VoidErr ow \<and> owned_as_slice t ow = Some (string_bytes m))) \<and>
    bs_write_block Q L None n d st = Some (VoidNullHandlePointer, st) \<and>
    bs_read_block Q L None n st = Some (BlockNullHandlePointer, st) \<and>
    bs_close_store None st = Some (VoidNullHandlePointer, st)"
proof -
  obtain r t where b: "bs_write_block Q L (Some a) n d st = Some (r, t)"
    using valid_handle_Some [OF assms(1)] by (force simp: bs_write_block_def)
  have "case q of
         Ok u \<Rightarrow> r = VoidOk \<and> live t = live st
       | Err e \<Rightarrow> \<exists>ow. r = VoidErr ow \<and> owned_as_slice t ow = Some (string_bytes (message e))
       | Panic m \<Rightarrow> \<exists>ow. r = VoidErr ow \<and> owned_as_slice t ow = Some (string_bytes m)"
    using write_outcome [OF assms(1,2) b assms(3)] by (cases q) (auto simp: gives_def)
  with b show ?thesis
    by (simp add: bs_write_block_def [of _ _ None] bs_read_block_def bs_close_store_def
        valid_handle_def invoke_with_handle_def void_null_handle_def block_null_handle_def)
qed

theorem ffi_reports_outcome_witness:
  "\<exists>r t. bs_write_block list_lru plain_libs (Some 2) 3 \<lparr>bptr = 7, blen = 2\<rparr> open_process = Some (r, t) \<and>
     (\<exists>ow. r = VoidErr ow \<and> owned_as_slice t ow = Some (string_bytes ''Invalid block height''))"
proof -
  obtain q h' where w: "ffi_write_block list_lru plain_libs 3 [7, 8] (Cached warm_cache) = (q, h')" by fastforce
  have "fst (ffi_write_block list_lru plain_libs 3 [7, 8] (Cached warm_cache)) =
      Err (Error InvalidInput ''Invalid block height'')" by code_simp
  with w have q: "q = Err (Error InvalidInput ''Invalid block height'')" by simp
  from w have "ffi_write_block list_lru plain_libs 3
      (borrowed_as_slice (cmem open_process) \<lparr>bptr = 7, blen = 2\<rparr>) (Cached warm_cache) = (q, h')"
    by (simp only: open_process_ok(3))
  from ffi_reports_outcome [OF open_process_ok(1,2) this] q show ?thesis by auto
qed



end
