(* ===== verification/Import.thy ===== *)
theory Import
  imports Fresh
begin

text \<open>
  \<open>blockstore-cli/src/import.rs\<close>: importing the blocks of a LevelDB database. The database and
  the RLP encoder are not part of the repository: they are the fields of \<open>leveldb\<close>, with the
  iterator that starts at a key given as the list of the raw entries it yields.
\<close>

section \<open>Keys\<close>

datatype leveldb_key =
    Body u64 | Header u64 | HeaderHash u64 | Receipts u64
  | BodyStart | HeaderStart | ReceiptsStart | NoKey

definition key_height :: "leveldb_key \<Rightarrow> u64 option" where
  "key_height k =
     (case k of Body h \<Rightarrow> Some h | Header h \<Rightarrow> Some h | HeaderHash h \<Rightarrow> Some h | Receipts h \<Rightarrow> Some h
      | _ \<Rightarrow> None)"

definition is_header :: "leveldb_key \<Rightarrow> bool" where
  "is_header k = (case k of Header h \<Rightarrow> True | _ \<Rightarrow> False)"

definition is_body :: "leveldb_key \<Rightarrow> bool" where
  "is_body k = (case k of Body h \<Rightarrow> True | _ \<Rightarrow> False)"

definition is_receipts :: "leveldb_key \<Rightarrow> bool" where
  "is_receipts k = (case k of Receipts h \<Rightarrow> True | _ \<Rightarrow> False)"

text \<open>\<open>b'b'\<close>, \<open>b'h'\<close> and \<open>b'r'\<close>.\<close>

abbreviation byte_b :: u8 where "byte_b \<equiv> 0x62"
abbreviation byte_h :: u8 where "byte_h \<equiv> 0x68"
abbreviation byte_r :: u8 where "byte_r \<equiv> 0x72"

definition from_u8 :: "bytes \<Rightarrow> leveldb_key" where
  "from_u8 key =
     (if 9 \<le> length key then
        (let first = hd key; blockid = from_be_bytes (take 8 (drop 1 key)) :: u64
         in if first = byte_b then Body blockid
            else if first = byte_h then
              (if length key = 1 + 8 + 32 then Header blockid
               else if length key = 1 + 8 + 1 then HeaderHash blockid
               else NoKey)
            else if first = byte_r then Receipts blockid
            else NoKey)
      else NoKey)"

text \<open>\<open>as_slice\<close> hands the bytes to a continuation; \<open>NoKey\<close> is unreachable there.\<close>

definition key_bytes :: "leveldb_key \<Rightarrow> bytes option" where
  "key_bytes k =
     (case k of
        Body height \<Rightarrow> Some (byte_b # to_be_bytes height)
      | Header height \<Rightarrow> Some (byte_h # to_be_bytes height)
      | HeaderHash height \<Rightarrow> Some (byte_h # to_be_bytes height)
      | Receipts height \<Rightarrow> Some (byte_r # to_be_bytes height)
      | BodyStart \<Rightarrow> Some [byte_b]
      | HeaderStart \<Rightarrow> Some [byte_h]
      | ReceiptsStart \<Rightarrow> Some [byte_r]
      | NoKey \<Rightarrow> None)"

section \<open>The import\<close>

text \<open>What a command returns besides panicking: an I/O error or a message of its own.\<close>

datatype cli_error = IoError err | TextError string

datatype 'a cli_res = CliOk 'a | CliErr cli_error | CliPanic string

record leveldb =
  ldb_open :: "cli_error option"
  ldb_from :: "bytes \<Rightarrow> (bytes \<times> bytes) list"
  rlp_list :: "bytes list \<Rightarrow> bytes"

text \<open>The typed iterator from a start key.\<close>

definition iter_from :: "leveldb \<Rightarrow> leveldb_key \<Rightarrow> (leveldb_key \<times> bytes) list" where
  "iter_from D k =
     (case key_bytes k of None \<Rightarrow> [] | Some bs \<Rightarrow> map (\<lambda>(key, v). (from_u8 key, v)) (ldb_from D bs))"

text \<open>Writing one matched block, and counting it; the count is the last one printed.\<close>

definition import_block ::
  "libs \<Rightarrow> u64 option \<Rightarrow> bytes \<Rightarrow> u64 \<Rightarrow> store \<Rightarrow> u64 cli_res \<times> store" where
  "import_block L height block cnt s =
     (case height of
        None \<Rightarrow> (CliPanic ''called `Option::unwrap()` on a `None` value'', s)
      | Some h \<Rightarrow>
          (case write_block L h block s of
             (Err e, t) \<Rightarrow> (CliErr (IoError e), t)
           | (Panic m, t) \<Rightarrow> (CliPanic m, t)
           | (Ok u, t) \<Rightarrow>
               (case checked_add cnt 1 of
                  None \<Rightarrow> (CliErr (TextError ''Overflow''), t)
                | Some c \<Rightarrow> (CliOk c, t))))"

fun import_pairs ::
  "libs \<Rightarrow> leveldb \<Rightarrow> ((leveldb_key \<times> bytes) \<times> (leveldb_key \<times> bytes)) list \<Rightarrow> u64 \<Rightarrow> store \<Rightarrow>
     u64 cli_res \<times> store" where
  "import_pairs L D [] cnt s = (CliOk cnt, s)"
| "import_pairs L D (((body_key, body_value), (header_key, header_value)) # rest) cnt s =
     (if \<not> is_body body_key \<or> \<not> is_header header_key then (CliOk cnt, s)
      else if key_height body_key \<noteq> key_height header_key
      then (CliErr (TextError ''Body and header keys have different heights''), s)
      else
        (case import_block L (key_height body_key) (rlp_list D [header_value, body_value]) cnt s of
           (CliOk c, t) \<Rightarrow> import_pairs L D rest c t
         | (CliErr e, t) \<Rightarrow> (CliErr e, t)
         | (CliPanic m, t) \<Rightarrow> (CliPanic m, t)))"

fun import_triples ::
  "libs \<Rightarrow> leveldb \<Rightarrow>
     (((leveldb_key \<times> bytes) \<times> (leveldb_key \<times> bytes)) \<times> (leveldb_key \<times> bytes)) list \<Rightarrow>
     u64 \<Rightarrow> store \<Rightarrow> u64 cli_res \<times> store" where
  "import_triples L D [] cnt s = (CliOk cnt, s)"
| "import_triples L D
     ((((body_key, body_value), (header_key, header_value)), (receipts_key, receipts_value)) # rest)
     cnt s =
     (if \<not> is_body body_key \<or> \<not> is_header header_key \<or> \<not> is_receipts receipts_key
      then (CliOk cnt, s)
      else if key_height body_key \<noteq> key_height header_key \<or>
        key_height body_key \<noteq> key_height receipts_key
      then (CliErr (TextError ''Body, header, and receipts keys have different heights''), s)
      else
        (case import_block L (key_height body_key)
                (rlp_list D [header_value, body_value, receipts_value]) cnt s of
           (CliOk c, t) \<Rightarrow> import_triples L D rest c t
         | (CliErr e, t) \<Rightarrow> (CliErr e, t)
         | (CliPanic m, t) \<Rightarrow> (CliPanic m, t)))"

definition sync_mode_of :: "string \<Rightarrow> sync_mode option" where
  "sync_mode_of mode_arg =
     (if mode_arg = ''sync'' then Some Sync else if mode_arg = ''async'' then Some Async else None)"

definition sync_mode_msg :: string where
  "sync_mode_msg =
     ''Invalid sync mode. Must be '' @ CHR 0x27 # ''sync'' @ CHR 0x27 # '' or '' @
     CHR 0x27 # ''async'' @ [CHR 0x27]"

definition start_key :: "(u64 \<Rightarrow> leveldb_key) \<Rightarrow> leveldb_key \<Rightarrow> u64 option \<Rightarrow> leveldb_key" where
  "start_key at first start_block = (case start_block of None \<Rightarrow> first | Some h \<Rightarrow> at h)"

text \<open>
  The streams the import walks, as they are zipped, and the import itself: it returns the number of
  blocks, which is what it prints, and leaves the directory as the drop of the store does.
\<close>

definition body_stream :: "leveldb \<Rightarrow> u64 option \<Rightarrow> (leveldb_key \<times> bytes) list" where
  "body_stream D start_block = iter_from D (start_key Body BodyStart start_block)"

definition header_stream :: "leveldb \<Rightarrow> u64 option \<Rightarrow> (leveldb_key \<times> bytes) list" where
  "header_stream D start_block =
     filter (\<lambda>(k, _). is_header k) (iter_from D (start_key Header HeaderStart start_block))"

definition receipts_stream :: "leveldb \<Rightarrow> u64 option \<Rightarrow> (leveldb_key \<times> bytes) list" where
  "receipts_stream D start_block = iter_from D (start_key Receipts ReceiptsStart start_block)"

definition import_blocks ::
  "libs \<Rightarrow> leveldb \<Rightarrow> u64 option \<Rightarrow> bool \<Rightarrow> store \<Rightarrow> u64 cli_res \<times> store" where
  "import_blocks L D start_block include_receipts s =
     (if include_receipts
      then import_triples L D
             (zip (zip (body_stream D start_block) (header_stream D start_block))
                  (receipts_stream D start_block)) 0 s
      else import_pairs L D (zip (body_stream D start_block) (header_stream D start_block)) 0 s)"

definition no_such_dir :: cli_error where
  "no_such_dir = IoError (Error NotFound ''No such file or directory (os error 2)'')"

definition import_leveldb ::
  "libs \<Rightarrow> leveldb \<Rightarrow> string \<Rightarrow> u64 \<Rightarrow> u64 option \<Rightarrow> bool \<Rightarrow> world option \<Rightarrow> u64 cli_res \<times> world option" where
  "import_leveldb L D mode_arg min_height start_block include_receipts dir =
     (case ldb_open D of
        Some e \<Rightarrow> (CliErr e, dir)
      | None \<Rightarrow>
          (case sync_mode_of mode_arg of
             None \<Rightarrow> (CliErr (TextError sync_mode_msg), dir)
           | Some mode \<Rightarrow>
               (case dir of
                  None \<Rightarrow> (CliErr no_such_dir, None)
                | Some w \<Rightarrow>
                    (case store_new L 1024 True mode min_height w of
                       Failed e v \<Rightarrow> (CliErr (IoError e), Some v)
                     | Crashed m v \<Rightarrow> (CliPanic m, Some v)
                     | Opened s \<Rightarrow>
                         (case import_blocks L D start_block include_receipts s of
                            (r, t) \<Rightarrow> (r, Some (drop_store t)))))))"

section \<open>Laws\<close>

lemma from_u8_short: "length key < 9 \<Longrightarrow> from_u8 key = NoKey"
  by (simp add: from_u8_def)

lemma from_u8_Cons:
  "length ks = 8 \<Longrightarrow> from_u8 (c # ks @ rest) =
     (if c = byte_b then Body (from_be_bytes ks)
      else if c = byte_h then
        (if length rest = 32 then Header (from_be_bytes ks)
         else if length rest = 1 then HeaderHash (from_be_bytes ks) else NoKey)
      else if c = byte_r then Receipts (from_be_bytes ks)
      else NoKey)"
  by (simp add: from_u8_def Let_def)

text \<open>The blocks an import writes: the matched prefix, in order.\<close>

definition pair_ok :: "(leveldb_key \<times> bytes) \<times> (leveldb_key \<times> bytes) \<Rightarrow> bool" where
  "pair_ok p \<longleftrightarrow> is_body (fst (fst p)) \<and> is_header (fst (snd p))"

definition pair_block ::
  "leveldb \<Rightarrow> (leveldb_key \<times> bytes) \<times> (leveldb_key \<times> bytes) \<Rightarrow> u64 \<times> bytes" where
  "pair_block D p = (the (key_height (fst (fst p))), rlp_list D [snd (snd p), snd (fst p)])"

definition triple_ok ::
  "((leveldb_key \<times> bytes) \<times> (leveldb_key \<times> bytes)) \<times> (leveldb_key \<times> bytes) \<Rightarrow> bool" where
  "triple_ok p \<longleftrightarrow> pair_ok (fst p) \<and> is_receipts (fst (snd p))"

definition triple_block ::
  "leveldb \<Rightarrow> ((leveldb_key \<times> bytes) \<times> (leveldb_key \<times> bytes)) \<times> (leveldb_key \<times> bytes) \<Rightarrow> u64 \<times> bytes" where
  "triple_block D p =
     (the (key_height (fst (fst (fst p)))),
      rlp_list D [snd (snd (fst p)), snd (fst (fst p)), snd (snd p)])"

text \<open>The heights of a tuple agree.\<close>

definition pair_agrees :: "(leveldb_key \<times> bytes) \<times> (leveldb_key \<times> bytes) \<Rightarrow> bool" where
  "pair_agrees p \<longleftrightarrow> key_height (fst (fst p)) = key_height (fst (snd p))"

definition triple_agrees ::
  "((leveldb_key \<times> bytes) \<times> (leveldb_key \<times> bytes)) \<times> (leveldb_key \<times> bytes) \<Rightarrow> bool" where
  "triple_agrees p \<longleftrightarrow>
     pair_agrees (fst p) \<and> key_height (fst (fst (fst p))) = key_height (fst (snd p))"

lemma is_body_height: "is_body k \<Longrightarrow> key_height k = Some (the (key_height k))"
  by (cases k) (simp_all add: is_body_def key_height_def)

lemma import_block_Ok:
  assumes "import_block L (Some h) b cnt s = (CliOk c, t)"
  shows "write_block L h b s = (Ok (), t) \<and> checked_add cnt 1 = Some c"
  using assms by (auto simp: import_block_def split: prod.splits res.splits option.splits)

text \<open>An import that returns has run the writes of the matched prefix, and counted them.\<close>

lemma import_pairs_Ok:
  assumes "import_pairs L D ps cnt s = (CliOk n, t)"
  shows "write_seq (write_block L) (map (pair_block D) (takeWhile pair_ok ps)) s = (Ok (), t) \<and>
    unat n = unat cnt + length (takeWhile pair_ok ps) \<and>
    list_all pair_agrees (takeWhile pair_ok ps)"
  using assms
proof (induction ps arbitrary: cnt s)
  case Nil
  then show ?case by (simp add: io_simps)
next
  case (Cons p ps)
  obtain bk bv hk hv where p: "p = ((bk, bv), (hk, hv))" by (metis prod.collapse)
  show ?case
  proof (cases "pair_ok p")
    case False
    then show ?thesis using Cons.prems by (auto simp: p pair_ok_def io_simps)
  next
    case True
    then have b: "is_body bk" "is_header hk" by (simp_all add: p pair_ok_def)
    with Cons.prems have eq: "key_height bk = key_height hk" by (auto simp: p split: if_splits)
    note h = is_body_height [OF b(1)]
    obtain c u where u: "import_block L (key_height bk) (rlp_list D [hv, bv]) cnt s = (CliOk c, u)"
      "import_pairs L D ps c u = (CliOk n, t)"
      using Cons.prems b eq by (auto simp: p split: prod.splits cli_res.splits)
    have w: "write_block L (the (key_height bk)) (rlp_list D [hv, bv]) s = (Ok (), u)"
      and c: "unat c = unat cnt + 1"
      using import_block_Ok [of L "the (key_height bk)" "rlp_list D [hv, bv]" cnt s c u] u(1) h
      by (auto simp: checked)
    show ?thesis
      using Cons.IH [OF u(2)] w c eq True by (simp add: p pair_block_def pair_agrees_def io_bind_def)
  qed
qed

lemma import_triples_Ok:
  assumes "import_triples L D ps cnt s = (CliOk n, t)"
  shows "write_seq (write_block L) (map (triple_block D) (takeWhile triple_ok ps)) s = (Ok (), t) \<and>
    unat n = unat cnt + length (takeWhile triple_ok ps) \<and>
    list_all triple_agrees (takeWhile triple_ok ps)"
  using assms
proof (induction ps arbitrary: cnt s)
  case Nil
  then show ?case by (simp add: io_simps)
next
  case (Cons p ps)
  obtain bk bv hk hv rk rv where p: "p = (((bk, bv), (hk, hv)), (rk, rv))" by (metis prod.collapse)
  show ?case
  proof (cases "triple_ok p")
    case False
    then show ?thesis using Cons.prems by (auto simp: p triple_ok_def pair_ok_def io_simps)
  next
    case True
    then have b: "is_body bk" "is_header hk" "is_receipts rk"
      by (simp_all add: p triple_ok_def pair_ok_def)
    with Cons.prems have eq: "key_height bk = key_height hk" "key_height bk = key_height rk"
      by (auto simp: p split: if_splits)
    note h = is_body_height [OF b(1)]
    obtain c u where u: "import_block L (key_height bk) (rlp_list D [hv, bv, rv]) cnt s = (CliOk c, u)"
      "import_triples L D ps c u = (CliOk n, t)"
      using Cons.prems b eq by (auto simp: p split: prod.splits cli_res.splits)
    have w: "write_block L (the (key_height bk)) (rlp_list D [hv, bv, rv]) s = (Ok (), u)"
      and c: "unat c = unat cnt + 1"
      using import_block_Ok [of L "the (key_height bk)" "rlp_list D [hv, bv, rv]" cnt s c u] u(1) h
      by (auto simp: checked)
    show ?thesis
      using Cons.IH [OF u(2)] w c eq True by (simp add: p triple_block_def triple_agrees_def pair_agrees_def io_bind_def)
  qed
qed

text \<open>The blocks an import of a database writes, and whether the heights of each agree.\<close>

definition imported :: "leveldb \<Rightarrow> u64 option \<Rightarrow> bool \<Rightarrow> (u64 \<times> bytes) list" where
  "imported D start_block include_receipts =
     (let pairs = zip (body_stream D start_block) (header_stream D start_block)
      in if include_receipts
         then map (triple_block D) (takeWhile triple_ok (zip pairs (receipts_stream D start_block)))
         else map (pair_block D) (takeWhile pair_ok pairs))"

lemma import_blocks_Ok:
  assumes "import_blocks L D start_block r s = (CliOk n, t)"
  shows "write_seq (write_block L) (imported D start_block r) s = (Ok (), t) \<and>
    unat n = length (imported D start_block r)"
  using assms import_pairs_Ok import_triples_Ok
  by (fastforce simp: import_blocks_def imported_def Let_def split: if_splits)

lemma write_seq_cap:
  assumes "write_seq (write_block L) ps s = (Ok (), t)" and "fs_inv s"
  shows "fs_inv t \<and> fs_max_data_file_size t = fs_max_data_file_size s"
  using assms
proof (induction ps arbitrary: s)
  case Nil
  then show ?case by (simp add: io_simps)
next
  case (Cons p ps)
  then obtain u where u: "write_block L (fst p) (snd p) s = (Ok (), u)"
    "write_seq (write_block L) ps u = (Ok (), t)" by (auto elim: io_bind_OkE)
  show ?case using write_block_fs_inv [OF u(1) Cons.prems(2)] Cons.IH [OF u(2)] by simp
qed

text \<open>The options of the store an import or a copy creates.\<close>

definition new_options :: "sync_mode \<Rightarrow> u64 \<Rightarrow> store_options" where
  "new_options mode m =
     default_options\<lparr>opt_cache_size := 1024, opt_truncate := True, opt_sync := mode, opt_minimum_height := m\<rparr>"

lemma store_new_truncate: "store_new L 1024 True mode m w = open_store L (new_options mode m) w"
  by (simp add: store_new_def new_options_def)

lemma new_options_ok [simp]:
  "truncates (new_options mode m)" "opt_max_data_file_size (new_options mode m) = None"
  "opt_minimum_height (new_options mode m) = m"
  by (simp_all add: truncates_def new_options_def default_options_def DEFAULT_MAX_DATA_FILES_def)

lemma new_options_cap: "fs_max_data_file_size (fresh_store (new_options mode m) w) = None"
  by (simp add: effective_max_def fresh_header_def)

section \<open>Claims\<close>


text \<open>A database of two blocks and a receipt, whose entries start with a header hash.\<close>

definition small_db :: leveldb where
  "small_db =
     \<lparr>ldb_open = None,
      ldb_from = (\<lambda>k.
        if hd k = byte_b then [(byte_b # to_be_bytes (1 :: u64), [10]), (byte_b # to_be_bytes (2 :: u64), [20]),
                               (byte_r # to_be_bytes (1 :: u64), [30])]
        else [(byte_h # to_be_bytes (1 :: u64) @ [0x6E], [0]),
              (byte_h # to_be_bytes (1 :: u64) @ replicate 32 7, [11]),
              (byte_h # to_be_bytes (2 :: u64) @ replicate 32 8, [21])]),
      rlp_list = concat\<rparr>"


text \<open>
  The keys: a body or receipts key of the start of an iteration reads back as itself, and a
  header key followed by a 32-byte hash, or a header-hash key followed by its one byte, reads back
  as the key; a bare header key does not.
\<close>

theorem leveldb_key_round_trip:
  assumes "length hash = 32"
  shows "map_option from_u8 (key_bytes (Body h)) = Some (Body h) \<and>
    map_option from_u8 (key_bytes (Receipts h)) = Some (Receipts h) \<and>
    map_option (\<lambda>k. from_u8 (k @ hash)) (key_bytes (Header h)) = Some (Header h) \<and>
    map_option (\<lambda>k. from_u8 (k @ [c])) (key_bytes (HeaderHash h)) = Some (HeaderHash h) \<and>
    map_option from_u8 (key_bytes (Header h)) = Some NoKey"
  using assms from_u8_Cons [of "to_be_bytes h" _ "[]"]
  by (simp add: key_bytes_def from_u8_Cons)

theorem leveldb_key_round_trip_witness:
  "map_option (\<lambda>k. from_u8 (k @ replicate 32 7)) (key_bytes (Header 258)) = Some (Header 258)"
  using leveldb_key_round_trip [of "replicate 32 7" 258] by simp

end
