(* ===== verification/Cli.thy ===== *)
theory Cli
  imports Import
begin

text \<open>
  \<open>blockstore-cli/src/main.rs\<close>: the commands of the command-line tool. The argument parser and
  the hex printer are libraries; a command starts from the parsed arguments, and what it prints is
  its result. A store lives in a pair of directories, which \<open>dirs\<close> maps to what they hold; two
  pairs a command names are taken to be the same or apart.
\<close>

section \<open>Arguments\<close>

datatype command =
    Get u64
  | ImportDb string string u64 "u64 option" bool
  | Copy string "u64 option"

record cli =
  arg_db_path :: "string option"
  arg_index_path :: "string option"
  arg_data_path :: "string option"
  arg_command :: command

definition or_else :: "'a option \<Rightarrow> 'a option \<Rightarrow> 'a option" where
  "or_else x y = (case x of None \<Rightarrow> y | Some a \<Rightarrow> Some a)"

definition path_resolver ::
  "string option \<Rightarrow> string option \<Rightarrow> string option \<Rightarrow> cli_error + (string \<times> string)" where
  "path_resolver db_path index_path data_path =
     (case or_else index_path db_path of
        None \<Rightarrow> Inl (TextError ''Either --dbpath or --index-path must be specified'')
      | Some index \<Rightarrow>
          (case or_else data_path db_path of
             None \<Rightarrow> Inl (TextError ''Either --dbpath or --data-path must be specified'')
           | Some data \<Rightarrow> Inr (index, data)))"

type_synonym dirs = "string \<times> string \<Rightarrow> world option"

section \<open>Get\<close>

definition cli_get ::
  "libs \<Rightarrow> (bytes \<Rightarrow> string) \<Rightarrow> u64 \<Rightarrow> string \<times> string \<Rightarrow> dirs \<Rightarrow> string cli_res \<times> dirs" where
  "cli_get L hex height path dirs =
     (case dirs path of
        None \<Rightarrow> (CliErr no_such_dir, dirs)
      | Some w \<Rightarrow>
          (case store_new L 1024 False Async height w of
             Failed e v \<Rightarrow> (CliErr (IoError e), dirs(path \<mapsto> v))
           | Crashed m v \<Rightarrow> (CliPanic m, dirs(path \<mapsto> v))
           | Opened store \<Rightarrow>
               (case read_block L height store of
                  (r, t) \<Rightarrow>
                    ((case r of
                        Ok (Some block) \<Rightarrow> CliOk (hex block)
                      | Ok None \<Rightarrow> CliPanic ''block not found''
                      | Err e \<Rightarrow> CliErr (IoError e)
                      | Panic m \<Rightarrow> CliPanic m),
                     dirs(path \<mapsto> drop_store t)))))"

section \<open>Copy\<close>

text \<open>The loop: it ends at the first height the source does not hold.\<close>

function copy_loop :: "libs \<Rightarrow> u64 \<Rightarrow> store \<Rightarrow> store \<Rightarrow> u64 cli_res \<times> store \<times> store" where
  "copy_loop L height source_store target_store =
     (case read_block L height source_store of
        (Err e, s) \<Rightarrow> (CliErr (IoError e), s, target_store)
      | (Panic m, s) \<Rightarrow> (CliPanic m, s, target_store)
      | (Ok None, s) \<Rightarrow> (CliOk height, s, target_store)
      | (Ok (Some block), s) \<Rightarrow>
          (case write_block L height block target_store of
             (Err e, t) \<Rightarrow> (CliErr (IoError e), s, t)
           | (Panic m, t) \<Rightarrow> (CliPanic m, s, t)
           | (Ok u, t) \<Rightarrow>
               (case checked_add height 1 of
                  None \<Rightarrow> (CliErr (TextError ''Overflow''), s, t)
                | Some next_height \<Rightarrow> copy_loop L next_height s t)))"
  by pat_completeness auto
termination
proof (relation "measure (\<lambda>(L, h, s, t). 2 ^ 64 - unat h)", simp)
  fix h n :: u64
  assume "checked_add h 1 = Some n"
  then have "unat n = unat h + 1" by (simp add: checked)
  then have "2 ^ 64 - unat n < 2 ^ 64 - unat h" using unat_lt_64 [of n] by linarith
  then show "((L, n, s, t), L, h, s', t') \<in> measure (\<lambda>(L, h, s, t). 2 ^ 64 - unat h)" for L :: libs
    and s t s' t' :: store by simp
qed
declare copy_loop.simps [simp del]

definition copy_message :: "u64 \<Rightarrow> string" where
  "copy_message height = ''Copied blocks up to height '' @ dec (unat (saturating_sub height 1))"

definition cli_copy ::
  "libs \<Rightarrow> string \<Rightarrow> u64 option \<Rightarrow> string \<times> string \<Rightarrow> dirs \<Rightarrow> u64 cli_res \<times> dirs" where
  "cli_copy L target start_block path dirs =
     (case dirs path of
        None \<Rightarrow> (CliErr no_such_dir, dirs)
      | Some w \<Rightarrow>
          (case store_new L 1024 False Async 1 w of
             Failed e v \<Rightarrow> (CliErr (IoError e), dirs(path \<mapsto> v))
           | Crashed m v \<Rightarrow> (CliPanic m, dirs(path \<mapsto> v))
           | Opened s \<Rightarrow>
               (let target_min_height =
                      (case start_block of None \<Rightarrow> min_block_height s | Some h \<Rightarrow> h);
                    same = ((target, target) = path);
                    close = (\<lambda>v. if same then dirs(path \<mapsto> drop_store (set_world v s))
                                 else dirs(path \<mapsto> drop_store s, (target, target) \<mapsto> v))
                in case (if same then Some (world_part s) else dirs (target, target)) of
                     None \<Rightarrow> (CliErr no_such_dir, dirs(path \<mapsto> drop_store s))
                   | Some w' \<Rightarrow>
                       (case store_new L 1024 True Async target_min_height w' of
                          Failed e v \<Rightarrow> (CliErr (IoError e), close v)
                        | Crashed m v \<Rightarrow> (CliPanic m, close v)
                        | Opened t \<Rightarrow>
                            (case copy_loop L
                                    (case start_block of None \<Rightarrow> target_min_height | Some h \<Rightarrow> h) s t of
                               (r, s', t') \<Rightarrow>
                                 (r, dirs(path \<mapsto> drop_store s', (target, target) \<mapsto> drop_store t')))))))"

section \<open>Main\<close>

text \<open>What a command prints on success; an import prints its count.\<close>

definition import_message :: "u64 \<Rightarrow> string" where
  "import_message cnt = ''Imported '' @ dec (unat cnt) @ '' blocks''"

fun map_cli :: "('a \<Rightarrow> 'b) \<Rightarrow> 'a cli_res \<Rightarrow> 'b cli_res" where
  "map_cli f (CliOk a) = CliOk (f a)"
| "map_cli f (CliErr e) = CliErr e"
| "map_cli f (CliPanic m) = CliPanic m"

definition cli_main ::
  "libs \<Rightarrow> (bytes \<Rightarrow> string) \<Rightarrow> (string \<Rightarrow> leveldb) \<Rightarrow> cli \<Rightarrow> dirs \<Rightarrow> string cli_res \<times> dirs" where
  "cli_main L hex dbs args dirs =
     (case path_resolver (arg_db_path args) (arg_index_path args) (arg_data_path args) of
        Inl e \<Rightarrow> (CliErr e, dirs)
      | Inr path \<Rightarrow>
          (case arg_command args of
             Get height \<Rightarrow> cli_get L hex height path dirs
           | ImportDb db mode_arg min_height start_block receipts \<Rightarrow>
               (case import_leveldb L (dbs db) mode_arg min_height start_block receipts (dirs path) of
                  (r, v) \<Rightarrow> (map_cli import_message r, dirs(path := v)))
           | Copy target start_block \<Rightarrow>
               (case cli_copy L target start_block path dirs of
                  (r, ds) \<Rightarrow> (map_cli copy_message r, ds))))"

section \<open>What a copy does\<close>

text \<open>A copy loop that returns has copied an interval of heights, and stopped at a height without a block.\<close>

definition heights_between :: "u64 \<Rightarrow> u64 \<Rightarrow> u64 set" where
  "heights_between a b = {h. unat a \<le> unat h \<and> unat h < unat b}"

text \<open>The writes of a copy: the blocks of the interval, in order.\<close>

fun blocks_from :: "(u64 \<Rightarrow> bytes option) \<Rightarrow> nat \<Rightarrow> u64 \<Rightarrow> (u64 \<times> bytes) list" where
  "blocks_from m 0 h = []"
| "blocks_from m (Suc n) h =
     (case m h of None \<Rightarrow> [] | Some b \<Rightarrow> (h, b) # blocks_from m n (h + 1))"

lemma copy_loop_cases:
  assumes "copy_loop L h s t = (CliOk k, s', t')"
  obtains (stop) s1 where "read_block L h s = (Ok None, s1)" "k = h" "s' = s1" "t' = t"
    | (step) b s1 t1 where "read_block L h s = (Ok (Some b), s1)" "write_block L h b t = (Ok (), t1)"
        "unat (h + 1) = unat h + 1" "copy_loop L (h + 1) s1 t1 = (CliOk k, s', t')"
proof -
  have n: "n = h + 1 \<and> unat n = unat h + 1" if "checked_add h 1 = Some n" for n
  proof
    show "n = h + 1" using that by (simp add: checked_add_def split: if_splits)
    show "unat n = unat h + 1" using that by (simp add: checked)
  qed
  show ?thesis
    using assms n by (subst (asm) copy_loop.simps)
      (auto split: prod.splits res.splits option.splits intro: stop step)
qed

lemma copy_loop_Ok:
  assumes "copy_loop L h s t = (CliOk k, s', t')" and "store_ok s"
  shows "\<exists>n. unat k = unat h + n \<and>
    write_seq (write_block L) (blocks_from (contents L s) n h) t = (Ok (), t') \<and>
    (\<forall>x. unat h \<le> unat x \<and> unat x < unat k \<longrightarrow> contents L s x \<noteq> None) \<and> contents L s k = None \<and>
    contents L s' = contents L s \<and> store_ok s'"
proof -
  define m where "m = 2 ^ 64 - unat h"
  then show ?thesis
    using assms
  proof (induction m arbitrary: h s t rule: less_induct)
    case (less m)
    from less.prems(2) show ?case
    proof (cases rule: copy_loop_cases)
      case (stop s1)
      have "None = contents L s h" by (rule store.rd_view [OF less.prems(3) stop(1)])
      then show ?thesis
        using store.rd_keeps [OF less.prems(3) stop(1)] stop by (intro exI [of _ 0]) (auto simp: io_simps)
    next
      case (step b s1 t1)
      have cb: "Some b = contents L s h" by (rule store.rd_view [OF less.prems(3) step(1)])
      note keep = store.rd_keeps [OF less.prems(3) step(1)]
      have "2 ^ 64 - unat (h + 1) < m" using less.prems(1) step(3) unat_lt_64 [of "h + 1"] by linarith
      from less.IH [OF this refl step(4)] keep obtain n where
        n: "unat k = unat (h + 1) + n"
          "write_seq (write_block L) (blocks_from (contents L s) n (h + 1)) t1 = (Ok (), t')"
          "\<And>x. unat (h + 1) \<le> unat x \<Longrightarrow> unat x < unat k \<Longrightarrow> contents L s x \<noteq> None"
          "contents L s k = None" "contents L s' = contents L s" "store_ok s'" by auto
      have "contents L s x \<noteq> None" if "unat h \<le> unat x" "unat x < unat k" for x
      proof (cases "unat x = unat h")
        case True
        then have "x = h" by (rule word_unat_eq_iff [THEN iffD2])
        then show ?thesis using cb by (simp flip: cb)
      next
        case False
        then show ?thesis using n(3) [of x] that step(3) by simp
      qed
      moreover have "write_seq (write_block L) (blocks_from (contents L s) (Suc n) h) t = (Ok (), t')"
        using n(2) step(2) by (simp add: io_bind_def flip: cb)
      ultimately show ?thesis
        using n step(3) by (intro exI [of _ "Suc n"]) auto
    qed
  qed
qed

text \<open>As a map, the blocks of the interval are the restriction of the source to it.\<close>

lemma map_of_blocks_from:
  assumes "\<And>x. unat h \<le> unat x \<Longrightarrow> unat x < unat h + n \<Longrightarrow> m x \<noteq> None" and "unat h + n < 2 ^ 64"
  shows "map_of (rev (blocks_from m n h)) = m |` {x. unat h \<le> unat x \<and> unat x < unat h + n} \<and>
    (\<forall>p \<in> set (blocks_from m n h). unat (fst p) < unat h + n)"
  using assms
proof (induction n arbitrary: h)
  case 0
  then show ?case by (auto simp: fun_eq_iff restrict_map_def)
next
  case (Suc n)
  obtain b where b: "m h = Some b" using Suc.prems(1) [of h] by auto
  have h1: "unat (h + 1) = unat h + 1" using Suc.prems(2) by (subst unat_plus_fits) auto
  have IH: "map_of (rev (blocks_from m n (h + 1))) = m |` {x. unat (h + 1) \<le> unat x \<and> unat x < unat (h + 1) + n}"
    "\<forall>p \<in> set (blocks_from m n (h + 1)). unat (fst p) < unat (h + 1) + n"
    using Suc.IH [of "h + 1"] Suc.prems h1 by auto
  have "map_of (rev (blocks_from m (Suc n) h)) x = (m |` {x. unat h \<le> unat x \<and> unat x < unat h + Suc n}) x" for x
  proof (cases "x = h")
    case True
    then show ?thesis by (simp add: b IH(1) map_add_def restrict_map_def h1)
  next
    case False
    then have "unat x \<noteq> unat h" using word_unat_eq_iff by blast
    then show ?thesis using False by (auto simp: b IH(1) map_add_def restrict_map_def h1 split: option.split)
  qed
  then show ?case using IH(2) h1 by (auto simp: b fun_eq_iff)
qed

section \<open>Claims\<close>

text \<open>
  C24: a copy that returns has copied exactly the blocks from its start up to the first height the
  source does not hold: the target, opened again, holds the source's blocks of that interval and
  nothing else, and the source reads as before.
\<close>

theorem copy_is_restriction:
  assumes "dirs path = Some w" and "store_new L 1024 False Async 1 w = Opened s" and "store_ok s"
    and "dirs (target, target) = Some d" and "calm d" and "(target, target) \<noteq> path"
    and "cli_copy L target start_block path dirs = (CliOk k, dirs')"
    and "lo = (case start_block of None \<Rightarrow> min_block_height s | Some h \<Rightarrow> h)"
    and "unat lo < 2 ^ 59" and "unat k \<le> 2 ^ 59"
    and "\<And>n. fits_seq (write_block L) (acceptable L) (blocks_from (contents L s) n lo)
       (fresh_store (new_options Async lo) d)"
    and "keeps_store opts"
  shows "\<exists>v t. dirs' (target, target) = Some v \<and> open_store L opts v = Opened t \<and> ready t \<and>
    contents L t = contents L s |` heights_between lo k \<and> contents L s k = None \<and> unat lo \<le> unat k \<and>
    (\<forall>h \<in> heights_between lo k. contents L s h \<noteq> None)"
proof -
  let ?f = "fresh_store (new_options Async lo) d"
  have o: "open_store L (new_options Async lo) d = Opened ?f" by (rule open_fresh [OF assms(5)]) simp
  have c: "(case start_block of None \<Rightarrow> case start_block of None \<Rightarrow> min_block_height s | Some h \<Rightarrow> h | Some h \<Rightarrow> h) = lo"
    using assms(8) by (simp split: option.splits)
  obtain s' t' where cl: "copy_loop L lo s ?f = (CliOk k, s', t')"
    and ds: "dirs' = dirs(path \<mapsto> drop_store s', (target, target) \<mapsto> drop_store t')"
    using assms(1,2,4,6,7) o c
    by (auto simp: cli_copy_def store_new_truncate Let_def assms(8) split: prod.splits)
  from copy_loop_Ok [OF cl assms(3)] obtain n where n: "unat k = unat lo + n"
    "write_seq (write_block L) (blocks_from (contents L s) n lo) ?f = (Ok (), t')"
    "\<And>x. unat lo \<le> unat x \<Longrightarrow> unat x < unat k \<Longrightarrow> contents L s x \<noteq> None" "contents L s k = None"
    by auto
  have m: "map_of (rev (blocks_from (contents L s) n lo)) = contents L s |` heights_between lo k"
    "\<forall>p \<in> set (blocks_from (contents L s) n lo). unat (fst p) < unat k"
    using map_of_blocks_from [of lo n "contents L s"] n(1,3) unat_lt_64 [of k]
    by (simp_all add: heights_between_def)
  have "fs_inv ?f" using fresh_alive(2) [OF assms(5)] by (simp add: ready_def)
  then have "fs_max_data_file_size t' = None"
    using write_seq_cap [OF n(2)] new_options_cap [of Async lo d] by simp
  then have a: "addressable t'" by (simp add: addressable_def)
  have h: "heights_ok (blocks_from (contents L s) n lo)"
    using m(2) assms(10) by (auto simp: heights_ok_def)
  have "new_store_ok (opt_max_data_file_size (new_options Async lo)) (opt_minimum_height (new_options Async lo))"
    using assms(9) by (simp add: new_store_ok_def)
  from lived_store_reopens [OF assms(5) _ this o n(2) assms(11) h a assms(12)] obtain t where
    "open_store L opts (drop_store t') = Opened t" "ready t"
    "contents L t = map_of (rev (blocks_from (contents L s) n lo))" by auto
  then show ?thesis using ds n(1,3,4) m(1) by (auto simp: heights_between_def)
qed

text \<open>A source that holds block 7, and a target directory with other files.\<close>

definition two_dirs :: dirs where
  "two_dirs = [(''a'', ''a'') \<mapsto> drop_store lived_store, (''b'', ''b'') \<mapsto> old_dir]"

lemma store_new_default: "store_new L 1024 False Async 1 = open_store L default_options"
  by (simp add: store_new_def default_options_def fun_eq_iff)

theorem copy_is_restriction_witness:
  "\<exists>dirs' v t. cli_copy plain_libs ''b'' (Some 7) (''a'', ''a'') two_dirs = (CliOk 8, dirs') \<and>
     dirs' (''b'', ''b'') = Some v \<and> open_store plain_libs default_options v = Opened t \<and>
     contents plain_libs t 7 = Some [1, 2, 3]"
proof -
  let ?f = "fresh_store (new_options Async 7) old_dir"
  obtain s where s: "open_store plain_libs default_options (drop_store lived_store) = Opened s"
    "ready s" "store_ok s" "contents plain_libs s = [7 \<mapsto> [1, 2, 3]]"
    "\<And>h. peek plain_libs s h = peek plain_libs lived_store h"
    by (rule lived_store_opens) blast
  obtain s1 where r1: "read_block plain_libs 7 s = (peek plain_libs s 7, s1)" "same_files s s1" "ready s1"
    using s(2) by (rule read_block_ready)
  obtain s2 where r2: "read_block plain_libs 8 s1 = (peek plain_libs s1 8, s2)" "ready s2"
    using r1(3) by (rule read_block_ready)
  have "peek plain_libs lived_store 7 = Ok (Some [1, 2, 3])" "peek plain_libs lived_store 8 = Ok None"
    by code_simp+
  then have p: "peek plain_libs s 7 = Ok (Some [1, 2, 3])" "peek plain_libs s1 8 = Ok None"
    using s(5) same_blocks_view(1) [OF same_files_blocks [OF r1(2)]] r1(3) s(2) by simp_all
  have "fst (write_block plain_libs 7 [1, 2, 3] ?f) = Ok ()" by code_simp
  then obtain t where w: "write_block plain_libs 7 [1, 2, 3] ?f = (Ok (), t)"
    by (cases "write_block plain_libs 7 [1, 2, 3] ?f") simp
  have "copy_loop plain_libs 8 s1 t = (CliOk 8, s2, t)"
    using r2 p by (simp add: copy_loop.simps [of plain_libs 8])
  then have "copy_loop plain_libs 7 s ?f = (CliOk 8, s2, t)"
    using r1 p w by (simp add: copy_loop.simps [of plain_libs 7] checked_add_def)
  moreover have "open_store plain_libs (new_options Async 7) old_dir = Opened ?f"
    by (rule open_fresh [OF old_dir_calm]) simp
  ultimately obtain dirs' where c: "cli_copy plain_libs ''b'' (Some 7) (''a'', ''a'') two_dirs = (CliOk 8, dirs')"
    using s(1) by (simp add: cli_copy_def two_dirs_def store_new_default store_new_truncate Let_def)
  have "fs_max_data_file_size t' = None" if "write_block plain_libs 7 [1, 2, 3] ?f = (Ok (), t')" for t'
    using write_block_fs_inv(3) [OF that] new_options_cap [of Async 7 old_dir] fresh_alive(2) [OF old_dir_calm]
    by (simp add: ready_def)
  moreover have "addressable ?f" using new_options_cap by (simp add: addressable_def)
  ultimately have fit: "fits_seq (write_block plain_libs) (acceptable plain_libs)
      (blocks_from (contents plain_libs s) n 7) ?f" for n
    by (cases n; cases "n - 1") (auto simp: s(4) acceptable_def split: prod.split res.split)
  have "\<exists>v t. dirs' (''b'', ''b'') = Some v \<and> open_store plain_libs default_options v = Opened t \<and> ready t \<and>
      contents plain_libs t = contents plain_libs s |` heights_between 7 8 \<and> contents plain_libs s 8 = None \<and>
      unat (7 :: u64) \<le> unat (8 :: u64) \<and> (\<forall>h \<in> heights_between 7 8. contents plain_libs s h \<noteq> None)"
    by (rule copy_is_restriction [OF _ _ s(3) _ old_dir_calm _ c _ _ _ fit, where opts = default_options])
      (use s(1) in \<open>simp_all add: two_dirs_def store_new_default keeps_store_def default_options_def
        DEFAULT_MAX_DATA_FILES_def\<close>)
  then show ?thesis using c by (auto simp: s(4) heights_between_def)
qed

end
