(* ===== verification/Contiguity.thy ===== *)
theory Contiguity
  imports Fresh
begin

text \<open>
  The contiguity counter of a running store: every height from the minimum up to the counter has
  an index entry, and the next one has none. A successful write keeps this for every store whose
  minimum height is at least 1; with minimum height 0 the first write of height 1 breaks it.
\<close>

section \<open>The cascade\<close>

lemma present_cong:
  assumes hd: "header t = header s"
    and en: "\<And>h slot. index_entry_offset s h = Some slot \<Longrightarrow> entry_at t slot = entry_at s slot"
  shows "present t = present s"
proof
  fix h
  show "present t h = present s h"
    using index_entry_offset_header [OF hd] en [of h]
    by (cases "index_entry_offset s h") (simp_all add: present_def)
qed

lemma contig_only_present:
  assumes "contig_only s t" shows "present t = present s"
proof -
  note f = contig_only_fields [OF assms]
  have "entry_at t = entry_at s" using f(1) by (simp add: entry_at_def fun_eq_iff)
  then show ?thesis using f(2) by (intro present_cong) simp_all
qed

text \<open>Reading the entry of a height decides whether it is present.\<close>

lemma read_index_entry_present:
  assumes "read_index_entry h s = (r, t)"
  shows "(\<forall>ent. r = Ok (Some ent) \<longrightarrow> index_entry_offset s h \<noteq> None \<and> (zero_entry ent \<longleftrightarrow> \<not> present s h)) \<and>
    (faults s = [] \<and> (\<forall>ent. r \<noteq> Ok (Some ent)) \<longrightarrow> \<not> present s h)"
  using assms
proof (cases rule: read_index_entry_cases)
  case bad
  then show ?thesis by (simp add: present_def)
next
  case (ok off fs)
  then show ?thesis using entry_at_fill [of s off] by (simp add: present_def)
next
  case (failed off e fs)
  then show ?thesis using assms read_index_entry_none [of s h off] by auto
qed

lemma cascade_floor:
  assumes "ih_min_height (header s) \<noteq> 0" and "max_contiguous_height s = cur"
  shows "cur \<le> max_contiguous_height (cascade cur s) \<and>
    (\<forall>k. cur < k \<and> k \<le> max_contiguous_height (cascade cur s) \<longrightarrow> present s k) \<and>
    (faults s = [] \<longrightarrow> \<not> present s (max_contiguous_height (cascade cur s) + 1))"
  using assms
proof (induction cur s rule: cascade.induct)
  case (1 cur s)
  obtain r t where rd: "read_index_entry (cur + 1) s = (r, t)" by fastforce
  note co = read_index_entry_contig [OF rd]
  note p = read_index_entry_present [OF rd]
  have mt: "max_contiguous_height t = cur"
    using rd 1(3) by (cases rule: read_index_entry_cases) simp_all
  show ?case
  proof (cases "\<exists>ent. r = Ok (Some ent) \<and> \<not> zero_entry ent")
    case False
    then have "cascade cur s = t"
      using rd by (subst cascade.simps) (auto split: res.splits option.splits)
    moreover have "\<not> present s (cur + 1)" if "faults s = []" using p that False by blast
    ultimately show ?thesis using mt by auto
  next
    case True
    then obtain ent where e: "r = Ok (Some ent)" "\<not> zero_entry ent" by blast
    let ?t = "t\<lparr>max_contiguous_height := cur + 1\<rparr>"
    have eq: "cascade cur s = cascade (cur + 1) ?t"
      using rd e mt by (subst cascade.simps) simp
    have st: "contig_only s ?t"
      using co by (rule contig_only_trans) (simp add: contig_only_def)
    note f = contig_only_fields [OF st]
    have pr: "present s (cur + 1)" and off: "index_entry_offset s (cur + 1) \<noteq> None" using p e by blast+
    then have "unat (ih_min_height (header s)) \<le> unat (cur + 1)" by (auto simp: index_entry_offset_Some)
    then have "cur \<noteq> u64_max" using 1(2) by (auto simp: unat_eq_zero)
    then have n: "unat (cur + 1) = unat cur + 1" by (rule unat_Suc_u64)
    have IH: "cur + 1 \<le> max_contiguous_height (cascade cur s)"
      "\<forall>k. cur + 1 < k \<and> k \<le> max_contiguous_height (cascade cur s) \<longrightarrow> present s k"
      "faults s = [] \<longrightarrow> \<not> present s (max_contiguous_height (cascade cur s) + 1)"
      using 1(1) [OF rd [symmetric] e(1) refl e(2) mt] 1(2) f(2) contig_only_present [OF st] st
      by (simp_all add: eq contig_only_def)
    have "present s k" if "cur < k" "k \<le> max_contiguous_height (cascade cur s)" for k
    proof (cases "k = cur + 1")
      case False
      then have "unat k \<noteq> unat (cur + 1)" using word_unat_eq_iff by blast
      then have "cur + 1 < k" using that(1) n by (simp add: word_less_nat_alt)
      then show ?thesis using IH(2) that(2) by blast
    qed (use pr in simp)
    moreover have "cur \<le> max_contiguous_height (cascade cur s)"
      using IH(1) n by (simp add: word_le_nat_alt)
    ultimately show ?thesis using IH(3) by blast
  qed
qed

section \<open>The invariant\<close>

definition contiguous_ok :: "'z store_scheme \<Rightarrow> bool" where
  "contiguous_ok s \<longleftrightarrow>
     saturating_sub (ih_min_height (header s)) 1 \<le> max_contiguous_height s \<and>
     (\<forall>k. ih_min_height (header s) \<le> k \<and> k \<le> max_contiguous_height s \<longrightarrow> present s k) \<and>
     \<not> present s (max_contiguous_height s + 1)"

lemma saturating_pred: "h \<noteq> 0 \<Longrightarrow> unat (saturating_sub h 1 :: u64) + 1 = unat h"
  using unat_gt_0 [of h] by (simp add: unat_saturating_sub)

lemma Suc_pred_u64:
  assumes "h \<noteq> (0 :: u64)" shows "saturating_sub h 1 + 1 = h"
proof -
  have "1 \<le> h" using assms by (simp add: word_le_nat_alt Suc_le_eq unat_gt_0)
  then show ?thesis by (simp add: saturating_sub_def)
qed

text \<open>Raising the counter after the entry of \<open>h\<close> was written.\<close>

lemma advance_contiguous:
  assumes c: "ih_min_height (header s) \<noteq> 0" and h: "ih_min_height (header s) \<le> h"
    and low: "saturating_sub (ih_min_height (header s)) 1 \<le> max_contiguous_height s"
    and pres: "\<And>k. ih_min_height (header s) \<le> k \<Longrightarrow> k \<le> max_contiguous_height s \<Longrightarrow> present s k"
    and gap: "present s (max_contiguous_height s + 1) \<Longrightarrow> h = max_contiguous_height s + 1"
    and ph: "present s h" and nf: "faults s = []"
  shows "contiguous_ok (advance_max_contiguous_height h s)"
    and "max_contiguous_height s \<le> max_contiguous_height (advance_max_contiguous_height h s)"
proof -
  have h0: "h \<noteq> 0" using c h by auto
  let ?t = "advance_max_contiguous_height h s"
  have st: "contig_only s ?t" by (rule advance_contig)
  note f = contig_only_fields [OF st]
  have p: "present ?t = present s" by (rule contig_only_present [OF st])
  show "contiguous_ok ?t" "max_contiguous_height s \<le> max_contiguous_height ?t"
  proof -
    have "contiguous_ok ?t \<and> max_contiguous_height s \<le> max_contiguous_height ?t"
    proof (cases "max_contiguous_height s = saturating_sub h 1")
      case False
      then have "?t = s" by (simp add: advance_max_contiguous_height_def Let_def)
      moreover have "\<not> present s (max_contiguous_height s + 1)"
      proof
        assume "present s (max_contiguous_height s + 1)"
        with gap have g: "h = max_contiguous_height s + 1" by blast
        then have "max_contiguous_height s \<noteq> u64_max" using h0 by auto
        then have "unat h = unat (max_contiguous_height s) + 1" using g unat_Suc_u64 by simp
        then have "unat (saturating_sub h 1) = unat (max_contiguous_height s)"
          by (simp add: unat_saturating_sub)
        then show False using False word_unat_eq_iff by metis
      qed
      ultimately show ?thesis using low pres by (simp add: contiguous_ok_def)
    next
      case True
      let ?u = "s\<lparr>max_contiguous_height := h\<rparr>"
      have t: "?t = cascade h ?u"
        using True Suc_pred_u64 [OF h0] by (simp add: advance_max_contiguous_height_def Let_def)
      have su: "contig_only s ?u" by (simp add: contig_only_def)
      have pu: "present ?u = present s" by (rule contig_only_present [OF su])
      have cf: "h \<le> max_contiguous_height ?t" "\<And>k. h < k \<Longrightarrow> k \<le> max_contiguous_height ?t \<Longrightarrow> present s k"
        "\<not> present s (max_contiguous_height ?t + 1)"
        using cascade_floor [of ?u h] c nf by (simp_all add: t pu)
      have "present s k" if "ih_min_height (header s) \<le> k" "k \<le> max_contiguous_height ?t" for k
      proof -
        consider "k = h" | "h < k" | "k < h" by fastforce
        then show ?thesis
        proof cases
          case 3
          then have "k \<le> max_contiguous_height s"
            using True saturating_pred [OF h0] by (simp add: word_le_nat_alt word_less_nat_alt)
          then show ?thesis using pres that(1) by blast
        qed (use ph cf(2) that(2) in auto)
      qed
      moreover have "max_contiguous_height s \<le> h"
        using True saturating_pred [OF h0] by (simp add: word_le_nat_alt)
      ultimately show ?thesis
        using cf(1,3) low f(2) p by (auto simp: contiguous_ok_def intro: order_trans)
    qed
    then show "contiguous_ok ?t" "max_contiguous_height s \<le> max_contiguous_height ?t" by simp_all
  qed
qed

section \<open>Writes keep it\<close>

lemma bookkeeping_present:
  assumes "bookkeeping s t" shows "present t = present s"
proof (rule present_cong)
  show "header t = header s" using assms by (simp add: bookkeeping_def same_blocks_def)
  show "entry_at t slot = entry_at s slot" if "index_entry_offset s h = Some slot" for h slot
    by (rule bookkeeping_entry_at [OF assms index_entry_offset_ge [OF that]])
qed

lemma checkpoint_counter: "checkpoint off s = (r, t) \<Longrightarrow> max_contiguous_height t = max_contiguous_height s"
proof -
  have "preserves (\<lambda>u. max_contiguous_height u = max_contiguous_height s) (checkpoint off)"
    unfolding checkpoint_def
    by (intro pres preserves_sync_all preserves_write_all_at) simp_all
  then show "checkpoint off s = (r, t) \<Longrightarrow> max_contiguous_height t = max_contiguous_height s"
    by (rule preservesD) simp
qed

lemma finish_write_contiguous:
  assumes f: "finish_write h off s = (Ok (), t)" and c: "ih_min_height (header s) \<noteq> 0" and h: "ih_min_height (header s) \<le> h"
    and low: "saturating_sub (ih_min_height (header s)) 1 \<le> max_contiguous_height s"
    and pres: "\<And>k. ih_min_height (header s) \<le> k \<Longrightarrow> k \<le> max_contiguous_height s \<Longrightarrow> present s k"
    and gap: "present s (max_contiguous_height s + 1) \<Longrightarrow> h = max_contiguous_height s + 1"
    and ph: "present s h" and nf: "faults s = []"
  shows "contiguous_ok t \<and> max_contiguous_height s \<le> max_contiguous_height t"
proof -
  let ?u = "advance_max_contiguous_height h s"
  note u = advance_contiguous [OF c h low pres gap ph nf]
  let ?v = "if height_highwater ?u < h then ?u\<lparr>height_highwater := h\<rparr> else ?u"
  have m: "maybe_checkpoint h (height_highwater ?u < h) off ?v = (Ok (), t)"
    using f by (simp add: finish_write_eq Let_def)
  have v: "present ?v = present ?u" "header ?v = header ?u" "max_contiguous_height ?v = max_contiguous_height ?u"
    by (auto intro!: present_cong simp: entry_at_def)
  from m have "present t = present ?v \<and> header t = header ?v \<and> max_contiguous_height t = max_contiguous_height ?v"
  proof (cases rule: maybe_checkpoint_cases)
    case taken
    note bk = checkpoint_bookkeeping(1) [OF taken]
    show ?thesis
      using bookkeeping_present [OF bk] checkpoint_counter [OF taken] bk
      by (simp add: bookkeeping_def same_blocks_def)
  qed simp
  then show ?thesis using u v by (simp add: contiguous_ok_def)
qed

text \<open>What the index says once the entry of \<open>h\<close> is in place.\<close>

lemma index_write_present:
  assumes slot: "index_entry_offset s h = Some slot" and dw: "data_written i local hb pb s u"
    and v: "v = log_write IndexFile (unat slot) (encode_entry e) (u\<lparr>faults := fs\<rparr>)"
    and e: "\<not> zero_entry e"
  shows "present v k \<longleftrightarrow> k = h \<or> present s k"
proof -
  have off: "index_entry_offset v = index_entry_offset s"
    by (rule index_entry_offset_header [OF index_step_header(3) [OF slot dw v]])
  show ?thesis
  proof (cases "index_entry_offset s k")
    case None
    then show ?thesis using slot off by (auto simp: present_def)
  next
    case (Some sl)
    from index_step [OF slot dw v bookkeeping_refl this] show ?thesis
      using Some off e by (simp add: present_def)
  qed
qed

lemma write_to_finish:
  assumes w: "write_block L h b s = (Ok (), t)" and inv: "fs_inv s"
    and nf: "faults s = []" and ne: "codecs_nonempty L"
  obtains new v where "finish_write h new v = (Ok (), t)" "header v = header s" "faults v = []"
    "max_contiguous_height v = max_contiguous_height s" "\<And>k. present v k \<longleftrightarrow> k = h \<or> present s k"
    "ih_min_height (header s) \<le> h"
proof -
  obtain payload len slot n off new i u fs and local :: u64 where
    q: "write_request L s h b payload len slot n" and
    dw: "data_written i (unat local) (serialize (block_header_of L h b len)) payload
       (s\<lparr>data_highwater := new\<rparr>) u" and
    fw: "finish_write h new (log_write IndexFile (unat slot)
       (encode_entry \<lparr>ie_offset = off, ie_size = len, ie_reserved = 0\<rparr>) (u\<lparr>faults := fs\<rparr>)) = (Ok (), t)" and
    fs: "faults s = [] \<Longrightarrow> fs = []"
    using w inv by (rule write_Ok_commit) blast
  let ?s = "s\<lparr>data_highwater := new\<rparr>" and ?e = "\<lparr>ie_offset = off, ie_size = len, ie_reserved = 0\<rparr>"
  define v where "v = log_write IndexFile (unat slot) (encode_entry ?e) (u\<lparr>faults := fs\<rparr>)"
  have slot: "index_entry_offset ?s h = Some slot"
    using q index_entry_offset_header [of ?s s] by (simp add: write_request_def)
  have "payload \<noteq> []" using q compress_nonempty [OF ne] by (auto simp: write_request_def)
  then have e: "\<not> zero_entry ?e" using q by (auto simp: write_request_def zero_entry_def)
  have ps: "present ?s = present s" by (rule present_cong) simp_all
  show ?thesis
  proof (rule that [OF fw [folded v_def]])
    show "present v k \<longleftrightarrow> k = h \<or> present s k" for k
      using index_write_present [OF slot dw v_def e] ps by simp
    show "header v = header s" using index_step_header(3) [OF slot dw v_def] by simp
    show "max_contiguous_height v = max_contiguous_height s" "faults v = []"
      using dw store_fields [of u ?s] fs [OF nf] by (simp_all add: v_def data_written_def)
    show "ih_min_height (header s) \<le> h" using slot by (simp add: index_entry_offset_Some word_le_nat_alt)
  qed
qed

lemma finish_write_present:
  assumes "finish_write h off s = (r, t)"
  shows "present t = present s" "header t = header s" "faults s = [] \<Longrightarrow> faults t = []"
proof -
  have b: "bookkeeping s t" by (rule finish_write_bookkeeping(1) [OF assms])
  show "present t = present s" by (rule bookkeeping_present [OF b])
  show "header t = header s" "faults s = [] \<Longrightarrow> faults t = []"
    using b by (simp_all add: bookkeeping_def same_blocks_def)
qed

lemma write_present:
  assumes "write_block L h b s = (Ok (), t)" and "fs_inv s" and "faults s = []" and "codecs_nonempty L"
  shows "present t k \<longleftrightarrow> k = h \<or> present s k" and "faults t = []" and "header t = header s"
proof -
  obtain new v where v: "finish_write h new v = (Ok (), t)" "header v = header s" "faults v = []"
    "\<And>k. present v k \<longleftrightarrow> k = h \<or> present s k"
    by (rule write_to_finish [OF assms]) blast
  then show "present t k \<longleftrightarrow> k = h \<or> present s k" "faults t = []" "header t = header s"
    using finish_write_present [OF v(1)] by simp_all
qed

lemma write_contiguous:
  assumes w: "write_block L h b s = (Ok (), t)" and inv: "fs_inv s" and nf: "faults s = []"
    and ne: "codecs_nonempty L" and c: "ih_min_height (header s) \<noteq> 0" and ok: "contiguous_ok s"
  shows "contiguous_ok t"
proof -
  obtain new v where v: "finish_write h new v = (Ok (), t)" "header v = header s" "faults v = []"
    "max_contiguous_height v = max_contiguous_height s" "\<And>k. present v k \<longleftrightarrow> k = h \<or> present s k"
    "ih_min_height (header s) \<le> h"
    by (rule write_to_finish [OF w inv nf ne]) blast
  have "contiguous_ok t \<and> max_contiguous_height v \<le> max_contiguous_height t"
    using ok c v(2,4-6) by (intro finish_write_contiguous [OF v(1)])
      (auto simp: contiguous_ok_def v(3))
  then show ?thesis ..
qed

text \<open>A run of writes that all succeed.\<close>

lemma write_seq_contiguous:
  assumes "write_seq (write_block L) ps s = (Ok (), t)" and "fs_inv s" and "faults s = []"
    and "codecs_nonempty L" and "ih_min_height (header s) \<noteq> 0" and "contiguous_ok s"
  shows "contiguous_ok t \<and> header t = header s \<and> (\<forall>k. present t k \<longleftrightarrow> k \<in> fst ` set ps \<or> present s k)"
  using assms
proof (induction ps arbitrary: s)
  case Nil
  then show ?case by (simp add: io_simps)
next
  case (Cons p ps)
  from Cons.prems(1) obtain u where u: "write_block L (fst p) (snd p) s = (Ok (), u)"
    "write_seq (write_block L) ps u = (Ok (), t)" by (auto elim!: io_bind_OkE)
  note w = write_present [OF u(1) Cons.prems(2-4)]
  have "contiguous_ok u" by (rule write_contiguous [OF u(1) Cons.prems(2-6)])
  then show ?case
    using Cons.IH [OF u(2) write_block_fs_inv(1) [OF u(1) Cons.prems(2)] w(2) Cons.prems(4)] Cons.prems(5)
      w(1,3) by auto
qed

text \<open>What the last stages do to the counter, and a cascade that finds nothing.\<close>

lemma cascade_stops:
  assumes "\<not> present s (cur + 1)"
  shows "max_contiguous_height (cascade cur s) = max_contiguous_height s"
proof -
  obtain r t where rd: "read_index_entry (cur + 1) s = (r, t)" by fastforce
  have "cascade cur s = t"
    using rd read_index_entry_present [OF rd] assms
    by (subst cascade.simps) (auto split: res.splits option.splits)
  moreover have "max_contiguous_height t = max_contiguous_height s"
    using rd by (cases rule: read_index_entry_cases) simp_all
  ultimately show ?thesis by simp
qed

lemma finish_write_counter:
  assumes f: "finish_write h off s = (Ok (), t)"
  shows "max_contiguous_height t = max_contiguous_height (advance_max_contiguous_height h s)"
proof -
  let ?u = "advance_max_contiguous_height h s"
  let ?v = "if height_highwater ?u < h then ?u\<lparr>height_highwater := h\<rparr> else ?u"
  have "maybe_checkpoint h (height_highwater ?u < h) off ?v = (Ok (), t)"
    using f by (simp add: finish_write_eq Let_def)
  then have "max_contiguous_height t = max_contiguous_height ?v"
  proof (cases rule: maybe_checkpoint_cases)
    case taken
    then show ?thesis by (rule checkpoint_counter)
  qed simp
  then show ?thesis by (simp split: if_splits)
qed

lemma absent_contents:
  assumes "\<not> present s h" shows "contents L s h = None"
proof (cases "index_entry_offset s h")
  case (Some slot)
  then have "ie_size (entry_at s slot) = 0" using assms by (simp add: present_def zero_entry_def)
  then show ?thesis using Some by (simp add: contents_def peek_def Let_def)
qed (simp add: contents_def peek_def)

section \<open>Claims\<close>

lemma fresh_contiguous:
  assumes "calm w"
  shows "opt_minimum_height opts \<noteq> 0 \<Longrightarrow> contiguous_ok (fresh_store opts w)"
    and "\<not> present (fresh_store opts w) k"
proof -
  show np: "\<not> present (fresh_store opts w) k" for k
    using fresh_entry [OF assms(1) index_entry_offset_ge [of "fresh_store opts w" k]]
    by (simp add: present_def zero_entry_def default_entry_def split: option.split)
  assume m: "opt_minimum_height opts \<noteq> 0"
  have "\<not> (opt_minimum_height opts \<le> k \<and> k \<le> saturating_sub (opt_minimum_height opts) 1)" for k
    using saturating_pred [OF m] by (simp add: word_le_nat_alt)
  then show "contiguous_ok (fresh_store opts w)" using np by (auto simp: contiguous_ok_def)
qed

text \<open>
  C18: the contiguity counter is exact. In a store created with a minimum height of at least 1,
  after any run of successful writes in any order of heights, every height from the minimum up to
  the counter was written and the next one was not.
\<close>

theorem contiguity_counter_exact:
  assumes "calm w" and "truncates opts" and "opt_minimum_height opts \<noteq> 0" and "codecs_nonempty L"
    and "open_store L opts w = Opened s0" and "write_seq (write_block L) ps s0 = (Ok (), s)"
  shows "saturating_sub (opt_minimum_height opts) 1 \<le> max_contiguous_height s \<and>
    (\<forall>k. opt_minimum_height opts \<le> k \<and> k \<le> max_contiguous_height s \<longrightarrow> k \<in> fst ` set ps) \<and>
    max_contiguous_height s + 1 \<notin> fst ` set ps"
proof -
  have s0: "s0 = fresh_store opts w" using open_fresh [OF assms(1,2), of L] assms(5) by simp
  have a: "fs_inv s0" "faults s0 = []" using fresh_alive(1) [OF assms(1)] by (simp_all add: s0 alive_def)
  note f = fresh_contiguous(1) [OF assms(1,3)] fresh_contiguous(2) [OF assms(1)]
  from write_seq_contiguous [OF assms(6) a assms(4)] show ?thesis
    using f assms(3) unfolding s0 contiguous_ok_def by auto
qed

definition scattered_blocks :: "(u64 \<times> bytes) list" where
  "scattered_blocks = [(6, [1]), (8, [2, 3]), (5, [4])]"

theorem contiguity_counter_exact_witness:
  "\<exists>s. write_seq (write_block plain_libs) scattered_blocks (fresh_store created_options old_dir) = (Ok (), s) \<and>
     max_contiguous_height s = 6 \<and> 6 \<in> fst ` set scattered_blocks \<and> 7 \<notin> fst ` set scattered_blocks"
proof -
  let ?run = "write_seq (write_block plain_libs) scattered_blocks (fresh_store created_options old_dir)"
  have "fst ?run = Ok ()" "max_contiguous_height (snd ?run) = 6" by code_simp+
  then obtain s where s: "?run = (Ok (), s)" "max_contiguous_height s = 6" by (cases ?run) simp
  have "opt_minimum_height created_options \<noteq> 0" "opt_minimum_height created_options \<le> 6"
    by (simp_all add: created_options_def)
  from contiguity_counter_exact [OF old_dir_calm created_options_ok(1) this(1) plain_libs_ok(3)
      open_fresh [OF old_dir_calm created_options_ok(1)] s(1)] this(2)
  show ?thesis using s by auto
qed

text \<open>
  The limit of the counter: with a minimum height of 0 it is wrong: after a first write of height 1 it says 1
  although height 0 was never written and cannot be read.
\<close>

theorem contiguity_counter_from_zero:
  assumes "calm w" and "truncates opts" and "opt_minimum_height opts = 0" and "codecs_nonempty L"
    and "open_store L opts w = Opened s0" and "write_block L 1 b s0 = (Ok (), s)"
  shows "max_contiguous_height s = 1 \<and> contents L s 0 = None"
proof -
  have s0: "s0 = fresh_store opts w" using open_fresh [OF assms(1,2), of L] assms(5) by simp
  have a: "fs_inv s0" "faults s0 = []" using fresh_alive(1) [OF assms(1)] by (simp_all add: s0 alive_def)
  obtain new v where v: "finish_write 1 new v = (Ok (), s)" "header v = header s0" "faults v = []"
    "max_contiguous_height v = max_contiguous_height s0" "\<And>k. present v k \<longleftrightarrow> k = 1 \<or> present s0 k"
    by (rule write_to_finish [OF assms(6) a assms(4)]) blast
  have np: "\<not> present v 2" "\<not> present v 0"
    using v(5) fresh_contiguous(2) [OF assms(1)] by (simp_all add: s0)
  let ?u = "v\<lparr>max_contiguous_height := 1\<rparr>"
  have m: "max_contiguous_height v = saturating_sub 1 1"
    using v(4) assms(3) by (simp add: s0 saturating_sub_def)
  have "present ?u = present v" by (rule contig_only_present) (simp add: contig_only_def)
  then have "max_contiguous_height (cascade 1 ?u) = 1"
    using cascade_stops [of ?u 1] np(1) by simp
  then have "max_contiguous_height s = 1"
    using finish_write_counter [OF v(1)] m
    by (simp add: advance_max_contiguous_height_def Let_def saturating_sub_def)
  moreover have "\<not> present s 0" using finish_write_present(1) [OF v(1)] np by simp
  then have "contents L s 0 = None" by (rule absent_contents)
  ultimately show ?thesis ..
qed

theorem contiguity_counter_from_zero_witness:
  "max_contiguous_height (snd (write_block plain_libs 1 [9]
       (fresh_store (default_options\<lparr>opt_truncate := True, opt_minimum_height := 0\<rparr>) old_dir))) = 1"
proof -
  let ?o = "default_options\<lparr>opt_truncate := True, opt_minimum_height := 0\<rparr>"
  let ?run = "write_block plain_libs 1 [9] (fresh_store ?o old_dir)"
  have o: "truncates ?o" "opt_minimum_height ?o = 0"
    by (simp_all add: truncates_def default_options_def DEFAULT_MAX_DATA_FILES_def)
  have "fst ?run = Ok ()" by code_simp
  then have "?run = (Ok (), snd ?run)" by (metis prod.collapse)
  from contiguity_counter_from_zero [OF old_dir_calm o plain_libs_ok(3) open_fresh [OF old_dir_calm o(1)] this]
  show ?thesis ..
qed

end
