(* ===== verification/Guarantees.thy ===== *)
theory Guarantees
  imports Reopen
begin

text \<open>
  Guarantees of single routines: the formats and the file names are unambiguous, offsets split
  without loss up to the saturation of the file index, the recovery loop advances, the window of
  the scan is never stale, the contiguity scan finds the floor, a gap among the data files is
  reported.
\<close>

section \<open>Formats and names\<close>

text \<open>
  C38: the on-disk formats are unambiguous: headers, index entries and block headers read back as
  written, and every byte string of the right length is the image of what it decodes to.
\<close>

theorem formats_round_trip:
  "decode_header (encode_header hdr) = hdr \<and> decode_entry (encode_entry ent) = ent \<and>
   deserialize (serialize bh) s = (Ok bh, s) \<and>
   (length b = header_size \<longrightarrow> encode_header (decode_header b) = b) \<and>
   (length b = entry_size \<longrightarrow> encode_entry (decode_entry b) = b) \<and>
   (deserialize b s = (Ok bh', t) \<longrightarrow> serialize bh' = b)"
  using serialize_deserialize by (auto simp: header_size_def entry_size_def encode_decode_header encode_decode_entry)

theorem formats_round_trip_witness:
  "encode_entry (decode_entry [1, 0, 0, 0, 0, 0, 0, 0, 3, 0, 0, 0, 9, 9, 9, 9]) =
     [1, 0, 0, 0, 0, 0, 0, 0, 3, 0, 0, 0, 9, 9, 9, 9]"
  using formats_round_trip [THEN conjunct2, THEN conjunct2, THEN conjunct2, THEN conjunct2, THEN conjunct1,
      of "[1, 0, 0, 0, 0, 0, 0, 0, 3, 0, 0, 0, 9, 9, 9, 9]"] by (simp add: entry_size_def)

text \<open>
  C39: the name of a data file determines its index and is never the name of the index file; but
  a name that parses to an index need not be the name of that index.
\<close>

theorem data_file_names_round_trip:
  "parse_data_file_index (data_file_name i) = Some i \<and>
   (data_file_name i = data_file_name j \<longleftrightarrow> i = j) \<and> data_file_name i \<noteq> INDEX_FILE_NAME \<and>
   (\<exists>n. parse_data_file_index n = Some 7 \<and> n \<noteq> data_file_name 7)"
proof -
  have "data_file_name i \<noteq> INDEX_FILE_NAME"
    using index_name_is_not_a_data_file parse_data_file_name [of i] by (metis option.distinct(1))
  moreover have "parse_data_file_index ''blockdb_007.dat'' = Some 7" "''blockdb_007.dat'' \<noteq> data_file_name 7"
    by code_simp+
  ultimately show ?thesis by auto
qed

section \<open>Offsets\<close>

text \<open>
  Splitting an offset loses nothing as long as the file index fits in 32 bits: file index and
  local offset are the quotient and the remainder by the file size; beyond that the index saturates,
  so that offsets of different files share one name.
\<close>

theorem split_offset_bounds:
  assumes "split_offset (Some cap) off = (i, local)" and "cap \<noteq> 0"
  shows "local < cap \<and> unat local = unat off mod unat cap \<and>
    (if unat off div unat cap < 2 ^ 32 then unat off = unat i * unat cap + unat local else i = u32_max)"
proof -
  have l: "local = off mod cap" using assms(1) by (simp add: split_offset_def Let_def)
  have c: "0 < unat cap" using assms(2) by (simp add: unat_gt_0)
  have "unat local = unat off mod unat cap" using l by (simp add: unat_mod_distrib)
  moreover from this have "local < cap" using c by (simp add: word_less_nat_alt)
  moreover have "unat off = unat i * unat cap + unat local" if "unat off div unat cap < 2 ^ 32"
    using unat_split_offset [OF assms(1) that] by simp
  moreover have "i = u32_max" if "\<not> unat off div unat cap < 2 ^ 32"
  proof -
    have "u32_of_u64 (off div cap) = None" using that by (simp add: u32_of_u64_None unat_div_distrib)
    then show ?thesis using assms(1) by (simp add: split_offset_def Let_def)
  qed
  ultimately show ?thesis by simp
qed

theorem split_offset_bounds_witness:
  "split_offset (Some 100) 1234 = (12, 34) \<and> unat (1234 :: u64) = unat (12 :: u32) * unat (100 :: u64) + 34"
proof -
  have "split_offset (Some 100) 1234 = (12, 34)" by code_simp
  from split_offset_bounds [OF this] show ?thesis using \<open>split_offset (Some 100) 1234 = (12, 34)\<close> by simp
qed

section \<open>Recovery\<close>

text \<open>
  C26: the recovery loop ends: a turn that asks for another one has raised the offset it works from,
  and a turn at or past the end asks for none.
\<close>

theorem recovery_advances:
  assumes "recover_step L e files l w s = (Ok (Some x), t)"
  shows "ih_next_write_offset (header s) < ih_next_write_offset (header t) \<and>
    ih_next_write_offset (header s) < e \<and> scan_left t < scan_left s"
proof -
  have "ih_next_write_offset (header s) < e"
  proof (rule ccontr)
    assume "\<not> ?thesis"
    then have "e \<le> ih_next_write_offset (header s)" by simp
    then show False using assms by (simp add: recover_step_def io_simps)
  qed
  then show ?thesis using recover_step_progress [OF assms] scan_left_decreases [OF assms] by simp
qed

text \<open>A turn that skips the unusable tail of a file.\<close>

definition small_window :: scan_window where
  "small_window = \<lparr>sw_file_idx = None, sw_start = 0, sw_len = 0, sw_buf = []\<rparr>"

theorem recovery_advances_witness:
  "\<exists>x t. recover_step plain_libs 130 (RBT.insert 0 10 RBT.empty) 0 small_window (empty_store (Some 100) 5 Async 4) =
       (Ok (Some x), t) \<and>
     0 < ih_next_write_offset (header t)"
proof -
  let ?s = "empty_store (Some 100) 5 Async 4"
  let ?files = "RBT.insert 0 10 RBT.empty :: (u32, u64) RBT.rbt"
  have "split_offset (Some 100) 0 = (0, 0)" by code_simp
  moreover have "advance_to_next_file 0 100 ?s = (Ok 100, ?s)"
    by (simp add: advance_to_next_file_def checked_add_def checked_mul_def ok_or_def io_simps io_bind_def)
  moreover have "ih_next_write_offset (header ?s) = 0" "fs_max_data_file_size ?s = Some 100"
    by code_simp+
  ultimately have "recover_step plain_libs 130 ?files 0 small_window ?s =
      (Ok (Some (0, small_window)), set_next_write_offset 100 ?s)"
    by (simp add: recover_step_def io_simps io_bind_def Let_def saturating_add_def SERIALIZED_SIZE_def u64_of_len_def)
  from recovery_advances [OF this] this show ?thesis
    using \<open>ih_next_write_offset (header ?s) = 0\<close> by auto
qed

text \<open>
  C27: the read-ahead window is never stale: whatever system calls fail, a read through it that
  returns \<open>Ok\<close> returns the bytes the file has at that offset, and leaves the window in step with it.
\<close>

theorem window_never_stale:
  assumes "window_ok s w" and "len \<le> 2 ^ 32"
    and "window_read w (path_for i) i local len fsize s = (Ok (bs, w'), t)"
  shows "bs = pread (bytes_of s (path_for i)) (unat local) len \<and> length bs \<le> len \<and> window_ok t w'"
proof -
  from window_read_Ok(3) [OF assms] obtain fs where "t = s\<lparr>faults := fs\<rparr>" by blast
  then have "window_ok t w' = window_ok s w'" by (intro window_ok_cong) simp
  then show ?thesis using window_read_Ok(1,2) [OF assms] by simp
qed

theorem window_never_stale_witness:
  "\<exists>bs w' t. window_read small_window (path_for 0) 0 22 3 25 one_block_store = (Ok (bs, w'), t) \<and>
     bs = [1, 2, 3] \<and> window_ok t w'"
proof -
  let ?rd = "window_read small_window (path_for 0) 0 22 3 25 one_block_store"
  have "case fst ?rd of Ok p \<Rightarrow> True | _ \<Rightarrow> False" by code_simp
  then obtain bs w' t where r: "?rd = (Ok (bs, w'), t)" by (cases ?rd) (auto split: res.splits)
  have w: "window_ok one_block_store small_window" by (simp add: window_ok_def small_window_def)
  have "pread (bytes_of one_block_store (path_for 0)) (unat (22 :: u64)) 3 = [1, 2, 3]" by code_simp
  then show ?thesis using window_never_stale [OF w _ r] r by auto
qed

text \<open>
  C23: on an index of whole entries the scan finds, whatever it resumes from, the greatest height up
  to the high-water mark such that no height from the resume point on is missing, and changes
  nothing.
\<close>

theorem contiguity_scan_correct:
  assumes "faults s = []" and "whole_entries s" and "unat (height_highwater s) < 2 ^ 59"
  shows "\<exists>f. scan_contiguous_floor resume s = (Ok f, s) \<and>
    (if height_highwater s < ih_min_height (header s)
     then f = saturating_sub (ih_min_height (header s)) 1
     else resume_point s resume \<le> f \<and> f \<le> height_highwater s \<and>
       (\<forall>k. resume_point s resume < k \<and> k \<le> f \<longrightarrow> present s k) \<and>
       (f = height_highwater s \<or> \<not> present s (f + 1)))"
proof -
  obtain f where "scan_contiguous_floor resume s = (Ok f, s)"
    "if height_highwater s < ih_min_height (header s)
     then f = saturating_sub (ih_min_height (header s)) 1
     else floor_spec s (resume_point s resume) (height_highwater s) f"
    by (rule scan_contiguous_floor_correct [OF assms])
  then show ?thesis unfolding floor_spec_def by (intro exI [of _ f] conjI)
qed

theorem contiguity_scan_correct_witness:
  "\<exists>f. scan_contiguous_floor 0 one_block_store = (Ok f, one_block_store) \<and> f \<le> 7 \<and>
     (f = 7 \<or> \<not> present one_block_store (f + 1))"
proof -
  have "faults one_block_store = []" using one_block_store_ok(1) by (simp add: ready_def)
  moreover have "whole_entries one_block_store" by code_simp
  moreover have h: "height_highwater one_block_store = 7" "ih_min_height (header one_block_store) = 5"
    by code_simp+
  ultimately show ?thesis using contiguity_scan_correct [of one_block_store 0] by auto
qed

text \<open>
  Recovery refuses a directory with a gap: when a data file is there and one of a smaller index
  is not, the layout check fails, naming the first missing index, and changes nothing.
\<close>

theorem gap_is_refused:
  assumes "RBT.lookup files k = Some v" and "j < k" and "RBT.lookup files j = None"
  shows "\<exists>i. i \<le> unat j \<and> RBT.lookup files (of_nat i) = None \<and>
    validate_layout cap files s =
      (Err (Error InvalidData (''data file at index '' @ dec i @ '' is missing'')), s)"
proof -
  note m = validate_layout_max [OF assms(1)]
  let ?is = "[0..<Suc (unat (last (RBT.keys files)))]"
  let ?P = "\<lambda>i. RBT.lookup files (of_nat i) = None"
  have le: "unat j < unat (last (RBT.keys files))" using assms(2) m(1) by (simp add: word_less_nat_alt word_le_nat_alt)
  have "find ?P ?is \<noteq> None" using le assms(3) by (auto simp: find_None_iff)
  then obtain i where i: "find ?P ?is = Some i" by blast
  then obtain n where n: "n < length ?is" "i = ?is ! n" "?P i" "\<forall>q < n. \<not> ?P (?is ! q)"
    by (auto simp: find_Some_iff)
  then have "i = n" by (simp add: nth_append split: if_splits)
  have "i \<le> unat j"
  proof (rule ccontr)
    assume "\<not> ?thesis"
    then have "unat j < n" using \<open>i = n\<close> by simp
    then have "\<not> ?P (?is ! unat j)" using n(4) by blast
    then show False using le assms(3) by (simp add: nth_append)
  qed
  then show ?thesis
    using i n(3) m(2) by (auto simp: validate_layout_def fail_def Let_def)
qed

theorem gap_is_refused_witness:
  "\<exists>i \<le> 1. validate_layout None (RBT.insert 2 5 (RBT.insert 0 9 RBT.empty)) (0 :: nat) =
      (Err (Error InvalidData (''data file at index '' @ dec i @ '' is missing'')), 0)"
proof -
  let ?f = "RBT.insert 2 5 (RBT.insert 0 9 RBT.empty) :: (u32, u64) RBT.rbt"
  have "RBT.lookup ?f 2 = Some 5" "RBT.lookup ?f 1 = None" by simp_all
  from gap_is_refused [OF this(1) _ this(2), of None "0 :: nat"] show ?thesis by auto
qed



end
