(* ===== verification/Resilience.thy ===== *)
theory Resilience
  imports Reopen
begin

text \<open>
  What survives failing system calls: every operation keeps the invariant of the open files and
  locks under any script of faults, a write that failed can be made again, the errors a write
  reports before it touches anything, and what a reader makes of a block over its limit.
\<close>

section \<open>The invariant under faults\<close>

text \<open>A running store, whatever the fault script still holds.\<close>

definition tidy :: "'z store_scheme \<Rightarrow> bool" where
  "tidy s \<longleftrightarrow>
     fs_inv s \<and> own_locks s \<and> (\<forall>n. (IndexFile, n) \<in> set (locks s) \<longrightarrow> n = fd (index_file s)) \<and>
     (\<forall>i. \<not> is_dir s (path_for i))"

lemma tidy_ready: "tidy s \<Longrightarrow> faults s = [] \<Longrightarrow> ready s"
  by (simp add: ready_def tidy_def)

lemma tidy_alive: "faults s = [] \<Longrightarrow> tidy s \<longleftrightarrow> alive s \<and> (\<forall>i. \<not> is_dir s (path_for i))"
  by (auto simp: alive_def tidy_def)

lemma tidy_cong:
  "fs_inner t = fs_inner s \<Longrightarrow> locks t = locks s \<Longrightarrow> next_fd t = next_fd s \<Longrightarrow>
     fs_max_data_file_size t = fs_max_data_file_size s \<Longrightarrow> index_file t = index_file s \<Longrightarrow>
     (\<And>i. is_dir t (path_for i) = is_dir s (path_for i)) \<Longrightarrow> tidy t = tidy s"
  by (simp add: tidy_def cong: fs_inv_cong own_locks_cong)

lemma tidy_updates [simp]:
  "tidy (s\<lparr>data_highwater := x\<rparr>) = tidy s" "tidy (s\<lparr>height_highwater := x\<rparr>) = tidy s"
  "tidy (s\<lparr>max_contiguous_height := x\<rparr>) = tidy s" "tidy (s\<lparr>last_checkpoint_offset := x\<rparr>) = tidy s"
  "tidy (s\<lparr>faults := fs\<rparr>) = tidy s" "tidy (s\<lparr>io_log := l\<rparr>) = tidy s"
  by (rule tidy_cong; simp add: is_dir_def split: file_id.split)+

text \<open>A write turns no name into a directory.\<close>

lemma is_dir_log_write_path:
  "\<not> is_dir s (path_for i) \<Longrightarrow> \<not> is_dir (log_write f off bs s) (path_for i)"
  by (simp add: log_write_def is_dir_put)

lemma tidy_log_write: "tidy s \<Longrightarrow> tidy (log_write f off bs s)"
  by (simp add: tidy_def is_dir_log_write_path cong: fs_inv_cong own_locks_cong)

lemma tidy_get_or_open:
  assumes "get_or_open i s = (r, t)" and "tidy s" shows "tidy t"
proof -
  have st: "same_files s t" by (rule get_or_open_same_files [OF assms(1)])
  then have "index_file t = index_file s" by (intro index_file_more) (simp add: same_files_def)
  then show ?thesis
    using get_or_open_fs_inv [OF assms(1)] get_or_open_own_locks [OF assms(1)]
      get_or_open_index_locks [OF assms(1)] st assms(2) by (auto simp: tidy_def same_files_def)
qed

lemma preserves_tidy_calls [pres]:
  "preserves tidy (read_at f n off)" "preserves tidy (write_all_at f bs off)"
  "preserves tidy (sync_all f)" "preserves tidy (fs_resolve off)"
proof -
  show "preserves tidy (read_at f n off)"
  proof (rule preservesI)
    fix s :: "'z store_scheme" assume s: "tidy s"
    obtain r t where t: "read_at f n off s = (r, t)" by fastforce
    then obtain fs where "t = s\<lparr>faults := fs\<rparr>" using read_at_state by blast
    then show "tidy (snd (read_at f n off s))" using s t by simp
  qed
  show "preserves tidy (write_all_at f bs off)" "preserves tidy (sync_all f)"
    by (intro preserves_write_all_at preserves_sync_all; simp add: tidy_log_write)+
  show "preserves tidy (fs_resolve off)"
  proof (rule preservesI)
    fix s :: "'z store_scheme" assume s: "tidy s"
    obtain i l where sp: "split_offset (fs_max_data_file_size s) off = (i, l)" by fastforce
    obtain r u where g: "get_or_open i s = (r, u)" by fastforce
    then have "tidy u" using s by (rule tidy_get_or_open)
    then show "tidy (snd (fs_resolve off s))"
      using sp g by (cases r) (simp_all add: fs_resolve_eq io_bind_def io_simps)
  qed
qed

lemma tidy_contig: "contig_only s t \<Longrightarrow> tidy s \<Longrightarrow> tidy t"
  unfolding contig_only_def by (metis tidy_updates(3,5))

lemma preserves_tidy_steps [pres]:
  "preserves tidy (update_highwater h)" "preserves tidy (modify (advance_max_contiguous_height h))"
  by (auto simp: preserves_def update_highwater_def io_simps intro: tidy_contig [OF advance_contig])

lemma preserves_tidy_checkpoint [pres]: "preserves tidy (checkpoint off)"
  unfolding checkpoint_def by (intro pres) auto

lemma preserves_tidy_write: "preserves tidy (write_block L h block)"
  unfolding write_block_def reserve_space_def write_data_def update_index_at_def maybe_checkpoint_def
    advance_to_next_file_def Let_def
  by (intro pres) (auto simp: release_reservation_def)

lemma preserves_tidy_read: "preserves tidy (read_block L h)"
  unfolding read_block_def read_index_entry_def deserialize_def read_exact_at_def
  by (intro pres)

text \<open>
  C22: every operation on an open store keeps its invariant, whatever it returns and whichever
  system calls fail: the cache of handles is well formed and within its capacity, every cached
  handle is open on the file of its index and holds that file's lock, no lock is held otherwise but
  the one of the index, through its own descriptor, and no file name has become a directory.
\<close>

theorem operations_keep_invariant:
  assumes "tidy s"
  shows "tidy (snd (write_block L h b s)) \<and> tidy (snd (read_block L h s)) \<and>
    tidy (snd (checkpoint off s)) \<and> tidy (snd (reserve_space n s))"
proof -
  have "preserves tidy (reserve_space n)"
    unfolding reserve_space_def advance_to_next_file_def Let_def by (intro pres) auto
  then show ?thesis
    using assms preserves_tidy_write [of L h b] preserves_tidy_read [of L h] preserves_tidy_checkpoint [of off]
    unfolding preserves_def by blast
qed

lemma one_block_store_tidy [simp]: "tidy one_block_store"
proof -
  have "alive one_block_store"
    unfolding one_block_store_def
    by (rule preservesD [OF preserves_alive_write empty_store_alive prod.collapse [symmetric]]) simp
  then show ?thesis
    using one_block_store_ok(1) tidy_alive [of one_block_store] by (simp add: ready_def)
qed

theorem operations_keep_invariant_witness:
  "tidy (snd (write_block plain_libs 9 [4] (one_block_store\<lparr>faults := [Fault (Error (OtherKind 28) ''disk full'') 0]\<rparr>)))"
  using operations_keep_invariant [of "one_block_store\<lparr>faults := [Fault (Error (OtherKind 28) ''disk full'') 0]\<rparr>"]
    by simp

section \<open>A failed write can be made again\<close>

lemma write_request_header:
  "header t = header s \<Longrightarrow> write_request L t h b payload len slot n = write_request L s h b payload len slot n"
  by (simp add: write_request_def index_entry_offset_def)

text \<open>
  C21: failing writes do not wedge the store: after a write that failed at any system call, once
  the calls work again and there is room, the same write returns \<open>Ok\<close> and the block is read back.
\<close>

theorem failed_write_is_retried:
  assumes "tidy s" and "acceptable L s b" and "write_request L s h b payload len slot n"
    and "write_block L h b s = (Err e, t)" and "room t (unat n)"
  shows "\<exists>u. write_block L h b (t\<lparr>faults := []\<rparr>) = (Ok (), u) \<and> ready u \<and>
    fst (read_block L h u) = Ok (Some b)"
proof -
  let ?t = "t\<lparr>faults := []\<rparr>"
  have inv: "fs_inv s" using assms(1) by (simp add: tidy_def)
  note k = write_block_fs_inv [OF assms(4) inv]
  have "tidy t" by (rule preservesD [OF preserves_tidy_write assms(1,4)])
  then have r: "ready ?t" by (intro tidy_ready) simp_all
  have "write_request L ?t h b payload len slot n"
    using assms(3) k(2) write_request_header [of ?t s] by simp
  moreover have "room ?t (unat n)" using assms(5) by (simp add: room_def split: option.splits)
  ultimately obtain u where u: "write_block L h b ?t = (Ok (), u)" "ready u"
    by (rule write_block_ready [OF r])
  have ad: "addressable ?t" using assms(5) by (simp add: room_def addressable_def split: option.splits)
  have "peek L u h = Ok (Some b)"
    using assms(2) r ad by (intro write_Ok_peek [OF u(1)]) (simp_all add: ready_def acceptable_def)
  moreover obtain v where "read_block L h u = (peek L u h, v)" using u(2) by (rule read_block_ready)
  ultimately show ?thesis using u by simp
qed

theorem failed_write_is_retried_witness:
  "\<exists>t u. write_block plain_libs 9 [4]
        (one_block_store\<lparr>faults := [NoFault, Fault (Error (OtherKind 28) ''disk full'') 1]\<rparr>) =
        (Err (Error (OtherKind 28) ''disk full''), t) \<and>
      write_block plain_libs 9 [4] (t\<lparr>faults := []\<rparr>) = (Ok (), u) \<and>
      fst (read_block plain_libs 9 u) = Ok (Some [4])"
proof -
  let ?s = "one_block_store\<lparr>faults := [NoFault, Fault (Error (OtherKind 28) ''disk full'') 1]\<rparr>"
  let ?w = "write_block plain_libs 9 [4] ?s"
  have "fst ?w = Err (Error (OtherKind 28) ''disk full'')" by code_simp
  then have w: "?w = (Err (Error (OtherKind 28) ''disk full''), snd ?w)" by (metis prod.collapse)
  have "fs_max_data_file_size (snd ?w) = None" "unat (data_highwater (snd ?w)) < 1000" by code_simp+
  then have rm: "room (snd ?w) (unat (23 :: u64))" by (simp add: room_def)
  have t: "tidy ?s" by simp
  have "ih_min_height (header one_block_store) = 5" by code_simp
  then have q: "write_request plain_libs ?s 9 [4] [4] 1 128 23"
    by (simp add: write_request_def index_entry_offset_Some)
  have "addressable ?s" using one_block_store_ok(3) by (simp add: addressable_def split: option.splits)
  then have "acceptable plain_libs ?s [4]" by (simp add: acceptable_def)
  from failed_write_is_retried [OF t this q w rm] show ?thesis using w by blast
qed

section \<open>Refusals\<close>

lemma unat_of_nat_u64: "n < 2 ^ 64 \<Longrightarrow> unat (of_nat n :: u64) = n"
  by (simp add: unat_of_nat take_bit_nat_eq_self)

lemma index_entry_offset_None:
  "index_entry_offset s h = None \<longleftrightarrow>
     h < ih_min_height (header s) \<or> 2 ^ 64 \<le> (unat h - unat (ih_min_height (header s))) * 16 + 64"
proof -
  have "index_entry_offset s h \<noteq> None \<longleftrightarrow>
      unat (ih_min_height (header s)) \<le> unat h \<and> (unat h - unat (ih_min_height (header s))) * 16 + 64 < 2 ^ 64"
  proof
    assume "index_entry_offset s h \<noteq> None"
    then obtain o' where "index_entry_offset s h = Some o'" by blast
    then show "unat (ih_min_height (header s)) \<le> unat h \<and>
        (unat h - unat (ih_min_height (header s))) * 16 + 64 < 2 ^ 64"
      using unat_lt_64 [of o'] by (auto simp: index_entry_offset_Some)
  next
    assume r: "unat (ih_min_height (header s)) \<le> unat h \<and>
        (unat h - unat (ih_min_height (header s))) * 16 + 64 < 2 ^ 64"
    then obtain o' :: u64 where "unat o' = (unat h - unat (ih_min_height (header s))) * 16 + 64"
      using unat_of_nat_u64 by blast
    then have "index_entry_offset s h = Some o'"
      using r by (simp add: index_entry_offset_Some)
    then show "index_entry_offset s h \<noteq> None" by simp
  qed
  then show ?thesis by (auto simp: word_less_nat_alt not_le)
qed



section \<open>Blocks over the limit of the reader\<close>

text \<open>
  C37: the writer does not enforce the limit the reader does. A block whose compressed form is
  longer than \<open>MAX_BLOCK_SIZE\<close> is written with \<open>Ok\<close>, and reading its height is then an error.
\<close>

theorem oversize_block_unreadable:
  assumes "ready s" and "write_request L s h b payload len slot n" and "room s (unat n)"
    and "MAX_BLOCK_SIZE < len"
  shows "\<exists>t. write_block L h b s = (Ok (), t) \<and>
    fst (read_block L h t) = Err (Error InvalidData ''block size too large'')"
proof -
  obtain t where t: "write_block L h b s = (Ok (), t)" "ready t"
    by (rule write_block_ready [OF assms(1-3)])
  have inv: "fs_inv s" "addressable s"
    using assms(1,3) by (simp_all add: ready_def room_def addressable_def split: option.splits)
  have p: "compress L b = Ok payload" "unat len = length payload"
    using assms(2) by (simp_all add: write_request_def)
  obtain payload' len' slot' off where st: "compress L b = Ok payload'" "unat len' = length payload'"
    "index_entry_offset t h = Some slot'"
    "entry_at t slot' = \<lparr>ie_offset = off, ie_size = len', ie_reserved = 0\<rparr>"
    by (rule write_Ok_stored [OF t(1) inv]) blast
  have "len' = len" using p st(1,2) by (simp add: word_unat_eq_iff)
  moreover from this have "len' \<noteq> 0" using assms(4) by auto
  ultimately have "peek L t h = Err (Error InvalidData ''block size too large'')"
    using st assms(4) by (simp add: peek_def Let_def)
  moreover obtain u where "read_block L h t = (peek L t h, u)" using t(2) by (rule read_block_ready)
  ultimately show ?thesis using t(1) by simp
qed

definition long_block :: bytes where
  "long_block = replicate (2 ^ 30 + 1) 0"

theorem oversize_block_unreadable_witness:
  "\<exists>t. write_block plain_libs 9 long_block (empty_store None 5 Async 4) = (Ok (), t) \<and>
    fst (read_block plain_libs 9 t) = Err (Error InvalidData ''block size too large'')"
proof (rule oversize_block_unreadable)
  let ?s = "empty_store None 5 Async 4"
  have l: "length long_block = 1073741825" by (simp only: long_block_def length_replicate) simp
  then have "long_block \<noteq> []" by auto
  then show "write_request plain_libs ?s 9 long_block long_block 1073741825 128 1073741847"
    using l by (simp add: write_request_def index_entry_offset_Some)
  show "room ?s (unat (1073741847 :: u64))" by (simp add: room_def)
  show "MAX_BLOCK_SIZE < (1073741825 :: u32)" by (simp add: MAX_BLOCK_SIZE_def)
qed simp

end
