(* ===== verification/TornWrite.thy ===== *)
theory TornWrite
  imports Resilience
begin

text \<open>
  A process that dies in the middle of a write. Whatever the interrupted write left of its payload,
  its header and its index entry, the next open finds the blocks there were before it, or those and
  the new one: a header that is not complete has version 0 and stops the scan, a complete one makes
  the scan write the index entry again.
\<close>

section \<open>What a torn write leaves at the end of a file\<close>

lemma torn_nothing: "torn b local [] [] = b"
  by (simp add: torn_def pwrite_def)

lemma torn_at_end:
  assumes "length b = local" and "length hb \<le> 22" and "pb \<noteq> []"
  shows "torn b local hb pb = b @ hb @ replicate (22 - length hb) 0 @ pb"
proof -
  have "pwrite b (local + 22) pb = b @ replicate 22 0 @ pb" using assms by (simp add: pwrite_def)
  moreover have "drop (length hb) (replicate 22 (0 :: u8) @ pb) = replicate (22 - length hb) 0 @ pb"
    using assms(2) by simp
  ultimately show ?thesis using assms(1) by (cases "hb = []") (simp_all add: torn_def pwrite_def)
qed

lemma torn_at_end_header:
  assumes "length b = local" and "length hb \<le> 22" and "pb \<noteq> []"
  shows "pread (torn b local hb pb) local 22 = hb @ replicate (22 - length hb) 0"
  using assms by (simp add: torn_at_end pread_def)

text \<open>Up to twenty bytes of a header leave its version zero; the twenty-second is zero anyway.\<close>

lemma short_header_version:
  assumes "length hb \<le> 20"
  shows "bh_version (header_of (hb @ replicate (22 - length hb) 0)) = 0"
proof -
  have "drop 20 (hb @ replicate (22 - length hb) (0 :: u8)) = replicate 2 0"
    using assms by (simp add: drop_replicate)
  then have "pread (hb @ replicate (22 - length hb) (0 :: u8)) 20 2 = [0, 0]"
    by (simp add: pread_def numeral_2_eq_2)
  then show ?thesis by (simp add: header_of_def from_le_bytes_def)
qed

lemma serialize_last:
  assumes "bh_version hdr = BLOCK_ENTRY_VERSION"
  shows "take 21 (serialize hdr) @ [0] = serialize hdr"
proof -
  have v: "to_le_bytes BLOCK_ENTRY_VERSION = [1, 0]"
    by (simp add: BLOCK_ENTRY_VERSION_def to_le_bytes_def)
  let ?xs = "to_le_bytes (bh_height hdr) @ to_le_bytes (bh_size hdr) @ to_le_bytes (bh_checksum hdr)"
  have "serialize hdr = ?xs @ [1, 0]" using assms v by (simp add: serialize_eq)
  then show ?thesis by simp
qed

lemma torn_complete:
  assumes "length b = local" and "pb \<noteq> []" and "bh_version hdr = BLOCK_ENTRY_VERSION" and "20 < j"
  shows "torn b local (take j (serialize hdr)) pb = torn b local (serialize hdr) pb"
proof (cases "j = 21")
  case True
  have "length (take 21 (serialize hdr)) = 21" by simp
  then have "torn b local (take 21 (serialize hdr)) pb = b @ (take 21 (serialize hdr) @ [0]) @ pb"
    using torn_at_end [OF assms(1) _ assms(2), of "take 21 (serialize hdr)"] by simp
  then show ?thesis
    using torn_at_end [OF assms(1) _ assms(2), of "serialize hdr"] serialize_last [OF assms(3)] True by simp
next
  case False
  then show ?thesis using assms(4) by simp
qed

section \<open>Where the scan stops\<close>

text \<open>Room for two more files: no write of the run meets the end of the file numbers.\<close>

definition roomy :: "'z store_scheme \<Rightarrow> bool" where
  "roomy s \<longleftrightarrow>
     (\<forall>c. fs_max_data_file_size s = Some c \<longrightarrow> unat (data_highwater s) div unat c + 2 < 2 ^ 32)"

lemma roomy_place:
  assumes rm: "roomy s" and cap: "cap_ok (fs_max_data_file_size s)" and c: "fs_max_data_file_size s = Some c"
    and off: "unat off = place_for (fs_max_data_file_size s) (unat (data_highwater s)) n" and n: "n \<le> unat c"
    and m: "m \<le> n"
  shows "unat off div unat c < 2 ^ 32" "(unat off + m) div unat c < 2 ^ 32"
    "unat off mod unat c + n \<le> unat c"
proof -
  let ?q = "unat (data_highwater s) div unat c"
  have c0: "0 < unat c" using cap c by (auto simp: cap_ok_def unat_gt_0)
  have q: "?q + 2 < 2 ^ 32" using rm c by (simp add: roomy_def)
  have hw: "unat (data_highwater s) < (?q + 1) * unat c"
    using dividend_less_div_times [OF c0, of "unat (data_highwater s)"] by (simp add: mult.commute)
  have "unat off \<le> (?q + 1) * unat c"
  proof (cases "unat off = unat (data_highwater s)")
    case False
    then show ?thesis using place_for_next(1) [of c _ n] off n c0 c by simp
  qed (use hw in simp)
  then have "unat off + m \<le> (?q + 2) * unat c" using m n by (simp add: algebra_simps)
  then have "(unat off + m) div unat c \<le> ((?q + 2) * unat c) div unat c" by (rule div_le_mono)
  then show 1: "(unat off + m) div unat c < 2 ^ 32" using q c0 by simp
  have "unat off div unat c \<le> (unat off + m) div unat c" by (rule div_le_mono) simp
  then show "unat off div unat c < 2 ^ 32" using 1 by simp
  show "unat off mod unat c + n \<le> unat c"
    using off n c c0 by (auto simp: place_for_def Let_def split: if_splits)
qed

text \<open>Chains of the old blocks survive, whatever the torn write put behind them.\<close>

lemma chain_under_torn:
  assumes ch: "chain L s p cs (data_highwater s)" and le: "unat (data_highwater s) \<le> unat off"
    and dw: "data_written i (unat local) hb pb (s\<lparr>data_highwater := new\<rparr>) u" and gr: "files_grow i s u"
    and sp: "split_offset (fs_max_data_file_size s) off = (i, local)"
    and lt: "\<And>c. fs_max_data_file_size s = Some c \<Longrightarrow> unat off div unat c < 2 ^ 32"
    and lay: "laid_out s (data_highwater s)"
  shows "chain L u p cs (data_highwater s)"
proof -
  let ?s = "s\<lparr>data_highwater := new\<rparr>"
  have "chain L ?s p cs (data_highwater s)"
  proof (rule chain_cong [OF ch])
    show "file_sizes ?s = file_sizes s" by (rule ext) (simp add: file_sizes_def is_file_def path_for_def)
  qed simp_all
  moreover have "files_grow i ?s u" by (rule files_grow_trans [OF files_grow_data_dir gr]) simp
  moreover have "file_len ?s x = file_len s x" for x by (simp add: file_len_def)
  ultimately show ?thesis
    using chain_grows [of L ?s p cs "data_highwater s" off i local hb pb u] le dw sp lt laid_out_Some(4) [OF lay]
    by simp
qed

text \<open>A file that the interrupted write never created.\<close>

lemma laid_out_untouched:
  assumes lay: "laid_out s e" and gr: "files_grow i s t" and ni: "\<not> is_file t (path_for i)"
    and b: "\<And>x. file_len t x = file_len s x" and mx: "fs_max_data_file_size t = fs_max_data_file_size s"
  shows "laid_out t e"
proof -
  have f: "is_file t (path_for x) = is_file s (path_for x)" for x
    using gr ni by (cases "x = i") (auto simp: files_grow_def)
  have "dir_ok t" using lay gr by (simp add: laid_out_def files_grow_def)
  then show ?thesis using lay by (simp add: laid_out_def f b mx split: option.splits)
qed

lemma torn_data_stops:
  assumes inv: "fs_inv s" "laid_out s (data_highwater s)"
    and q: "write_request L s h block payload len slot n"
    and rs: "reserve_space n s = (Ok (off, new, data_highwater s), s\<lparr>data_highwater := new\<rparr>)"
    and sp: "split_offset (fs_max_data_file_size s) off = (i, local)"
    and dw: "data_written i (unat local) hb (take k payload) (s\<lparr>data_highwater := new\<rparr>) u"
    and hb: "length hb \<le> 20" "take k payload = [] \<Longrightarrow> hb = []"
    and gr: "files_grow i s u" and rm: "roomy s"
  obtains e r where "laid_out u e" "\<forall>p cs. chain L s p cs (data_highwater s) \<longrightarrow> chain L u p cs r" "r \<le> e"
    "scan_stops (file_sizes u) u e r" "e \<le> r \<or> unat r + 22 < 2 ^ 64" "data_highwater s \<le> r"
proof -
  let ?s = "s\<lparr>data_highwater := new\<rparr>" and ?hw = "data_highwater s"
  let ?pb = "take k payload" and ?n = "22 + unat len"
  note qs = q [unfolded write_request_def]
  have cap: "cap_ok (fs_max_data_file_size s)" using inv by (simp add: fs_inv_def)
  have n: "unat n = ?n" and pl: "length payload = unat len" using qs by simp_all
  note p = placed_reserved [OF rs inv(1)]
  have new: "unat new = unat off + ?n" using p(2) n by simp
  have place: "unat off = place_for (fs_max_data_file_size s) (unat ?hw) ?n"
    using reserve_space_place [OF rs cap] n by simp
  have le: "unat ?hw \<le> unat off" by (rule p(3))
  have uf: "header u = header s" "fs_max_data_file_size u = fs_max_data_file_size s"
    using dw store_fields(2) [of u ?s] by (simp_all add: data_written_def)
  have ub: "bytes_of u f = (if f = path_for i then torn (bytes_of s f) (unat local) hb ?pb else bytes_of s f)" for f
    using dw by (simp add: data_written_def)
  have nc: "?n \<le> unat c" if c: "fs_max_data_file_size s = Some c" for c
    using p(4) n c by (simp add: unsplit_def)
  have pl2: "unat off div unat c < 2 ^ 32" "(unat off + m) div unat c < 2 ^ 32" "unat local + ?n \<le> unat c"
    if c: "fs_max_data_file_size s = Some c" and m: "m \<le> ?n" for c m
    using roomy_place [OF rm cap c place nc [OF c] m] unat_split_offset(2) [of c off i local] sp c by simp_all
  have end_i: "file_len s i = unat local"
    by (rule reserved_at_end [OF inv(2) cap place _ sp]) (use nc pl2(1) in blast)
  have ch: "chain L u p cs ?hw" if "chain L s p cs ?hw" for p cs
    by (rule chain_under_torn [OF that le dw gr sp _ inv(2)]) (use pl2(1) in blast)
  have uo: "file_len u x = file_len s x" if "x \<noteq> i" for x using that by (simp add: file_len_def ub)
  have uos: "file_sizes u x = file_sizes s x" if "x \<noteq> i" for x
    using that gr uo [OF that] by (auto simp: file_sizes_eq files_grow_def)
  define m where "m = (if ?pb = [] then 0 else 22 + length ?pb)"
  have m: "m \<le> ?n" using pl by (simp add: m_def)
  have len_i: "file_len u i = unat local + m"
  proof (cases "?pb = []")
    case True
    then have "bytes_of u (path_for i) = bytes_of s (path_for i)"
      by (simp only: ub [of "path_for i"] hb(2) [OF True] torn_nothing simp_thms if_True True)
    then show ?thesis using end_i True by (simp add: m_def file_len_def del: take_eq_Nil)
  next
    case False
    then show ?thesis
      using torn_at_end [of "bytes_of s (path_for i)" "unat local" hb ?pb] hb(1) end_i
      by (simp add: m_def file_len_def ub)
  qed
  have lt: "unat off + 22 < 2 ^ 64" using new unat_lt_64 [of new] by simp
  show ?thesis
  proof (cases "is_file u (path_for i)")
    case False
    then have "m = 0" using len_i file_len_absent [of u i] by simp
    then have "file_len u x = file_len s x" for x using uo len_i end_i by (cases "x = i") simp_all
    then have "laid_out u ?hw" by (rule laid_out_untouched [OF inv(2) gr False _ uf(2)])
    then show ?thesis using ch by (intro that [of ?hw ?hw]) (simp_all add: scan_stops_def)
  next
    case ui: True
    define e where "e = (of_nat (unat off + m) :: u64)"
    have e: "unat e = unat off + m"
      unfolding e_def using new m unat_lt_64 [of new] by (intro unat_of_nat_u64) simp
    have lay: "laid_out u e"
      by (rule laid_out_grown [OF inv(2) cap place _ sp e m uf(2) gr ui len_i])
        (use nc pl2 m e uo in auto)
    have to_off: "chain L u ?hw [] off"
      by (rule chain_to_place [OF inv(2) cap place _ sp lt uf(2)]) (use nc pl2(1) uos in blast)+
    have "chain L u p cs off" if "chain L s p cs ?hw" for p cs
      using chain_append [OF ch [OF that] to_off] by simp
    moreover have "off \<le> e" using e by (simp add: word_le_nat_alt)
    moreover have "scan_stops (file_sizes u) u e off"
    proof (cases "?pb = []")
      case True
      then show ?thesis using e by (simp add: m_def scan_stops_def word_le_nat_alt)
    next
      case False
      have "length hb \<le> 22" using hb(1) by simp
      then have "region u off 22 = hb @ replicate (22 - length hb) 0"
        using torn_at_end_header [of "bytes_of s (path_for i)" "unat local" hb ?pb] False end_i
        by (simp add: region_eq [of _ off i local] sp uf(2) ub file_len_def)
      then have "rejected_header u (header_of (region u off 22))"
        using short_header_version [OF hb(1)] by (simp add: rejected_header_def BLOCK_ENTRY_VERSION_def)
      moreover have "file_sizes u i = Some (u64_of_len (unat local + m))"
        using ui len_i by (simp add: file_sizes_eq)
      moreover have "unat local + m < 2 ^ 64"
        using laid_out_short [OF lay, of i] len_i by (simp add: file_len_def)
      ultimately show ?thesis using False sp uf(2) by (simp add: scan_stops_def m_def)
    qed
    moreover have "?hw \<le> off" using le by (simp add: word_le_nat_alt)
    ultimately show ?thesis using that [OF lay] lt by blast
  qed
qed

section \<open>What the next open makes of it\<close>

text \<open>
  A dead store \<open>v\<close> opens as one that reads like \<open>m\<close>, when \<open>m\<close> has the files of \<open>v\<close> and the entries
  the replay writes.
\<close>

lemma reopened_as:
  assumes a: "alive v" and d: "\<And>i. \<not> is_dir v (path_for i)" and lay: "laid_out v e" and we: "mended cs v"
    and hd: "effective_max (disk_header v) = fs_max_data_file_size v"
      "ih_min_height (disk_header v) = ih_min_height (header v)"
    and ch: "chain L v (ih_next_write_offset (disk_header v)) cs r" and re: "r \<le> e"
    and st: "scan_stops (file_sizes v) v e r" and nr: "e \<le> r \<or> unat r + 22 < 2 ^ 64"
    and top: "unat (top_height cs (ih_max_height (disk_header v))) < 2 ^ 59" and o: "keeps_store opts"
    and m: "\<And>i. bytes_of m (path_for i) = bytes_of v (path_for i)"
      "fs_max_data_file_size m = fs_max_data_file_size v" "header m = header v" "data_highwater m = r"
    and en: "\<And>k sl. index_entry_offset v k = Some sl \<Longrightarrow> entry_at m sl =
       (case last_found cs k of Some (p, sz) \<Rightarrow> \<lparr>ie_offset = p, ie_size = sz, ie_reserved = 0\<rparr>
        | None \<Rightarrow> entry_at v sl)"
    and ok: "\<And>k. entry_ok m k"
  shows "\<exists>w. open_store L opts (world_of v) = Opened w \<and> ready w \<and> store_ok w \<and> contents L w = contents L m"
proof -
  have "\<not> opt_truncate opts" "opt_max_data_files opts \<noteq> 0" using o by (simp_all add: keeps_store_def)
  then obtain w where w: "open_store L opts (world_of v) = Opened w" "ready w" "data_highwater w = r"
    "\<And>i. bytes_of w (path_for i) = bytes_of v (path_for i)"
    "fs_max_data_file_size w = fs_max_data_file_size v" "index_entry_offset w = index_entry_offset v"
    "\<And>h slot. index_entry_offset v h = Some slot \<Longrightarrow> entry_at w slot =
       (case last_found cs h of Some (p, sz) \<Rightarrow> \<lparr>ie_offset = p, ie_size = sz, ie_reserved = 0\<rparr>
        | None \<Rightarrow> entry_at v slot)"
    by (rule reopen_chain [OF a d lay we hd ch re st nr top]) blast
  have "index_entry_offset m = index_entry_offset v" by (rule index_entry_offset_header [OF m(3)])
  then have "peek K w k = peek K m k" "entry_ok w k = entry_ok m k" for K k
    by (rule_tac peek_cong entry_ok_cong; use w m en in simp)+
  then show ?thesis
    using w(1,2) ok by (auto simp: store_ok_def sound_def ready_def contents_def fun_eq_iff)
qed

lemma whole_but_torn:
  assumes "16 dvd off" and "length bs \<le> 16" and "whole_entries s"
  shows "whole_but off (log_write IndexFile off bs s)"
proof -
  let ?n = "length (bytes_of s IndexFile)"
  have "off + 16 \<le> ?n" if "off < ?n"
  proof -
    have "16 dvd ?n" using assms(3) by (simp add: whole_entries_def dvd_eq_mod_eq_0)
    then show ?thesis using that assms(1) by (auto elim!: dvdE)
  qed
  then show ?thesis
    using assms by (cases "bs = []")
      (auto simp: whole_but_def whole_entries_def length_pwrite max_def not_le dvd_eq_mod_eq_0)
qed

text \<open>The data were not all there: the store opens as it was.\<close>

lemma torn_data_reopens:
  assumes j: "journal L s cs" and s: "sound s" and ad: "addressable s" and o: "keeps_store opts"
    and q: "write_request L s h block payload len slot n"
    and rs: "reserve_space n s = (Ok (off, new, data_highwater s), s\<lparr>data_highwater := new\<rparr>)"
    and sp: "split_offset (fs_max_data_file_size s) off = (i, local)"
    and dw: "data_written i (unat local) hb (take k payload) (s\<lparr>data_highwater := new\<rparr>) u"
    and hb: "length hb \<le> 20" "take k payload = [] \<Longrightarrow> hb = []"
    and gr: "files_grow i s u" and rm: "roomy s"
    and a: "alive v" and nd: "\<And>i. \<not> is_dir v (path_for i)"
    and v: "bytes_of v = bytes_of u" "data_dir v = data_dir u" "header v = header s"
      "fs_max_data_file_size v = fs_max_data_file_size s"
  shows "\<exists>w. open_store L opts (world_of v) = Opened w \<and> ready w \<and> store_ok w \<and> contents L w = contents L s"
proof -
  note js = j [unfolded journal_def]
  have inv: "fs_inv s" "laid_out s (data_highwater s)" using js by simp_all
  obtain e r where e: "laid_out u e" "\<forall>p cs. chain L s p cs (data_highwater s) \<longrightarrow> chain L u p cs r" "r \<le> e"
    "scan_stops (file_sizes u) u e r" "e \<le> r \<or> unat r + 22 < 2 ^ 64" "data_highwater s \<le> r"
    by (rule torn_data_stops [OF inv q rs sp dw hb gr rm]) blast
  define m where "m = u\<lparr>data_highwater := r\<rparr>"
  have uf: "header u = header s" "fs_max_data_file_size u = fs_max_data_file_size s"
    using dw store_fields(2) [of u "s\<lparr>data_highwater := new\<rparr>"] by (simp_all add: data_written_def)
  have m: "bytes_of m = bytes_of v" "fs_max_data_file_size m = fs_max_data_file_size v"
    "header m = header v" "data_highwater m = r"
    using v uf by (simp_all add: m_def)
  have eu: "entry_at m = entry_at s" using entry_at_data_written [OF dw] by (simp add: m_def)
  have ix: "bytes_of v IndexFile = bytes_of s IndexFile" using v(1) dw by (simp add: data_written_def)
  then have ev: "entry_at v = entry_at s" and dh: "disk_header v = disk_header s"
    by (simp_all add: entry_at_def disk_header_def fun_eq_iff)
  have keep: "peek K m x = peek K s x" "entry_ok m x" for K x
    using view_kept [of s x m] s eu e(6) m v data_written_keeps [OF rs inv(1) ad sp dw]
    by (simp_all add: sound_def word_le_nat_alt m_def)
  have "laid_out v e" using laid_out_cong [of v u e] e(1) v uf by simp
  moreover have "mended cs v" using js ix by (simp add: mended_def whole_entries_def)
  moreover have fz: "file_sizes v = file_sizes u" by (rule file_sizes_cong) (use v in simp_all)
  moreover have "chain L v (ih_next_write_offset (disk_header v)) cs r"
    by (rule chain_cong [where s = u]) (use e(2) js v uf dh fz in simp_all)
  moreover have "unat (top_height cs (ih_max_height (disk_header v))) < 2 ^ 59"
    using js dh by (auto simp: word_le_nat_alt)
  moreover have "scan_stops (file_sizes v) v e r"
  proof -
    have rg: "region v = region u" by (intro ext region_cong) (use v uf in simp_all)
    have rj: "rejected_header v = rejected_header u" using v uf by (simp add: rejected_header_def fun_eq_iff)
    show ?thesis using e(4) unfolding scan_stops_def rg rj fz v(4) uf(2) .
  qed
  moreover have "entry_at m sl =
       (case last_found cs x of Some (p, sz) \<Rightarrow> \<lparr>ie_offset = p, ie_size = sz, ie_reserved = 0\<rparr>
        | None \<Rightarrow> entry_at v sl)" if "index_entry_offset v x = Some sl" for x sl
    using js that eu ev index_entry_offset_header [OF v(3)]
    by (auto simp: index_agrees_def split: option.split)
  ultimately have "\<exists>w. open_store L opts (world_of v) = Opened w \<and> ready w \<and> store_ok w \<and>
      contents L w = contents L m"
    by (intro reopened_as [OF a nd _ _ _ _ _ e(3) _ e(5) _ o, where cs = cs])
      (use js dh v m keep in simp_all)
  then show ?thesis using keep(1) by (simp add: contents_def fun_eq_iff)
qed

text \<open>The data are there: the store opens with the block, whatever became of the index entry.\<close>

lemma whole_data_reopens:
  assumes j: "journal L s cs" and s: "sound s" and o: "keeps_store opts"
    and acc: "acceptable L s block" and small: "unat h < 2 ^ 59"
    and q: "write_request L s h block payload len slot n"
    and rs: "reserve_space n s = (Ok (off, new, data_highwater s), s\<lparr>data_highwater := new\<rparr>)"
    and sp: "split_offset (fs_max_data_file_size s) off = (i, local)"
    and dw: "data_written i (unat local) (serialize (block_header_of L h block len)) payload
       (s\<lparr>data_highwater := new\<rparr>) u"
    and gr: "files_grow i s u" and ad: "addressable u"
    and a: "alive v" and nd: "\<And>i. \<not> is_dir v (path_for i)"
    and v: "\<And>x. bytes_of v (path_for x) = bytes_of u (path_for x)" "data_dir v = data_dir u"
      "header v = header s" "fs_max_data_file_size v = fs_max_data_file_size s"
    and dh: "disk_header v = disk_header s" and we: "whole_but (unat slot) v"
    and en: "\<And>k sl. k \<noteq> h \<Longrightarrow> index_entry_offset s k = Some sl \<Longrightarrow> entry_at v sl = entry_at s sl"
  shows "\<exists>w. open_store L opts (world_of v) = Opened w \<and> ready w \<and> store_ok w \<and>
    contents L w = (contents L s)(h \<mapsto> block)"
proof -
  note js = j [unfolded journal_def]
  have inv: "fs_inv s" "laid_out s (data_highwater s)" using js by simp_all
  have as: "addressable s" using acc by (simp add: acceptable_def)
  let ?cs = "cs @ [(h, off, len)]" and ?s = "s\<lparr>data_highwater := new\<rparr>"
  let ?e = "\<lparr>ie_offset = off, ie_size = len, ie_reserved = 0\<rparr>"
  note ext = data_written_extends [OF inv acc q rs sp dw gr ad]
  note p = placed_reserved [OF rs inv(1)]
  note qs = q [unfolded write_request_def]
  have uf: "header u = header s" "fs_max_data_file_size u = fs_max_data_file_size s" "data_highwater u = new"
    using dw store_fields(1,2) [of u ?s] by (simp_all add: data_written_def)
  define m where "m = log_write IndexFile (unat slot) (encode_entry ?e) (u\<lparr>faults := []\<rparr>)"
  have m: "\<And>x. bytes_of m (path_for x) = bytes_of v (path_for x)"
    "fs_max_data_file_size m = fs_max_data_file_size v" "header m = header v" "data_highwater m = new"
    "region m = region u"
    using v uf by (simp_all add: m_def)
  have io: "index_entry_offset v = index_entry_offset s" "index_entry_offset m = index_entry_offset s"
    using index_entry_offset_header [OF v(3)] index_entry_offset_header [OF m(3)] by simp_all
  have slot: "index_entry_offset ?s h = Some slot"
    using qs index_entry_offset_header [of ?s s] by simp
  have em: "entry_at m sl = (if k = h then ?e else entry_at s sl)" if "index_entry_offset s k = Some sl" for k sl
    using index_step [OF slot dw m_def bookkeeping_refl, of k sl] that index_entry_offset_header [of ?s s] by simp
  have other: "peek K m x = peek K s x \<and> entry_ok m x" if "x \<noteq> h" for K x
    using view_kept [of s x m] s em that p(2,3) m v uf data_written_keeps [OF rs inv(1) as sp dw]
    by (simp add: sound_def)
  have here: "contents L m h = Some block \<and> entry_ok m h"
  proof -
    note vb = written_block_valid [OF acc q dw sp]
    have rg: "region u off (22 + unat len) = serialize (block_header_of L h block len) @ payload"
      using region_written [OF dw] sp qs by simp
    have "decompress L payload = Ok block" using acc qs decompress_compress by (auto simp: acceptable_def)
    then have "block_in L len (region u off (22 + unat len)) = Ok block"
      using rg qs by (simp add: block_in_def block_header_of_def)
    moreover have "placed m off (22 + unat len)"
      using p(2,4) qs m uf v rg by (simp add: placed_def unsplit_def)
    ultimately show ?thesis
      using vb qs io em [of h slot] m(5)
      by (auto simp: contents_def peek_def entry_ok_def Let_def valid_block_at_def not_less)
  qed
  have "laid_out v new" using laid_out_cong [of v u new] ext(1) v uf by simp
  moreover have "mended ?cs v"
    using we qs io(1) by (auto simp: mended_def heights_of_def)
  moreover have "chain L v (ih_next_write_offset (disk_header v)) ?cs new"
    by (rule chain_cong [where s = u]) (use ext(2) js v uf dh file_sizes_cong [of v u] in simp_all)
  moreover have "scan_stops (file_sizes v) v new new" by (simp add: scan_stops_def)
  moreover have "unat (top_height ?cs (ih_max_height (disk_header v))) < 2 ^ 59"
    using js small dh by (auto simp: top_height_append top_height_def max_def word_le_nat_alt)
  moreover have "entry_at m sl =
       (case last_found ?cs x of Some (p, sz) \<Rightarrow> \<lparr>ie_offset = p, ie_size = sz, ie_reserved = 0\<rparr>
        | None \<Rightarrow> entry_at v sl)" if "index_entry_offset v x = Some sl" for x sl
    using js that em en io(1) by (auto simp: last_found_snoc index_agrees_def split: option.split)
  moreover have "entry_ok m x" for x using here other by (cases "x = h") blast+
  ultimately have "\<exists>w. open_store L opts (world_of v) = Opened w \<and> ready w \<and> store_ok w \<and>
      contents L w = contents L m"
    by (intro reopened_as [OF a nd _ _ _ _ _ order_refl _ disjI1 [OF order_refl] _ o, where cs = ?cs])
      (use js dh v m in simp_all)
  moreover have "contents L m = (contents L s)(h \<mapsto> block)"
    using here other by (auto simp: contents_def fun_eq_iff)
  ultimately show ?thesis by simp
qed

section \<open>A write that does not finish\<close>

lemma whole_header_prefix:
  assumes "length bs \<le> 64" and "whole_entries s"
  shows "whole_entries (log_write IndexFile 0 bs s)"
  using assms by (cases "bs = []") (simp_all add: whole_entries_def length_pwrite max_absorb1)

lemma preserves_whole_checkpoint: "preserves whole_entries (checkpoint off :: ('z store_scheme, unit) io)"
proof -
  have "preserves whole_entries (sync_all IndexFile :: ('z store_scheme, unit) io)"
    by (rule preserves_sync_all) (simp add: whole_entries_def)
  moreover have "preserves whole_entries (write_all_at IndexFile (encode_header h) 0 :: ('z store_scheme, unit) io)" for h
    by (rule preserves_write_all_at) (simp add: whole_header_prefix whole_entries_def [of "_\<lparr>faults := _\<rparr>"] flip: whole_entries_def)
  ultimately show ?thesis
    unfolding checkpoint_def by (intro pres) (auto simp: whole_entries_def)
qed

lemma finish_write_whole:
  assumes f: "finish_write h off s = (r, t)" and w: "whole_entries s"
  shows "whole_entries t"
proof -
  let ?u = "advance_max_contiguous_height h s"
  let ?v = "if height_highwater ?u < h then ?u\<lparr>height_highwater := h\<rparr> else ?u"
  have "whole_entries ?u" using contig_only_fields(4) [OF advance_contig] w by blast
  then have v: "whole_entries ?v" by (simp add: whole_entries_def)
  have "maybe_checkpoint h (height_highwater ?u < h) off ?v = (r, t)"
    using f by (simp add: finish_write_eq Let_def)
  then show ?thesis
    using v preservesD [OF preserves_whole_checkpoint v] by (auto elim: maybe_checkpoint_cases)
qed

text \<open>Twenty-one bytes of the header are all that matter of it.\<close>

lemma data_written_complete:
  assumes inv: "fs_inv s" "laid_out s (data_highwater s)" and rm: "roomy s"
    and q: "write_request L s h block payload len slot n" and ne: "payload \<noteq> []"
    and rs: "reserve_space n s = (Ok (off, new, data_highwater s), s\<lparr>data_highwater := new\<rparr>)"
    and sp: "split_offset (fs_max_data_file_size s) off = (i, local)"
    and dw: "data_written i (unat local) (take j (serialize (block_header_of L h block len))) payload
       (s\<lparr>data_highwater := new\<rparr>) u" and j: "20 < j"
  shows "data_written i (unat local) (serialize (block_header_of L h block len)) payload
       (s\<lparr>data_highwater := new\<rparr>) u" and "addressable u"
proof -
  have cap: "cap_ok (fs_max_data_file_size s)" using inv by (simp add: fs_inv_def)
  note p = placed_reserved [OF rs inv(1)]
  have place: "unat off = place_for (fs_max_data_file_size s) (unat (data_highwater s)) (unat n)"
    by (rule reserve_space_place [OF rs cap])
  have nc: "unat n \<le> unat c" if c: "fs_max_data_file_size s = Some c" for c
    using p(4) c by (simp add: unsplit_def)
  note room = roomy_place [OF rm cap _ place nc]
  have "file_len s i = unat local"
    by (rule reserved_at_end [OF inv(2) cap place _ sp]) (use nc room(1) in blast)
  then have "torn (bytes_of s (path_for i)) (unat local) (take j (serialize (block_header_of L h block len))) payload =
      torn (bytes_of s (path_for i)) (unat local) (serialize (block_header_of L h block len)) payload"
    by (intro torn_complete [OF _ ne _ j]) (simp_all add: file_len_def block_header_of_def)
  then show "data_written i (unat local) (serialize (block_header_of L h block len)) payload
       (s\<lparr>data_highwater := new\<rparr>) u"
    using dw by (simp add: data_written_def)
  have u: "data_highwater u = new" "fs_max_data_file_size u = fs_max_data_file_size s"
    using dw store_fields(1) [of u "s\<lparr>data_highwater := new\<rparr>"] by (simp_all add: data_written_def)
  have "unat new div unat c < 2 ^ 32" if "fs_max_data_file_size s = Some c" for c
    using room(2) [OF that that order_refl] p(2) by simp
  then show "addressable u" using u by (simp add: addressable_def split: option.split)
qed

lemma journal_faults:
  assumes j: "journal L s cs" shows "journal L (s\<lparr>faults := fs\<rparr>) cs"
proof -
  let ?t = "s\<lparr>faults := fs\<rparr>"
  have "file_sizes ?t = file_sizes s" by (rule file_sizes_cong) simp_all
  then have "chain L ?t p cs r = chain L s p cs r" for p r
    using chain_cong [of L s p cs r ?t] chain_cong [of L ?t p cs r s] by auto
  moreover have "laid_out ?t e = laid_out s e" for e by (rule laid_out_cong) simp_all
  moreover have "fs_inv ?t = fs_inv s" by (simp add: fs_inv_def)
  ultimately show ?thesis
    using j by (simp add: journal_def disk_header_def whole_entries_def index_agrees_def is_dir_def path_for_def
        index_entry_offset_def)
qed

text \<open>A store whose process died outside a write, under any fault script.\<close>

lemma untouched_reopens:
  assumes j: "journal L s cs" and t: "tidy s" and s: "sound s" and o: "keeps_store opts"
  shows "\<exists>w. open_store L opts (world_of (s\<lparr>faults := []\<rparr>)) = Opened w \<and> ready w \<and> store_ok w \<and>
    contents L w = contents L s"
proof -
  let ?v = "s\<lparr>faults := []\<rparr>"
  have a: "alive ?v" using t tidy_alive [of ?v] by simp
  have sb: "same_blocks s ?v" by (simp add: same_blocks_def)
  have "sound ?v" using s same_blocks_view(4) [OF sb] by simp
  then obtain w where "open_store L opts (world_of ?v) = Opened w" "ready w"
    "contents L w = contents L ?v" "store_ok w"
    using reopened [OF journal_faults [OF j] a o] by metis
  then show ?thesis using same_blocks_view(2) [OF sb] by (simp add: fun_eq_iff)
qed

text \<open>A write that stopped with the data complete, with the index entry perhaps in part.\<close>

lemma torn_index_reopens:
  assumes j: "journal L s cs" and tt: "tidy t" and s: "sound s" and o: "keeps_store opts"
    and acc: "acceptable L s block" and small: "unat h < 2 ^ 59"
    and q: "write_request L s h block payload len slot n"
    and rs: "reserve_space n s = (Ok (off, new, data_highwater s), s\<lparr>data_highwater := new\<rparr>)"
    and sp: "split_offset (fs_max_data_file_size s) off = (i, local)"
    and dw: "data_written i (unat local) (serialize (block_header_of L h block len)) payload
       (s\<lparr>data_highwater := new\<rparr>) u"
    and gr: "files_grow i s u" and ad: "addressable u"
    and x: "x = log_write IndexFile (unat slot) (take m (encode_entry e)) (u\<lparr>faults := fs\<rparr>)"
    and stop: "t = x \<or> 16 \<le> m \<and> finish_write h new x = (r, t)"
    and dh: "disk_header t = disk_header s"
  shows "\<exists>w. open_store L opts (world_of (t\<lparr>faults := []\<rparr>)) = Opened w \<and> ready w \<and> store_ok w \<and>
    contents L w = (contents L s)(h \<mapsto> block)"
proof -
  let ?v = "t\<lparr>faults := []\<rparr>"
  have bk: "bookkeeping x t" using stop finish_write_bookkeeping(1) by fastforce
  have uf: "header u = header s" "fs_max_data_file_size u = fs_max_data_file_size s"
    using dw store_fields(2) [of u "s\<lparr>data_highwater := new\<rparr>"] by (simp_all add: data_written_def)
  have slot: "index_entry_offset s h = Some slot" using q by (simp add: write_request_def)
  have iu: "bytes_of u IndexFile = bytes_of s IndexFile" using dw by (simp add: data_written_def)
  have "whole_entries (u\<lparr>faults := fs\<rparr>)" using j iu by (simp add: journal_def whole_entries_def)
  then have wx: "whole_but (unat slot) x" "16 \<le> m \<Longrightarrow> whole_entries x"
    unfolding x using whole_but_torn [OF slot_dvd [OF slot], of "take m (encode_entry e)"]
      whole_entries_pwrite [OF slot_dvd [OF slot], of "take m (encode_entry e)"] by simp_all
  have "whole_but (unat slot) t"
    using stop wx finish_write_whole whole_entries_but by blast
  then have we: "whole_but (unat slot) ?v" by (simp add: whole_but_def)
  have en: "entry_at ?v sl = entry_at s sl" if k: "k \<noteq> h" "index_entry_offset s k = Some sl" for k sl
  proof -
    have "unat slot + 16 \<le> unat sl \<or> unat sl + 16 \<le> unat slot"
      using index_slots_apart [OF slot k(2)] k(1) by blast
    then have "entry_at x sl = entry_at u sl" unfolding x by (subst entry_kept) auto
    moreover have "entry_at u sl = entry_at s sl" using iu by (simp add: entry_at_def)
    ultimately show ?thesis
      using bookkeeping_entry_at [OF bk index_entry_offset_ge [OF k(2)]] by simp
  qed
  have "alive ?v" "\<not> is_dir ?v (path_for y)" for y
    using tt tidy_alive [of ?v] by simp_all
  then show ?thesis
    by (rule whole_data_reopens [OF j s o acc small q rs sp dw gr ad _ _ _ _ _ _ _ we en])
      (use bk uf dh x in \<open>simp_all add: bookkeeping_def same_blocks_def disk_header_def\<close>)
qed

lemma stage_grows:
  assumes "snd (write_data off p hdr (s\<lparr>data_highwater := new\<rparr>)) = u" and "fs_inv s"
    and "split_offset (fs_max_data_file_size s) off = (i, local)"
  shows "files_grow i s u"
proof -
  let ?s = "s\<lparr>data_highwater := new\<rparr>"
  have "fs_inv ?s" "split_offset (fs_max_data_file_size ?s) off = (i, local)" using assms(2,3) by simp_all
  then have "files_grow i ?s (snd (write_data off p hdr ?s))"
    by (rule write_data_grows [OF prod.collapse [symmetric]])
  moreover have "files_grow i s ?s" by (rule files_grow_data_dir) simp
  ultimately show ?thesis using assms(1) by (blast intro: files_grow_trans)
qed

lemma stopped_write_reopens:
  assumes j: "journal L s cs" and td: "tidy s" and s: "sound s" and o: "keeps_store opts" and rm: "roomy s"
    and acc: "acceptable L s block" and small: "unat h < 2 ^ 59"
    and w: "write_block L h block s = (r, t)" and dh: "disk_header t = disk_header s"
  shows "\<exists>v. open_store L opts (world_of (t\<lparr>faults := []\<rparr>)) = Opened v \<and> ready v \<and> store_ok v \<and>
    (contents L v = contents L s \<or> contents L v = (contents L s)(h \<mapsto> block))"
  using w
proof (cases rule: write_block_cases)
  case refused
  then show ?thesis using untouched_reopens [OF j td s o] by blast
next
  case (requested payload len slot n)
  have tt: "tidy t" by (rule preservesD [OF preserves_tidy_write td w])
  have inv: "fs_inv s" "laid_out s (data_highwater s)" using j by (simp_all add: journal_def)
  have as: "addressable s" using acc by (simp add: acceptable_def)
  have ne: "payload \<noteq> []"
    using acc requested(1) compress_nonempty [of L block payload] by (auto simp: acceptable_def write_request_def)
  from requested inv(1) show ?thesis
  proof (cases rule: write_stages)
    case (no_space e)
    then show ?thesis using untouched_reopens [OF j td s o] by blast
  next
    case (reserved off new i local jj k u)
    have gr: "files_grow i s u" by (rule stage_grows [OF reserved(5) inv(1) reserved(2)])
    have uf: "header u = header s" "fs_max_data_file_size u = fs_max_data_file_size s"
      using reserved(3) store_fields(2) [of u "s\<lparr>data_highwater := new\<rparr>"] by (simp_all add: data_written_def)
    show ?thesis
    proof (cases "20 < jj")
      case True
      then have k: "take k payload = payload" using reserved(6) by auto
      note c = data_written_complete [OF inv rm requested(1) ne reserved(1,2) reserved(3) [unfolded k] True]
      note fin = torn_index_reopens [OF j tt s o acc small requested(1) reserved(1,2) c(1) gr c(2) refl _ dh]
      from reserved(4) show ?thesis
      proof (elim disjE conjE exE)
        fix e assume t: "t = u\<lparr>data_highwater := data_highwater s\<rparr>"
        let ?v = "t\<lparr>faults := []\<rparr>"
        have a: "alive ?v" "\<not> is_dir ?v (path_for y)" for y using tt tidy_alive [of ?v] by simp_all
        have iu: "bytes_of u IndexFile = bytes_of s IndexFile" using c(1) by (simp add: data_written_def)
        have "whole_but (unat slot) ?v"
          using j iu t by (intro whole_entries_but) (simp add: journal_def whole_entries_def)
        with a show ?thesis
          using whole_data_reopens [OF j s o acc small requested(1) reserved(1,2) c(1) gr c(2), of ?v]
            t uf dh iu by (auto simp: disk_header_def entry_at_def)
      next
        fix m fs
        assume "let x = log_write IndexFile (unat slot)
              (take m (encode_entry \<lparr>ie_offset = off, ie_size = len, ie_reserved = 0\<rparr>))
              (u\<lparr>faults := fs\<rparr>)
           in (\<exists>e. r = Err e) \<and> t = x \<or> m = 16 \<and> finish_write h new x = (r, t)"
        then have "t = log_write IndexFile (unat slot)
              (take m (encode_entry \<lparr>ie_offset = off, ie_size = len, ie_reserved = 0\<rparr>)) (u\<lparr>faults := fs\<rparr>) \<or>
            16 \<le> m \<and> finish_write h new (log_write IndexFile (unat slot)
              (take m (encode_entry \<lparr>ie_offset = off, ie_size = len, ie_reserved = 0\<rparr>)) (u\<lparr>faults := fs\<rparr>)) = (r, t)"
          unfolding Let_def by auto
        from fin [OF this] show ?thesis by blast
      qed
    next
      case False
      then have t: "t = u\<lparr>data_highwater := data_highwater s\<rparr>" using reserved(4) by auto
      let ?v = "t\<lparr>faults := []\<rparr>"
      have a: "alive ?v" "\<not> is_dir ?v (path_for y)" for y using tt tidy_alive [of ?v] by simp_all
      have "take jj (serialize (block_header_of L h block len)) = []" if "take k payload = []"
        using that reserved(6) ne by auto
      moreover have "length (take jj (serialize (block_header_of L h block len))) \<le> 20" using False by simp
      moreover have "bytes_of ?v = bytes_of u" "data_dir ?v = data_dir u"
        unfolding t by (simp_all add: bytes_of_def fun_eq_iff split: file_id.split)
      ultimately show ?thesis
        using torn_data_reopens [OF j s as o requested(1) reserved(1-3) _ _ gr rm, of ?v] a uf False
        by (auto simp: t)
    qed
  qed
qed

section \<open>The property\<close>

lemma write_seq_tidy:
  "write_seq (write_block L) ps s = (r, t) \<Longrightarrow> tidy s \<Longrightarrow> tidy t"
proof (induction ps arbitrary: s)
  case (Cons p ps)
  obtain r1 u where u: "write_block L (fst p) (snd p) s = (r1, u)" by fastforce
  then have "tidy u" using preservesD [OF preserves_tidy_write] Cons.prems(2) by blast
  then show ?case using Cons u by (cases r1) (auto simp: io_bind_def)
qed (simp add: io_simps)

lemma write_fits_addressable:
  assumes j: "journal L s cs" and rm: "roomy s" and w: "write_block L h block s = (Ok (), t)"
  shows "addressable t"
proof -
  have inv: "fs_inv s" "laid_out s (data_highwater s)" using j by (simp_all add: journal_def)
  have cap: "cap_ok (fs_max_data_file_size s)" using inv by (simp add: fs_inv_def)
  from w inv(1) obtain payload len n off new i u fs and slot local :: u64 where
    rs: "reserve_space n s = (Ok (off, new, data_highwater s), s\<lparr>data_highwater := new\<rparr>)" and
    dw: "data_written i (unat local) (serialize (block_header_of L h block len)) payload
       (s\<lparr>data_highwater := new\<rparr>) u" and
    fw: "finish_write h new (log_write IndexFile (unat slot)
       (encode_entry \<lparr>ie_offset = off, ie_size = len, ie_reserved = 0\<rparr>) (u\<lparr>faults := fs\<rparr>)) = (Ok (), t)"
    by (rule write_Ok_commit) blast
  have "data_highwater t = new" "fs_max_data_file_size t = fs_max_data_file_size s"
    using finish_write_bookkeeping(1) [OF fw] dw store_fields(1) [of u "s\<lparr>data_highwater := new\<rparr>"]
    by (simp_all add: bookkeeping_def same_blocks_def data_written_def)
  moreover have "unat new div unat c < 2 ^ 32" if c: "fs_max_data_file_size s = Some c" for c
  proof -
    note p = placed_reserved [OF rs inv(1)]
    have "unat n \<le> unat c" using p(4) c by (simp add: unsplit_def)
    then show ?thesis
      using roomy_place(2) [OF rm cap c reserve_space_place [OF rs cap] _ order_refl] p(2) by simp
  qed
  ultimately show ?thesis by (simp add: addressable_def split: option.split)
qed

lemma write_reopens:
  assumes j: "journal L s cs" and td: "tidy s" and s: "sound s" and o: "keeps_store opts" and rm: "roomy s"
    and acc: "acceptable L s block" and small: "unat h < 2 ^ 59"
    and w: "write_block L h block s = (Ok (), t)"
  shows "\<exists>v. open_store L opts (world_of (t\<lparr>faults := []\<rparr>)) = Opened v \<and> ready v \<and> store_ok v \<and>
    contents L v = (contents L s)(h \<mapsto> block)"
proof -
  have "store_ok s" using j s by (simp add: store_ok_def journal_def)
  then have v: "contents L t = (contents L s)(h \<mapsto> block)" "sound t"
    using store_write_view [OF _ acc w] by (simp_all add: store_ok_def)
  obtain cs' where "journal L t cs'"
    using journal_write [OF j acc small w write_fits_addressable [OF j rm w]] by blast
  then show ?thesis
    using untouched_reopens [OF _ preservesD [OF preserves_tidy_write td w] v(2) o] v(1) by fastforce
qed

text \<open>
  C10: a process that dies in the middle of a write. A store created empty took the writes \<open>ps\<close>;
  during one more write of \<open>b\<close> at \<open>h\<close> the calls failed as the script \<open>fs\<close> says, so that any prefix
  of the payload, the header or the index entry may be all that reached the disk, and then the
  process was gone. The next open succeeds and finds exactly the blocks of \<open>ps\<close>, or those and the
  new one; when the write had returned \<open>Ok\<close> it finds the new one. Two things are assumed: a header
  rewritten by a checkpoint is on disk whole, and there is room for two more data files.
\<close>

theorem reopen_after_torn_write:
  assumes "new_store_ok cap m" and "write_seq (write_block L) ps (empty_store cap m mode n) = (Ok (), s)"
    and "fits_seq (write_block L) (acceptable L) ps (empty_store cap m mode n)"
    and "heights_ok ((h, b) # ps)" and "acceptable L s b" and "roomy s" and "keeps_store opts"
    and "write_block L h b (s\<lparr>faults := fs\<rparr>) = (r, t)" and "r = Ok () \<or> disk_header t = disk_header s"
  shows "\<exists>u. open_store L opts (world_of (t\<lparr>faults := []\<rparr>)) = Opened u \<and> ready u \<and> store_ok u \<and>
    (contents L u = map_of (rev (ps @ [(h, b)])) \<or> r \<noteq> Ok () \<and> contents L u = map_of (rev ps))"
proof -
  let ?e = "empty_store cap m mode n" and ?s = "s\<lparr>faults := fs\<rparr>"
  have hs: "heights_ok ps" "unat h < 2 ^ 59" using assms(4) by (simp_all add: heights_ok_def)
  have a: "addressable s" using assms(5) by (simp add: acceptable_def)
  obtain cs where j: "journal L s cs" "alive s" "contents L s = map_of (rev ps)"
    by (rule run_of_writes [OF assms(1-3) hs(1) a])
  have e: "store_ok ?e" "tidy ?e"
    using assms(1) empty_store_ready [of cap m mode n] empty_store_alive [of cap m mode n] tidy_alive [of ?e]
    by (simp_all add: new_store_ok_def store_ok_def ready_def)
  have so: "sound s" using store.write_seq_view [OF e(1) assms(2,3)] by (simp add: store_ok_def)
  have td: "tidy ?s" using write_seq_tidy [OF assms(2) e(2)] by simp
  have sb: "same_blocks s ?s" by (simp add: same_blocks_def)
  have js: "journal L ?s cs" by (rule journal_faults [OF j(1)])
  have acc: "acceptable L ?s b" and rm: "roomy ?s" and ss: "sound ?s"
    and c: "contents L ?s = map_of (rev ps)"
    using assms(5,6) so j(3) same_blocks_view(2,4,5) [OF sb] by (simp_all add: acceptable_def roomy_def fun_eq_iff)
  have d: "disk_header ?s = disk_header s" by (simp add: disk_header_def)
  show ?thesis
  proof (cases "r = Ok ()")
    case True
    then show ?thesis using write_reopens [OF js td ss assms(7) rm acc hs(2)] assms(8) c by auto
  next
    case False
    then show ?thesis
      using stopped_write_reopens [OF js td ss assms(7) rm acc hs(2) assms(8)] assms(9) c d by auto
  qed
qed

theorem reopen_after_torn_write_witness:
  "\<exists>t u. write_block plain_libs 9 [4]
        (one_block_store\<lparr>faults := [NoFault, Fault (Error (OtherKind 28) ''disk full'') 1]\<rparr>) =
        (Err (Error (OtherKind 28) ''disk full''), t) \<and>
      open_store plain_libs default_options (world_of (t\<lparr>faults := []\<rparr>)) = Opened u \<and>
      contents plain_libs u 7 = Some [1, 2, 3] \<and> contents plain_libs u 9 \<in> {None, Some [4]}"
proof -
  let ?fs = "[NoFault, Fault (Error (OtherKind 28) ''disk full'') 1]"
  let ?w = "write_block plain_libs 9 [4] (one_block_store\<lparr>faults := ?fs\<rparr>)"
  have "fst ?w = Err (Error (OtherKind 28) ''disk full'')" by code_simp
  then have w: "?w = (Err (Error (OtherKind 28) ''disk full''), snd ?w)" by (metis prod.collapse)
  have "bytes_of (snd ?w) IndexFile = bytes_of one_block_store IndexFile" by code_simp
  then have d: "disk_header (snd ?w) = disk_header one_block_store" by (simp add: disk_header_def)
  have "fs_max_data_file_size one_block_store = None" by code_simp
  then have rm: "roomy one_block_store" by (simp add: roomy_def)
  have acc: "acceptable plain_libs one_block_store [4]"
    using one_block_store_ok(3) by (simp add: acceptable_def)
  have o: "new_store_ok None 5" "heights_ok [(9, [4]), (7, [1, 2, 3])]" "keeps_store default_options"
    by (simp_all add: new_store_ok_def heights_ok_def keeps_store_def default_options_def DEFAULT_MAX_DATA_FILES_def)
  from reopen_after_torn_write [OF o(1) one_block_run o(2) acc rm o(3) w disjI2 [OF d]]
  obtain u where u: "open_store plain_libs default_options (world_of (snd ?w\<lparr>faults := []\<rparr>)) = Opened u"
    "contents plain_libs u = [7 \<mapsto> [1, 2, 3], 9 \<mapsto> [4]] \<or> contents plain_libs u = [7 \<mapsto> [1, 2, 3]]"
    by auto
  then have "contents plain_libs u 7 = Some [1, 2, 3]" "contents plain_libs u 9 \<in> {None, Some [4]}" by auto
  then show ?thesis using w u(1) by blast
qed

end
