(* ===== verification/Lifetimes.thy ===== *)
theory Lifetimes
  imports Fresh Cached TornWrite
begin

text \<open>
  A store over many processes: opened, written and left, again and again, by a process that drops
  the store or one that is killed.
\<close>

section \<open>Sessions\<close>

text \<open>What one process does with the store: its options, its writes, and whether \<open>Drop\<close> runs.\<close>

record session =
  sn_options :: store_options
  sn_blocks :: "(u64 \<times> bytes) list"
  sn_closed :: bool

text \<open>
  A sequence of sessions, over whatever is opened: \<open>opn\<close> gives a state or fails, \<open>leave\<close> ends the
  process, with or without \<open>Drop\<close>.
\<close>

fun run_sessions ::
  "(store_options \<Rightarrow> 'w \<Rightarrow> 's option) \<Rightarrow> (u64 \<Rightarrow> bytes \<Rightarrow> ('s, unit) io) \<Rightarrow> (bool \<Rightarrow> 's \<Rightarrow> 'w) \<Rightarrow>
     session list \<Rightarrow> 'w \<Rightarrow> 'w option" where
  "run_sessions opn wr leave [] w = Some w"
| "run_sessions opn wr leave (n # ns) w =
     (case opn (sn_options n) w of
        None \<Rightarrow> None
      | Some s \<Rightarrow>
          (case write_seq wr (sn_blocks n) s of
             (Ok x, t) \<Rightarrow> run_sessions opn wr leave ns (leave (sn_closed n) t)
           | (Err e, t) \<Rightarrow> None | (Panic m, t) \<Rightarrow> None))"

text \<open>
  What is asked of the sessions: options that keep the store, and writes that succeed and fit.
  Nothing is asked of the opens.
\<close>

fun sessions_fit ::
  "(store_options \<Rightarrow> 'w \<Rightarrow> 's option) \<Rightarrow> (u64 \<Rightarrow> bytes \<Rightarrow> ('s, unit) io) \<Rightarrow> (bool \<Rightarrow> 's \<Rightarrow> 'w) \<Rightarrow>
     ('s \<Rightarrow> bytes \<Rightarrow> bool) \<Rightarrow> ('s \<Rightarrow> bool) \<Rightarrow> session list \<Rightarrow> 'w \<Rightarrow> bool" where
  "sessions_fit opn wr leave fits space [] w \<longleftrightarrow> True"
| "sessions_fit opn wr leave fits space (n # ns) w \<longleftrightarrow>
     keeps_store (sn_options n) \<and> heights_ok (sn_blocks n) \<and>
     (case opn (sn_options n) w of
        None \<Rightarrow> True
      | Some s \<Rightarrow>
          (case write_seq wr (sn_blocks n) s of
             (r, t) \<Rightarrow> r = Ok () \<and> fits_seq wr fits (sn_blocks n) s \<and> space t \<and>
                sessions_fit opn wr leave fits space ns (leave (sn_closed n) t)))"

definition all_blocks :: "session list \<Rightarrow> (u64 \<times> bytes) list" where
  "all_blocks ns = concat (map sn_blocks ns)"

section \<open>A map that outlives its process\<close>

text \<open>
  A map of blocks that can be left and opened again with the same view; \<open>durable\<close> is what a
  process has to keep for the next one.
\<close>

locale durable_map = block_map wr rd view inv fits
  for wr :: "u64 \<Rightarrow> bytes \<Rightarrow> ('s, unit) io" and rd view inv fits +
  fixes opn :: "store_options \<Rightarrow> 'w \<Rightarrow> 's option"
    and leave :: "bool \<Rightarrow> 's \<Rightarrow> 'w"
    and durable :: "'s \<Rightarrow> bool"
    and space :: "'s \<Rightarrow> bool"
  assumes durable_inv: "durable s \<Longrightarrow> inv s"
    and fits_space: "fits s b \<Longrightarrow> space s"
    and wr_durable: "durable s \<Longrightarrow> fits s b \<Longrightarrow> unat h < 2 ^ 59 \<Longrightarrow> wr h b s = (Ok (), t) \<Longrightarrow>
      space t \<Longrightarrow> durable t"
    and reopen: "durable s \<Longrightarrow> keeps_store p \<Longrightarrow>
      \<exists>t. opn p (leave c s) = Some t \<and> durable t \<and> view t = view s"
begin

lemma write_seq_durable:
  assumes "durable s" and "write_seq wr ps s = (Ok (), t)" and "fits_seq wr fits ps s"
    and "heights_ok ps" and "space t"
  shows "durable t"
  using assms
proof (induction ps arbitrary: s)
  case Nil
  then show ?case by (simp add: io_simps)
next
  case (Cons p ps)
  from Cons.prems(2) obtain u where u: "wr (fst p) (snd p) s = (Ok (), u)" "write_seq wr ps u = (Ok (), t)"
    by (auto elim: io_bind_OkE)
  have f: "fits s (snd p)" "fits_seq wr fits ps u" "unat (fst p) < 2 ^ 59" "heights_ok ps"
    using Cons.prems(3,4) u(1) by (simp_all add: heights_ok_def)
  have "space u" using f(2) u(2) Cons.prems(5) fits_space by (cases ps) (auto simp: io_simps)
  then have "durable u" using wr_durable [OF Cons.prems(1) f(1,3) u(1)] by blast
  then show ?case using Cons.IH u(2) f(2,4) Cons.prems(5) by blast
qed

lemma sessions_durable:
  assumes "durable s" and "sessions_fit opn wr leave fits space ns (leave c s)"
  shows "\<exists>s' c'. run_sessions opn wr leave ns (leave c s) = Some (leave c' s') \<and> durable s' \<and>
    view s' = view s ++ map_of (rev (all_blocks ns))"
  using assms
proof (induction ns arbitrary: s c)
  case Nil
  then show ?case by (auto simp: all_blocks_def)
next
  case (Cons n ns)
  have o: "keeps_store (sn_options n)" "heights_ok (sn_blocks n)" using Cons.prems(2) by simp_all
  obtain t where t: "opn (sn_options n) (leave c s) = Some t" "durable t" "view t = view s"
    using reopen [OF Cons.prems(1) o(1)] by blast
  obtain u where u: "write_seq wr (sn_blocks n) t = (Ok (), u)" "fits_seq wr fits (sn_blocks n) t" "space u"
    "sessions_fit opn wr leave fits space ns (leave (sn_closed n) u)"
    using Cons.prems(2) t(1) by (auto split: prod.splits)
  have "durable u" by (rule write_seq_durable [OF t(2) u(1,2) o(2) u(3)])
  moreover have "view u = view s ++ map_of (rev (sn_blocks n))"
    using write_seq_view [OF durable_inv [OF t(2)] u(1,2)] t(3) by simp
  ultimately show ?case
    using Cons.IH [OF _ u(4)] t(1) u(1) by (auto simp: all_blocks_def map_add_assoc)
qed

lemma lives:
  assumes "durable s" and "sessions_fit opn wr leave fits space ns (leave c s)" and "keeps_store p"
  shows "\<exists>w t. run_sessions opn wr leave ns (leave c s) = Some w \<and> opn p w = Some t \<and> durable t \<and>
    view t = view s ++ map_of (rev (all_blocks ns))"
  using sessions_durable [OF assms(1,2)] reopen [OF _ assms(3)] by metis

end

section \<open>The store\<close>

definition leave_store :: "bool \<Rightarrow> store \<Rightarrow> world" where
  "leave_store closed s = (if closed then drop_store s else world_of s)"

definition open_world :: "libs \<Rightarrow> store_options \<Rightarrow> world \<Rightarrow> store option" where
  "open_world L p w = (case open_store L p w of Opened s \<Rightarrow> Some s | Failed e v \<Rightarrow> None | Crashed m v \<Rightarrow> None)"

lemma open_world_Some: "open_world L p w = Some s \<longleftrightarrow> open_store L p w = Opened s"
  by (simp add: open_world_def split: opened.split)

definition durable_store :: "libs \<Rightarrow> store \<Rightarrow> bool" where
  "durable_store L s \<longleftrightarrow> alive s \<and> sound s \<and> (\<exists>cs. journal L s cs)"

lemma durable_store_ok: "durable_store L s \<Longrightarrow> store_ok s"
  by (auto simp: durable_store_def store_ok_def journal_def)

lemma durable_store_ready: "durable_store L s \<Longrightarrow> ready s"
  by (auto simp: durable_store_def ready_def alive_def journal_def)

lemma left_store_reopens:
  assumes d: "durable_store L s" and o: "keeps_store opts"
  obtains t where "open_store L opts (leave_store c s) = Opened t" "durable_store L t"
    "contents L t = contents L s" "data_highwater t = data_highwater s"
    "fs_max_data_file_size t = fs_max_data_file_size s" "index_entry_offset t = index_entry_offset s"
proof -
  obtain cs where j: "journal L s cs" "alive s" "sound s" using d by (auto simp: durable_store_def)
  obtain u cs' where u: "leave_store c s = world_of u" "journal L u cs'" "alive u" "sound u" "same_blocks s u"
  proof (cases c)
    case True
    then show ?thesis
      using drop_store_cases [OF j(1,2)] j(3) that by (simp add: leave_store_def) metis
  next
    case False
    then show ?thesis using j that [of s cs] by (simp add: leave_store_def)
  qed
  obtain t where t: "open_store L opts (world_of u) = Opened t" "ready t" "contents L t = contents L u"
    "data_highwater t = data_highwater u" "sound u \<Longrightarrow> store_ok t" "\<And>K h. peek K t h = peek K u h"
    "alive t" "\<exists>cs'. journal L t cs'"
    "fs_max_data_file_size t = fs_max_data_file_size u" "index_entry_offset t = index_entry_offset u"
    by (rule reopened [OF u(2,3) o]) blast
  have "durable_store L t" using t(5,7,8) u(4) by (simp add: durable_store_def store_ok_def)
  moreover have "contents L u = contents L s" using same_blocks_view(2) [OF u(5)] by (simp add: fun_eq_iff)
  moreover have "fs_max_data_file_size u = fs_max_data_file_size s" "data_highwater u = data_highwater s"
    "index_entry_offset u = index_entry_offset s"
    using u(5) index_entry_offset_header [of u s] by (simp_all add: same_blocks_def)
  ultimately show ?thesis using that [of t] t(1,3,4,9,10) u(1) by simp
qed

lemma written_durable:
  assumes d: "durable_store L s" and f: "acceptable L s b" and h: "unat h < 2 ^ 59"
    and w: "write_block L h b s = (Ok (), t)" and a: "addressable t"
  shows "durable_store L t"
proof -
  obtain cs where j: "journal L s cs" "alive s" "sound s" using d by (auto simp: durable_store_def)
  have "store_ok t" using store_write_view [OF durable_store_ok [OF d] f w] by simp
  moreover have "alive t" by (rule preservesD [OF preserves_alive_write j(2) w])
  ultimately show ?thesis
    using journal_write [OF j(1) f h w a] by (simp add: durable_store_def store_ok_def)
qed

interpretation store_lives: durable_map "write_block L" "read_block L" "contents L" store_ok "acceptable L"
  "open_world L" leave_store "durable_store L" addressable for L
proof
  fix s t :: store and h b c p
  show "durable_store L s \<Longrightarrow> store_ok s" by (rule durable_store_ok)
  show "acceptable L s b \<Longrightarrow> addressable s" by (simp add: acceptable_def)
  show "durable_store L s \<Longrightarrow> acceptable L s b \<Longrightarrow> unat h < 2 ^ 59 \<Longrightarrow> write_block L h b s = (Ok (), t) \<Longrightarrow>
      addressable t \<Longrightarrow> durable_store L t" by (rule written_durable)
  show "\<exists>t. open_world L p (leave_store c s) = Some t \<and> durable_store L t \<and> contents L t = contents L s"
    if "durable_store L s" "keeps_store p"
    using left_store_reopens [OF that] by (metis open_world_Some)
qed

section \<open>The cached store\<close>

text \<open>Leaving a cached store drops the store in it; the cache goes with the process.\<close>

definition leave_cached :: "bool \<Rightarrow> 'c cached_store \<Rightarrow> world" where
  "leave_cached closed s = leave_store closed (cs_inner s)"

definition open_cached :: "'c lru \<Rightarrow> libs \<Rightarrow> store_options \<Rightarrow> world \<Rightarrow> 'c cached_store option" where
  "open_cached Q L p w =
     (case cached_open Q L p w of
        CachedOpened s \<Rightarrow> Some s | CachedFailed e v \<Rightarrow> None | CachedCrashed m v \<Rightarrow> None)"

definition durable_cached :: "'c lru \<Rightarrow> libs \<Rightarrow> 'c cached_store \<Rightarrow> bool" where
  "durable_cached Q L s \<longleftrightarrow> cached_ok Q L s \<and> durable_store L (cs_inner s)"

interpretation cached_lives: durable_map "cached_write_block Q L" "cached_read_block Q L"
  "\<lambda>s. contents L (cs_inner s)" "cached_ok Q L" "cached_fits Q L"
  "open_cached Q L" leave_cached "durable_cached Q L" "\<lambda>s. addressable (cs_inner s)"
  for Q :: "'c lru" and L
proof
  fix s t :: "'c cached_store" and h b c p
  show "durable_cached Q L s \<Longrightarrow> cached_ok Q L s" by (simp add: durable_cached_def)
  show "cached_fits Q L s b \<Longrightarrow> addressable (cs_inner s)" by (simp add: cached_fits_def acceptable_def)
  show "durable_cached Q L t"
    if d: "durable_cached Q L s" and f: "cached_fits Q L s b" and h: "unat h < 2 ^ 59"
      and w: "cached_write_block Q L h b s = (Ok (), t)" and a: "addressable (cs_inner t)"
  proof -
    obtain u where "write_block L h b (cs_inner s) = (Ok (), u)" "cs_inner t = u"
      using w by (cases rule: cached_write_cases) (auto elim: populate_cases)
    then show ?thesis
      using d f h a written_durable [of L "cs_inner s" b h u] cached_write_view [OF _ f w]
      by (simp add: durable_cached_def cached_fits_def)
  qed
  show "\<exists>t. open_cached Q L p (leave_cached c s) = Some t \<and> durable_cached Q L t \<and>
      contents L (cs_inner t) = contents L (cs_inner s)"
    if dc: "durable_cached Q L s" and k: "keeps_store p"
  proof -
    have d: "durable_store L (cs_inner s)" "lru_lawful Q"
      using dc by (simp_all add: durable_cached_def cached_ok_def)
    obtain t where t: "open_store L p (leave_store c (cs_inner s)) = Opened t" "durable_store L t"
      "contents L t = contents L (cs_inner s)"
      by (rule left_store_reopens [OF d(1) k]) blast
    let ?t = "\<lparr>cs_inner = t, cs_cache = lru_new Q (opt_cache_size p)\<rparr>"
    have "durable_cached Q L ?t"
      using t(2) d(2) durable_store_ok [OF t(2)]
      by (simp add: durable_cached_def cached_ok_def coherent_at_def lru_new_peek)
    then show ?thesis
      using t(1,3) by (intro exI [of _ ?t]) (simp add: open_cached_def leave_cached_def cached_open_def)
  qed
qed

section \<open>The properties\<close>

abbreviation store_sessions :: "libs \<Rightarrow> session list \<Rightarrow> world \<Rightarrow> world option" where
  "store_sessions L \<equiv> run_sessions (open_world L) (write_block L) leave_store"

abbreviation store_sessions_fit :: "libs \<Rightarrow> session list \<Rightarrow> world \<Rightarrow> bool" where
  "store_sessions_fit L \<equiv> sessions_fit (open_world L) (write_block L) leave_store (acceptable L) addressable"

abbreviation cached_sessions :: "'c lru \<Rightarrow> libs \<Rightarrow> session list \<Rightarrow> world \<Rightarrow> world option" where
  "cached_sessions Q L \<equiv> run_sessions (open_cached Q L) (cached_write_block Q L) leave_cached"

abbreviation cached_sessions_fit :: "'c lru \<Rightarrow> libs \<Rightarrow> session list \<Rightarrow> world \<Rightarrow> bool" where
  "cached_sessions_fit Q L \<equiv>
     sessions_fit (open_cached Q L) (cached_write_block Q L) leave_cached (cached_fits Q L)
       (\<lambda>s. addressable (cs_inner s))"

lemma fresh_durable:
  assumes "calm w" and "truncates opts" and "new_store_ok (opt_max_data_file_size opts) (opt_minimum_height opts)"
    and "open_store L opts w = Opened s0"
  shows "durable_store L s0" and "contents L s0 = Map.empty"
proof -
  have s0: "s0 = fresh_store opts w" using open_fresh [OF assms(1,2), of L] assms(4) by simp
  then show "durable_store L s0"
    using fresh_alive(1) [OF assms(1)] fresh_blocks(2) [OF assms(1)] fresh_journal [OF assms(1,3)]
    by (auto simp: durable_store_def store_ok_def)
  show "contents L s0 = Map.empty" using fresh_blocks(1) [OF assms(1)] by (simp add: s0)
qed

text \<open>
  C11: any number of lives. A store created by a truncating open of any directory is opened,
  written and left, by \<open>Drop\<close> or by a kill, as often as one likes; then every open on the way
  succeeds, and one more open finds exactly the blocks of all the sessions, at each height the last
  one written.
\<close>

theorem lives_of_a_store:
  assumes "calm w" and "truncates opts" and "new_store_ok (opt_max_data_file_size opts) (opt_minimum_height opts)"
    and "open_store L opts w = Opened s0" and "write_seq (write_block L) ps s0 = (Ok (), s)"
    and "fits_seq (write_block L) (acceptable L) ps s0" and "heights_ok ps" and "addressable s"
    and "store_sessions_fit L ns (leave_store closed s)" and "keeps_store opts'"
  shows "\<exists>v t. store_sessions L ns (leave_store closed s) = Some v \<and> open_store L opts' v = Opened t \<and>
    ready t \<and> store_ok t \<and> contents L t = map_of (rev (ps @ all_blocks ns))"
proof -
  note f = fresh_durable [OF assms(1-4)]
  have d: "durable_store L s" by (rule store_lives.write_seq_durable [OF f(1) assms(5-8)])
  have "contents L s = map_of (rev ps)"
    using store.write_seq_view [OF durable_store_ok [OF f(1)] assms(5,6)] f(2) by simp
  then show ?thesis
    using store_lives.lives [OF d assms(9,10)] durable_store_ready durable_store_ok
    by (auto simp: open_world_Some)
qed

definition later_sessions :: "session list" where
  "later_sessions =
     [\<lparr>sn_options = default_options, sn_blocks = [(9, [4])], sn_closed = False\<rparr>,
      \<lparr>sn_options = default_options, sn_blocks = [], sn_closed = True\<rparr>]"

lemma lived_store_durable: "durable_store plain_libs lived_store"
proof (rule store_lives.write_seq_durable)
  show "durable_store plain_libs (fresh_store created_options old_dir)"
    by (rule fresh_durable(1) [OF old_dir_calm created_options_ok open_fresh [OF old_dir_calm created_options_ok(1)]])
qed (rule lived_store_run)+

text \<open>The next process finds the store ready to take a block at height 9.\<close>

lemma later_write:
  assumes "durable_store plain_libs t" and "data_highwater t = data_highwater lived_store"
    and "fs_max_data_file_size t = fs_max_data_file_size lived_store"
    and "index_entry_offset t = index_entry_offset lived_store"
  obtains u where "write_block plain_libs 9 [4] t = (Ok (), u)" "acceptable plain_libs t [4]" "addressable u"
proof -
  have r: "ready t" by (rule durable_store_ready [OF assms(1)])
  have l: "fs_max_data_file_size lived_store = None" "unat (data_highwater lived_store) = 25"
    "index_entry_offset lived_store 9 = Some 128" by code_simp+
  have "write_request plain_libs t 9 [4] [4] 1 128 23" using assms(4) l(3) by (simp add: write_request_def)
  moreover have "room t (unat (23 :: u64))" using assms(2,3) l(1,2) by (simp add: room_def)
  ultimately obtain u where u: "write_block plain_libs 9 [4] t = (Ok (), u)"
    by (rule write_block_ready [OF r])
  have "fs_inv t" using r by (simp add: ready_def)
  then have "addressable t" "addressable u"
    using write_block_fs_inv(3) [OF u] assms(3) l(1) by (simp_all add: addressable_def)
  then show ?thesis using that [OF u] by (simp add: acceptable_def)
qed

lemma later_sessions_fit: "store_sessions_fit plain_libs later_sessions (leave_store True lived_store)"
proof -
  have k: "keeps_store default_options" by (rule lived_store_run(5))
  obtain t where t: "open_store plain_libs default_options (leave_store True lived_store) = Opened t"
    "durable_store plain_libs t" "data_highwater t = data_highwater lived_store"
    "fs_max_data_file_size t = fs_max_data_file_size lived_store"
    "index_entry_offset t = index_entry_offset lived_store"
    by (rule left_store_reopens [OF lived_store_durable k]) blast
  obtain u where u: "write_block plain_libs 9 [4] t = (Ok (), u)" "acceptable plain_libs t [4]" "addressable u"
    by (rule later_write [OF t(2-5)])
  have "durable_store plain_libs u" by (rule written_durable [OF t(2) u(2) _ u(1,3)]) simp
  then obtain t' where "open_store plain_libs default_options (leave_store False u) = Opened t'"
    "durable_store plain_libs t'" "fs_max_data_file_size t' = fs_max_data_file_size u"
    using k by (rule left_store_reopens) blast
  moreover have "fs_max_data_file_size lived_store = None" by code_simp
  moreover from calculation have "addressable t'"
    using write_block_fs_inv(3) [OF u(1)] durable_store_ready [OF t(2)] t(4)
    by (simp add: ready_def addressable_def)
  ultimately show ?thesis
    using t(1) u k
    by (simp add: open_world_def later_sessions_def heights_ok_def io_bind_def io_simps)
qed

theorem lives_of_a_store_witness:
  "\<exists>v t. store_sessions plain_libs later_sessions (leave_store True lived_store) = Some v \<and>
    open_store plain_libs default_options v = Opened t \<and>
    contents plain_libs t = [7 \<mapsto> [1, 2, 3], 9 \<mapsto> [4]]"
  using lives_of_a_store [OF lived_store_hyps(1-8) later_sessions_fit lived_store_run(5)]
  by (auto simp: later_sessions_def all_blocks_def)


definition cached_start :: "(nat \<times> (u64 \<times> bytes) list) cached_store" where
  "cached_start = \<lparr>cs_inner = fresh_store created_options old_dir, cs_cache = (1024, [])\<rparr>"

definition cached_lived :: "(nat \<times> (u64 \<times> bytes) list) cached_store" where
  "cached_lived = \<lparr>cs_inner = lived_store, cs_cache = (1024, [(7, [1, 2, 3])])\<rparr>"

lemma cached_lived_run:
  "cached_open list_lru plain_libs created_options old_dir = CachedOpened cached_start"
  "write_seq (cached_write_block list_lru plain_libs) [(7, [1, 2, 3])] cached_start = (Ok (), cached_lived)"
  "fits_seq (cached_write_block list_lru plain_libs) (cached_fits list_lru plain_libs) [(7, [1, 2, 3])] cached_start"
proof -
  have n: "opt_cache_size created_options = 1024" by code_simp
  then show "cached_open list_lru plain_libs created_options old_dir = CachedOpened cached_start"
    using open_fresh [OF old_dir_calm created_options_ok(1), of plain_libs]
    by (simp add: cached_open_def cached_start_def list_lru_def)
  have "lru_insert list_lru heap_size 7 [1, 2, 3] (1024, []) = (True, (1024, [(7, [1, 2, 3])]))" by code_simp
  moreover have "write_block plain_libs 7 [1, 2, 3] (fresh_store created_options old_dir) = (Ok (), lived_store)"
    using lived_store_run(1) by (auto elim: io_bind_OkE simp: io_simps)
  ultimately have w: "cached_write_block list_lru plain_libs 7 [1, 2, 3] cached_start = (Ok (), cached_lived)"
    by (simp add: cached_write_block_def on_inner_def populate_def io_bind_def cached_start_def cached_lived_def)
  then show "write_seq (cached_write_block list_lru plain_libs) [(7, [1, 2, 3])] cached_start = (Ok (), cached_lived)"
    by (simp add: io_bind_def io_simps)
  have "acceptable plain_libs (fresh_store created_options old_dir) [1, 2, 3]"
    using lived_store_run(2) by simp
  then show "fits_seq (cached_write_block list_lru plain_libs) (cached_fits list_lru plain_libs) [(7, [1, 2, 3])] cached_start"
    using w by (simp add: cached_fits_def cached_start_def list_lru_cacheable [of _ 1024 "[]"])
qed

lemma later_cached_sessions_fit:
  "cached_sessions_fit list_lru plain_libs later_sessions (leave_cached True cached_lived)"
proof -
  have k: "keeps_store default_options" by (rule lived_store_run(5))
  have n: "opt_cache_size default_options = 1024" by code_simp
  obtain t where t: "open_store plain_libs default_options (leave_store True lived_store) = Opened t"
    "durable_store plain_libs t" "data_highwater t = data_highwater lived_store"
    "fs_max_data_file_size t = fs_max_data_file_size lived_store"
    "index_entry_offset t = index_entry_offset lived_store"
    by (rule left_store_reopens [OF lived_store_durable k]) blast
  obtain u where u: "write_block plain_libs 9 [4] t = (Ok (), u)" "acceptable plain_libs t [4]" "addressable u"
    by (rule later_write [OF t(2-5)])
  have du: "durable_store plain_libs u" by (rule written_durable [OF t(2) u(2) _ u(1,3)]) simp
  then obtain t' where t': "open_store plain_libs default_options (leave_store False u) = Opened t'"
    "fs_max_data_file_size t' = fs_max_data_file_size u"
    using k by (rule left_store_reopens) blast
  have "fs_max_data_file_size lived_store = None" by code_simp
  then have a: "addressable t'"
    using write_block_fs_inv(3) [OF u(1)] durable_store_ready [OF t(2)] t(4) t'(2)
    by (simp add: ready_def addressable_def)
  let ?t = "\<lparr>cs_inner = t, cs_cache = lru_new list_lru (opt_cache_size default_options)\<rparr>"
  obtain ok c where "lru_insert list_lru heap_size 9 [4] (lru_new list_lru (opt_cache_size default_options)) = (ok, c)"
    by (rule prod.exhaust)
  then have "cached_write_block list_lru plain_libs 9 [4] ?t = (Ok (), \<lparr>cs_inner = u, cs_cache = c\<rparr>)"
    using u(1) by (simp add: cached_write_block_def on_inner_def populate_def io_bind_def)
  moreover have "cs_cache ?t = (1024, [])" using n by (simp add: list_lru_def)
  then have "cached_fits list_lru plain_libs ?t [4]"
    using u(2) list_lru_cacheable [of ?t 1024 "[]" "[4]"] by (simp add: cached_fits_def)
  moreover have "open_cached list_lru plain_libs default_options (leave_cached True cached_lived) = Some ?t"
    using t(1) by (simp add: open_cached_def cached_open_def leave_cached_def cached_lived_def)
  ultimately show ?thesis
    using t' a u(3) k
    by (simp add: later_sessions_def heights_ok_def io_bind_def io_simps open_cached_def cached_open_def leave_cached_def)
qed


end
