(* ===== verification/Races.thy ===== *)
theory Races
  imports Cached Journal
begin

text \<open>
  Readers and writers of one cached store, interleaved. A call takes the lock of the cache for a
  lookup or an insertion only, and works on the inner store in between: each of these pieces is a
  step, and any pending call may take the next one. As long as no height is given two different
  blocks every interleaving keeps the cache coherent; when a height is overwritten, a reader that
  is overtaken puts the old block back into the cache.
\<close>

section \<open>The steps of a call\<close>

datatype task =
    Read_at u64
  | Read_missed u64
  | Read_fill u64 bytes
  | Read_done u64 "bytes option res"
  | Write_at u64 bytes
  | Write_fill u64 bytes
  | Write_done u64 bytes "unit res"

fun run_task :: "'c lru \<Rightarrow> libs \<Rightarrow> task \<Rightarrow> 'c cached_store \<Rightarrow> task \<times> 'c cached_store" where
  "run_task Q L (Read_at h) s =
     (case cache_get Q h s of
        (Ok (Some b), t) \<Rightarrow> (Read_done h (Ok (Some b)), t)
      | (Ok None, t) \<Rightarrow> (Read_missed h, t)
      | (r, t) \<Rightarrow> (Read_done h r, t))"
| "run_task Q L (Read_missed h) s =
     (case on_inner (read_block L h) s of
        (Ok (Some b), t) \<Rightarrow> (Read_fill h b, t)
      | (r, t) \<Rightarrow> (Read_done h r, t))"
| "run_task Q L (Read_fill h b) s = (Read_done h (Ok (Some b)), snd (populate Q h b s))"
| "run_task Q L (Read_done h r) s = (Read_done h r, s)"
| "run_task Q L (Write_at h b) s =
     (case on_inner (write_block L h b) s of
        (Ok x, t) \<Rightarrow> (Write_fill h b, t)
      | (r, t) \<Rightarrow> (Write_done h b r, t))"
| "run_task Q L (Write_fill h b) s = (Write_done h b (Ok ()), snd (populate Q h b s))"
| "run_task Q L (Write_done h b r) s = (Write_done h b r, s)"

inductive sched ::
  "'c lru \<Rightarrow> libs \<Rightarrow> 'c cached_store \<times> task list \<Rightarrow> 'c cached_store \<times> task list \<Rightarrow> bool"
  for Q L where
  sched_step: "i < length ts \<Longrightarrow> run_task Q L (ts ! i) s = (k, t) \<Longrightarrow> sched Q L (s, ts) (t, ts[i := k])"

inductive_cases sched_elim: "sched Q L (s, ts) (t, us)"

text \<open>A call that nobody interrupts is the call of \<open>Cached\<close>.\<close>

definition alone :: "'c lru \<Rightarrow> libs \<Rightarrow> task \<times> 'c cached_store \<Rightarrow> task \<times> 'c cached_store" where
  "alone Q L = (\<lambda>(k, s). run_task Q L k s)"

lemma read_alone:
  assumes "cached_read_block Q L h s = (r, t)"
  shows "(alone Q L ^^ 3) (Read_at h, s) = (Read_done h r, t)"
  using assms
  by (auto simp: alone_def numeral_3_eq_3 cached_read_block_def cache_get_def io_bind_def io_simps populate_def
      split: prod.splits option.splits res.splits)

lemma write_alone:
  assumes "cached_write_block Q L h b s = (r, t)"
  shows "(alone Q L ^^ 2) (Write_at h b, s) = (Write_done h b r, t)"
  using assms
  by (auto simp: alone_def numeral_2_eq_2 cached_write_block_def io_bind_def populate_def
      split: prod.splits res.splits)

section \<open>One block for each height\<close>

text \<open>\<open>V\<close> says which block a height may be given; \<open>c\<close> is what the inner store holds.\<close>

fun task_ok :: "(u64 \<rightharpoonup> bytes) \<Rightarrow> libs \<Rightarrow> (u64 \<rightharpoonup> bytes) \<Rightarrow> task \<Rightarrow> bool" where
  "task_ok V L c (Read_fill h b) \<longleftrightarrow> c h = Some b"
| "task_ok V L c (Read_done h r) \<longleftrightarrow> (\<forall>b. r = Ok (Some b) \<longrightarrow> c h = Some b)"
| "task_ok V L c (Write_at h b) \<longleftrightarrow> V h = Some b \<and> storable L b"
| "task_ok V L c (Write_fill h b) \<longleftrightarrow> c h = Some b"
| "task_ok V L c (Write_done h b r) \<longleftrightarrow> (r = Ok () \<longrightarrow> c h = Some b)"
| "task_ok V L c k \<longleftrightarrow> True"

definition fresh_task :: "task \<Rightarrow> bool" where
  "fresh_task k \<longleftrightarrow> (case k of Read_at h \<Rightarrow> True | Write_at h b \<Rightarrow> True | _ \<Rightarrow> False)"

lemma task_ok_mono: "task_ok V L c k \<Longrightarrow> c \<subseteq>\<^sub>m c' \<Longrightarrow> task_ok V L c' k"
  by (cases k) (auto simp: map_le_def dom_def; metis)+

definition race_ok :: "(u64 \<rightharpoonup> bytes) \<Rightarrow> 'c lru \<Rightarrow> libs \<Rightarrow> 'c cached_store \<Rightarrow> bool" where
  "race_ok V Q L s \<longleftrightarrow>
     cached_ok Q L s \<and> ready (cs_inner s) \<and> contents L (cs_inner s) \<subseteq>\<^sub>m V"

lemma populate_keeps:
  assumes s: "race_ok V Q L s" and b: "contents L (cs_inner s) h = Some b"
  shows "race_ok V Q L (snd (populate Q h b s))" and "cs_inner (snd (populate Q h b s)) = cs_inner s"
proof -
  obtain r t where p: "populate Q h b s = (r, t)" by fastforce
  have q: "lru_lawful Q" using s by (simp add: race_ok_def cached_ok_def)
  have i: "cs_inner t = cs_inner s" using p by (auto elim: populate_cases)
  have "coherent_at Q L t x" for x
    using populate_coherent [OF q p] s b by (simp add: race_ok_def cached_ok_def)
  then show "race_ok V Q L (snd (populate Q h b s))" "cs_inner (snd (populate Q h b s)) = cs_inner s"
    using s p i by (simp_all add: race_ok_def cached_ok_def)
qed

lemma write_addressable:
  assumes w: "write_block L h b s = (Ok (), t)" and inv: "fs_inv s" and ad: "addressable t"
  shows "addressable s"
proof -
  from w inv obtain payload len n off new i u fs and slot local :: u64 where
    rs: "reserve_space n s = (Ok (off, new, data_highwater s), s\<lparr>data_highwater := new\<rparr>)" and
    dw: "data_written i (unat local) (serialize (block_header_of L h b len)) payload
       (s\<lparr>data_highwater := new\<rparr>) u" and
    fw: "finish_write h new (log_write IndexFile (unat slot)
       (encode_entry \<lparr>ie_offset = off, ie_size = len, ie_reserved = 0\<rparr>) (u\<lparr>faults := fs\<rparr>)) = (Ok (), t)"
    by (rule write_Ok_commit) blast
  have tn: "data_highwater t = new" "fs_max_data_file_size t = fs_max_data_file_size s"
    using finish_write_bookkeeping(1) [OF fw] dw store_fields(1) [of u "s\<lparr>data_highwater := new\<rparr>"]
    by (simp_all add: bookkeeping_def same_blocks_def data_written_def)
  have "unat (data_highwater s) \<le> unat new" using placed_reserved(2,3) [OF rs inv] by simp
  then have "unat (data_highwater s) div unat c \<le> unat (data_highwater t) div unat c" for c :: u64
    using tn(1) by (simp add: div_le_mono)
  then show ?thesis
    using ad tn(2) le_less_trans unfolding addressable_def by (cases "fs_max_data_file_size s") auto
qed

text \<open>One step, of any task.\<close>

lemma run_task_keeps:
  assumes s: "race_ok V Q L s" and k: "task_ok V L (contents L (cs_inner s)) k"
    and st: "run_task Q L k s = (k', t)" and ad: "addressable (cs_inner t)"
  shows "race_ok V Q L t \<and> task_ok V L (contents L (cs_inner t)) k' \<and>
    contents L (cs_inner s) \<subseteq>\<^sub>m contents L (cs_inner t) \<and> addressable (cs_inner s)"
proof (cases k)
  case (Read_at h)
  obtain x c where g: "lru_get Q h (cs_cache s) = (x, c)" by fastforce
  have "lru_lawful Q" using s by (simp add: race_ok_def cached_ok_def)
  then have c: "x = lru_peek Q (cs_cache s) h" "lru_peek Q c = lru_peek Q (cs_cache s)"
    using lru_get_peek [OF _ g] by blast+
  have t: "t = s\<lparr>cs_cache := c\<rparr>" using st g Read_at by (auto simp: cache_get_def split: option.splits)
  then have "race_ok V Q L t" using s c(2) by (simp add: race_ok_def cached_ok_def coherent_at_def)
  moreover have "task_ok V L (contents L (cs_inner s)) k'"
    using st g Read_at c(1) s
    by (auto simp: cache_get_def race_ok_def cached_ok_def coherent_at_def split: option.splits)
  ultimately show ?thesis using t ad by simp
next
  case (Read_missed h)
  have so: "store_ok (cs_inner s)" "ready (cs_inner s)" using s by (simp_all add: race_ok_def cached_ok_def)
  obtain u where r: "read_block L h (cs_inner s) = (peek L (cs_inner s) h, u)" "same_files (cs_inner s) u" "ready u"
    using so(2) by (rule read_block_ready)
  note keep = store.rd_keeps [OF so(1) r(1)]
  have t: "t = s\<lparr>cs_inner := u\<rparr>"
    using st r(1) Read_missed by (auto simp: on_inner_def split: res.splits option.splits)
  have "race_ok V Q L t"
    using s keep r(3) t by (simp add: race_ok_def cached_ok_def coherent_at_def)
  moreover have "task_ok V L (contents L (cs_inner s)) k'"
    using st r(1) Read_missed by (auto simp: on_inner_def contents_def split: res.splits option.splits)
  moreover have "addressable (cs_inner s)"
    using ad t r(2) store_fields(1) [of u "cs_inner s"] by (simp add: same_files_def addressable_def split: option.splits)
  ultimately show ?thesis using keep t by simp
next
  case (Read_fill h b)
  then show ?thesis using populate_keeps [OF s, of h b] k st ad by auto
next
  case (Read_done h r)
  then show ?thesis using assms by auto
next
  case (Write_at h b)
  have V: "V h = Some b" "storable L b" using k Write_at by simp_all
  have so: "store_ok (cs_inner s)" "ready (cs_inner s)" "\<And>x. coherent_at Q L s x" "lru_lawful Q"
    "contents L (cs_inner s) \<subseteq>\<^sub>m V"
    using s by (simp_all add: race_ok_def cached_ok_def)
  obtain r u where w: "write_block L h b (cs_inner s) = (r, u)" by fastforce
  note rw = ready_write_cases [OF so(2) w]
  have t: "t = s\<lparr>cs_inner := u\<rparr>" "k' = (if r = Ok () then Write_fill h b else Write_done h b r)"
    using st w Write_at by (auto simp: on_inner_def split: res.splits)
  show ?thesis
  proof (cases "r = Ok ()")
    case True
    have a: "addressable (cs_inner s)"
      using write_addressable [of L h b "cs_inner s" u] w True ad t(1) so(2) by (simp add: ready_def)
    then have "acceptable L (cs_inner s) b" using V(2) by (simp add: acceptable_def storable_def)
    then have v: "contents L u = (contents L (cs_inner s))(h \<mapsto> b)" "store_ok u"
      using store.wr_view [OF so(1)] w True by blast+
    have le: "contents L (cs_inner s) \<subseteq>\<^sub>m contents L u"
      using so(5) V(1) v(1) by (auto simp: map_le_def dom_def)
    have "race_ok V Q L t"
      using so v rw t(1) V(1) le by (auto simp: race_ok_def cached_ok_def coherent_at_def map_le_def dom_def)
    then show ?thesis using t v(1) True le a by simp
  next
    case False
    then have "u = cs_inner s" using rw by simp
    then show ?thesis using s t ad False by simp
  qed
next
  case (Write_fill h b)
  then show ?thesis using populate_keeps [OF s, of h b] k st ad by auto
next
  case (Write_done h b r)
  then show ?thesis using assms by auto
qed

lemma sched_keeps:
  assumes "sched Q L (s, ts) (t, us)" and "race_ok V Q L s"
    and "\<forall>k \<in> set ts. task_ok V L (contents L (cs_inner s)) k" and "addressable (cs_inner t)"
  shows "race_ok V Q L t \<and> (\<forall>k \<in> set us. task_ok V L (contents L (cs_inner t)) k) \<and> addressable (cs_inner s)"
proof -
  obtain i k where st: "us = ts[i := k]" "i < length ts" "run_task Q L (ts ! i) s = (k, t)"
    using assms(1) by (auto elim: sched_elim)
  note r = run_task_keeps [OF assms(2) _ st(3) assms(4)]
  have "task_ok V L (contents L (cs_inner s)) (ts ! i)" using assms(3) st(2) by simp
  note r = r [OF this]
  have "task_ok V L (contents L (cs_inner t)) x" if "x \<in> set ts" for x
    using that assms(3) r task_ok_mono by blast
  then show ?thesis using r st(1) set_update_subset_insert [of ts i k] by auto
qed

lemma run_task_ready:
  assumes s: "ready (cs_inner s)" and st: "run_task Q L k s = (k', t)"
  shows "ready (cs_inner t) \<and> (addressable (cs_inner t) \<longrightarrow> addressable (cs_inner s))"
proof -
  have p: "cs_inner (snd (populate Q h b s)) = cs_inner s" for h b
    by (simp add: populate_def split: prod.split)
  have g: "cs_inner t = cs_inner s" if "cache_get Q h s = (r, t)" for h r t
    using that by (auto simp: cache_get_def split: prod.splits)
  have r: "ready v \<and> (addressable v \<longleftrightarrow> addressable (cs_inner s))"
    if "read_block L h (cs_inner s) = (q, v)" for h q v
  proof -
    obtain u where u: "read_block L h (cs_inner s) = (peek L (cs_inner s) h, u)" "same_files (cs_inner s) u" "ready u"
      using s by (rule read_block_ready)
    then have "addressable u \<longleftrightarrow> addressable (cs_inner s)"
      using store_fields(1) [of u "cs_inner s"] by (simp add: same_files_def addressable_def split: option.splits)
    then show ?thesis using u that by simp
  qed
  have w: "ready v \<and> (addressable v \<longrightarrow> addressable (cs_inner s))"
    if "write_block L h b (cs_inner s) = (q, v)" for h b q v
    using ready_write_cases [OF s that] write_addressable that s by (auto simp: ready_def)
  show ?thesis
    using st s p g r w
    by (cases k) (auto simp: on_inner_def split: prod.splits res.splits option.splits)
qed

lemma scheduled_keeps:
  assumes "(sched Q L)\<^sup>*\<^sup>* (s, ts) (t, us)" and "race_ok V Q L s"
    and "\<forall>k \<in> set ts. task_ok V L (contents L (cs_inner s)) k"
  shows "ready (cs_inner t) \<and>
    (addressable (cs_inner t) \<longrightarrow>
       race_ok V Q L t \<and> (\<forall>k \<in> set us. task_ok V L (contents L (cs_inner t)) k))"
  using assms(1)
proof (induction "(t, us)" arbitrary: t us rule: rtranclp_induct)
  case base
  then show ?case using assms(2,3) by (simp add: race_ok_def)
next
  case (step x)
  obtain m ms where x: "x = (m, ms)" by fastforce
  note ih = step.hyps(3) [OF x]
  obtain i k where st: "run_task Q L (ms ! i) m = (k, t)"
    using step.hyps(2) x by (auto elim: sched_elim)
  have r: "ready (cs_inner m)" using ih by blast
  note rt = run_task_ready [OF r st]
  show ?case
  proof (cases "addressable (cs_inner t)")
    case True
    then have "race_ok V Q L m" "\<forall>k \<in> set ms. task_ok V L (contents L (cs_inner m)) k"
      using rt ih by blast+
    then show ?thesis using sched_keeps [of Q L m ms t us V] step.hyps(2) x True rt by simp
  qed (use rt in simp)
qed

section \<open>The properties\<close>


text \<open>Steps of chosen tasks, as a path of \<open>sched\<close>.\<close>

fun run_schedule :: "'c lru \<Rightarrow> libs \<Rightarrow> nat list \<Rightarrow> 'c cached_store \<times> task list \<Rightarrow> 'c cached_store \<times> task list" where
  "run_schedule Q L [] st = st"
| "run_schedule Q L (i # is) (s, ts) =
     (case run_task Q L (ts ! i) s of (k, t) \<Rightarrow> run_schedule Q L is (t, ts[i := k]))"

lemma run_schedule_sched:
  "\<forall>i \<in> set is. i < length ts \<Longrightarrow> (sched Q L)\<^sup>*\<^sup>* (s, ts) (run_schedule Q L is (s, ts))"
proof (induction "is" arbitrary: s ts)
  case (Cons i "is")
  obtain k t where r: "run_task Q L (ts ! i) s = (k, t)" by fastforce
  then have "sched Q L (s, ts) (t, ts[i := k])" using Cons.prems by (intro sched_step) simp_all
  moreover have "(sched Q L)\<^sup>*\<^sup>* (t, ts[i := k]) (run_schedule Q L is (t, ts[i := k]))"
    using Cons by simp
  ultimately show ?case using r by simp
qed simp

definition racing_tasks :: "task list" where
  "racing_tasks = [Read_at 7, Write_at 9 [4, 5], Read_at 9]"


text \<open>
  The condition is needed: a reader that has taken the old block from the store when the height is
  overwritten puts it into the cache behind the writer, and later reads return it.
\<close>

theorem overtaken_read_goes_stale:
  "case run_schedule list_lru plain_libs [0, 0, 1, 1, 0] (cold_cache, [Read_at 7, Write_at 7 [4, 5]]) of
     (t, us) \<Rightarrow> us = [Read_done 7 (Ok (Some [1, 2, 3])), Write_done 7 [4, 5] (Ok ())] \<and>
       fst (cached_read_block list_lru plain_libs 7 t) = Ok (Some [1, 2, 3]) \<and>
       fst (read_block plain_libs 7 (cs_inner t)) = Ok (Some [4, 5])"
  by code_simp

end
