(* ===== verification/Calls.thy ===== *)
theory Calls
  imports FloorScan Allocation
begin

text \<open>
  The calls of several threads on one store, interleaved. A \<open>Store\<close> is shared by reference and
  locks nothing but the high-water mark and the cache of open files, so a call is cut at every
  access to what it shares: the reservation and its release under the mutex of the mark, the lookup
  of a file under the mutex of the cache (a miss takes the mutex again and looks once more before it
  opens the file, so it takes effect there), each positional read and write of a file, each
  operation on an atomic. A checkpoint is one step. Accesses are taken to be sequentially consistent.

  A thread keeps the handle it was given until its file operations are over. A handle that is
  evicted from the cache in the meantime stays open, and keeps the lock of its file.
\<close>

section \<open>Handles held by threads\<close>

text \<open>
  \<open>held\<close> are the descriptors other threads hold. \<open>pin\<close> restores the locks of those a change of the
  cache let go of; \<open>drop_handle\<close> is the end of a reference.
\<close>

definition pin :: "nat list \<Rightarrow> 'z world_scheme \<Rightarrow> 'z world_scheme \<Rightarrow> 'z world_scheme" where
  "pin held s t =
     t\<lparr>locks := locks t @ filter (\<lambda>(f, n). n \<in> set held \<and> (f, n) \<notin> set (locks t)) (locks s)\<rparr>"

definition pinned_resolve ::
  "nat list \<Rightarrow> u64 \<Rightarrow> ('z fset_scheme, handle \<times> u64 \<times> u32) io" where
  "pinned_resolve held off s = (case fs_resolve off s of (r, t) \<Rightarrow> (r, pin held s t))"

definition drop_handle :: "nat list \<Rightarrow> handle \<Rightarrow> 'z fset_scheme \<Rightarrow> 'z fset_scheme" where
  "drop_handle held h s =
     (if fd h \<in> set held \<or> fd h \<in> fd ` snd ` set (handles (fs_inner s)) then s
      else close_fd (fd h) s)"

section \<open>The steps of a call\<close>

text \<open>What a writer knows from its reservation on.\<close>

record pending =
  w_height :: u64
  w_block :: bytes
  w_slot :: u64
  w_payload :: bytes
  w_len :: u32
  w_header :: block_header
  w_offset :: u64
  w_end :: u64
  w_prev :: u64

definition begin_write :: "libs \<Rightarrow> u64 \<Rightarrow> bytes \<Rightarrow> ('z store_scheme, pending) io" where
  "begin_write L height block =
     (if block = [] then fail InvalidInput ''Block is empty''
      else
        io_bind (ok_or (u32_of_len (length block)) InvalidInput ''Block too large'') (\<lambda>_.
        io_bind (lift_res (compress L block)) (\<lambda>compressed_block.
        io_bind (expect (u32_of_len (length compressed_block)) try_from_int_error)
          (\<lambda>compressed_block_len.
        io_bind (gets (\<lambda>s. index_entry_offset s height)) (\<lambda>o'.
        io_bind (ok_or o' InvalidInput ''Invalid block height'') (\<lambda>index_offset.
        io_bind (expect (checked_add (u64_of_len (length compressed_block))
                           (u64_of_len SERIALIZED_SIZE))
                   ''blocks will never be so large as to overflow u64'') (\<lambda>size_with_header.
        let hdr = \<lparr>bh_height = height, bh_size = compressed_block_len,
                   bh_checksum = xxh64 L block 0, bh_version = BLOCK_ENTRY_VERSION\<rparr>
        in
          io_bind (reserve_space size_with_header)
            (\<lambda>(offset, saved_offset, previous_highwater).
          ret \<lparr>w_height = height, w_block = block, w_slot = index_offset,
               w_payload = compressed_block, w_len = compressed_block_len, w_header = hdr,
               w_offset = offset, w_end = saved_offset, w_prev = previous_highwater\<rparr>))))))))"

definition entry_of :: "pending \<Rightarrow> index_entry" where
  "entry_of p = \<lparr>ie_offset = w_offset p, ie_size = w_len p, ie_reserved = 0\<rparr>"

definition fetch_block ::
  "libs \<Rightarrow> index_entry \<Rightarrow> handle \<Rightarrow> u64 \<Rightarrow> ('z store_scheme, bytes option) io" where
  "fetch_block L entry data_file local_offset =
     io_bind (expect (checked_add (ucast (ie_size entry)) (u64_of_len SERIALIZED_SIZE))
                ''block size overflow'') (\<lambda>read_size.
     io_bind (read_exact_at (hfile data_file) (unat read_size) local_offset) (\<lambda>buf.
     io_bind (deserialize (take SERIALIZED_SIZE buf)) (\<lambda>hdr.
     if bh_size hdr \<noteq> ie_size entry
     then fail InvalidData ''block size in index file does not match data''
     else
       io_bind (lift_res (decompress L (drop SERIALIZED_SIZE buf))) (\<lambda>block.
       if xxh64 L block 0 \<noteq> bh_checksum hdr
       then fail InvalidData ''checksum mismatch''
       else ret (Some block)))))"

text \<open>
  The point a call has reached. A writer is to look up its file (\<open>Reserved\<close>), write the payload
  (\<open>Located\<close>), the header (\<open>Payload_down\<close>), sync (\<open>Header_down\<close>), enter the block into the index
  (\<open>Landed\<close>), or give its space back (\<open>Failing\<close>); then to raise the contiguity counter to its
  height (\<open>Indexed\<close>), to read the entry after \<open>cur\<close> (\<open>Raised\<close>) and raise the counter past \<open>cur\<close>
  (\<open>Seen\<close>), to raise the high-water mark of heights (\<open>Settled\<close>), to checkpoint (\<open>Tipped\<close>).
\<close>

datatype call =
    Write_call u64 bytes
  | Reserved pending
  | Located pending handle u64
  | Payload_down pending handle u64
  | Header_down pending handle
  | Failing pending err
  | Landed pending
  | Indexed pending
  | Raised pending u64
  | Seen pending u64
  | Settled pending
  | Tipped pending bool
  | Wrote u64 bytes "unit res"
  | Read_call u64
  | Found u64 index_entry
  | Fetching u64 index_entry handle u64
  | Read u64 "bytes option res"

fun step_call :: "libs \<Rightarrow> nat list \<Rightarrow> call \<Rightarrow> 'z store_scheme \<Rightarrow> call \<times> 'z store_scheme" where
  "step_call L held (Write_call h b) s =
     (case begin_write L h b s of
        (Ok p, t) \<Rightarrow> (Reserved p, t)
      | (Err e, t) \<Rightarrow> (Wrote h b (Err e), t)
      | (Panic m, t) \<Rightarrow> (Wrote h b (Panic m), t))"
| "step_call L held (Reserved p) s =
     (case pinned_resolve held (w_offset p) s of
        (Ok (f, local, i), t) \<Rightarrow> (Located p f local, t)
      | (Err e, t) \<Rightarrow> (Failing p e, t)
      | (Panic m, t) \<Rightarrow> (Wrote (w_height p) (w_block p) (Panic m), t))"
| "step_call L held (Located p f local) s =
     (case write_all_at (hfile f) (w_payload p) (local + u64_of_len SERIALIZED_SIZE) s of
        (Ok x, t) \<Rightarrow> (Payload_down p f local, t)
      | (Err e, t) \<Rightarrow> (Failing p e, drop_handle held f t)
      | (Panic m, t) \<Rightarrow> (Wrote (w_height p) (w_block p) (Panic m), t))"
| "step_call L held (Payload_down p f local) s =
     (case write_all_at (hfile f) (serialize (w_header p)) local s of
        (Ok x, t) \<Rightarrow> (Header_down p f, t)
      | (Err e, t) \<Rightarrow> (Failing p e, drop_handle held f t)
      | (Panic m, t) \<Rightarrow> (Wrote (w_height p) (w_block p) (Panic m), t))"
| "step_call L held (Header_down p f) s =
     (case (if sync s = Sync then sync_all (hfile f) else ret ()) s of
        (Ok x, t) \<Rightarrow> (Landed p, drop_handle held f t)
      | (Err e, t) \<Rightarrow> (Failing p e, drop_handle held f t)
      | (Panic m, t) \<Rightarrow> (Wrote (w_height p) (w_block p) (Panic m), t))"
| "step_call L held (Failing p e) s =
     (Wrote (w_height p) (w_block p) (Err e), release_reservation (w_prev p) (w_end p) s)"
| "step_call L held (Landed p) s =
     (case update_index_at (w_slot p) (entry_of p) s of
        (Ok x, t) \<Rightarrow> (Indexed p, t)
      | (r, t) \<Rightarrow> (Wrote (w_height p) (w_block p) r, t))"
| "step_call L held (Indexed p) s =
     (if max_contiguous_height s = saturating_sub (w_height p) 1
      then (Raised p (saturating_sub (w_height p) 1 + 1), s\<lparr>max_contiguous_height := w_height p\<rparr>)
      else (Settled p, s))"
| "step_call L held (Raised p cur) s =
     (case read_index_entry (cur + 1) s of
        (Ok (Some entry), t) \<Rightarrow> if zero_entry entry then (Settled p, t) else (Seen p cur, t)
      | (r, t) \<Rightarrow> (Settled p, t))"
| "step_call L held (Seen p cur) s =
     (if max_contiguous_height s = cur
      then (Raised p (cur + 1), s\<lparr>max_contiguous_height := cur + 1\<rparr>)
      else (Settled p, s))"
| "step_call L held (Settled p) s =
     (case update_highwater (w_height p) s of
        (Ok tip_rose, t) \<Rightarrow> (Tipped p tip_rose, t)
      | (Err e, t) \<Rightarrow> (Wrote (w_height p) (w_block p) (Err e), t)
      | (Panic m, t) \<Rightarrow> (Wrote (w_height p) (w_block p) (Panic m), t))"
| "step_call L held (Tipped p tip_rose) s =
     (case maybe_checkpoint (w_height p) tip_rose (w_end p) s of
        (r, t) \<Rightarrow> (Wrote (w_height p) (w_block p) r, t))"
| "step_call L held (Wrote h b r) s = (Wrote h b r, s)"
| "step_call L held (Read_call h) s =
     (case read_index_entry h s of
        (Ok None, t) \<Rightarrow> (Read h (Ok None), t)
      | (Ok (Some entry), t) \<Rightarrow>
          if ie_size entry = 0 then (Read h (Ok None), t)
          else if MAX_BLOCK_SIZE < ie_size entry
          then (Read h (Err (Error InvalidData ''block size too large'')), t)
          else (Found h entry, t)
      | (Err e, t) \<Rightarrow> (Read h (Err e), t)
      | (Panic m, t) \<Rightarrow> (Read h (Panic m), t))"
| "step_call L held (Found h entry) s =
     (case pinned_resolve held (ie_offset entry) s of
        (Ok (f, local, i), t) \<Rightarrow> (Fetching h entry f local, t)
      | (Err e, t) \<Rightarrow> (Read h (Err e), t)
      | (Panic m, t) \<Rightarrow> (Read h (Panic m), t))"
| "step_call L held (Fetching h entry f local) s =
     (case fetch_block L entry f local s of (r, t) \<Rightarrow> (Read h r, drop_handle held f t))"
| "step_call L held (Read h r) s = (Read h r, s)"

fun handle_of :: "call \<Rightarrow> handle option" where
  "handle_of (Located p f local) = Some f"
| "handle_of (Payload_down p f local) = Some f"
| "handle_of (Header_down p f) = Some f"
| "handle_of (Fetching h entry f local) = Some f"
| "handle_of c = None"

definition held_by :: "call list \<Rightarrow> nat list" where
  "held_by cs = [fd f. c \<leftarrow> cs, Some f \<leftarrow> [handle_of c]]"

section \<open>Interleavings\<close>

text \<open>
  Any call may take the next step. The last component is the history: the blocks in the order in
  which their index entries were written.
\<close>

definition published :: "call \<Rightarrow> call \<Rightarrow> (u64 \<times> bytes) list" where
  "published c k =
     (case (c, k) of (Landed p, Indexed q) \<Rightarrow> [(w_height p, w_block p)] | _ \<Rightarrow> [])"

type_synonym 'z calls = "'z store_scheme \<times> call list \<times> (u64 \<times> bytes) list"

inductive calls_step :: "libs \<Rightarrow> 'z calls \<Rightarrow> 'z calls \<Rightarrow> bool" for L where
  step: "i < length cs \<Longrightarrow> step_call L (held_by (cs[i := Read 0 (Ok None)])) (cs ! i) s = (k, t) \<Longrightarrow>
     calls_step L (s, cs, hist) (t, cs[i := k], published (cs ! i) k @ hist)"

inductive_cases calls_stepE: "calls_step L (s, cs, hist) (t, ds, hist')"

text \<open>Steps of chosen calls, in order.\<close>

fun run_calls :: "libs \<Rightarrow> nat list \<Rightarrow> 'z calls \<Rightarrow> 'z calls" where
  "run_calls L [] st = st"
| "run_calls L (i # is) (s, cs, hist) =
     (case step_call L (held_by (cs[i := Read 0 (Ok None)])) (cs ! i) s of
        (k, t) \<Rightarrow> run_calls L is (t, cs[i := k], published (cs ! i) k @ hist))"

lemma run_calls_steps:
  "\<forall>i \<in> set is. i < length cs \<Longrightarrow> (calls_step L)\<^sup>*\<^sup>* (s, cs, hist) (run_calls L is (s, cs, hist))"
proof (induction "is" arbitrary: s cs hist)
  case (Cons i "is")
  obtain k t where r: "step_call L (held_by (cs[i := Read 0 (Ok None)])) (cs ! i) s = (k, t)" by fastforce
  then have "calls_step L (s, cs, hist) (t, cs[i := k], published (cs ! i) k @ hist)"
    using Cons.prems by (intro step) simp_all
  moreover have "(calls_step L)\<^sup>*\<^sup>* (t, cs[i := k], published (cs ! i) k @ hist)
      (run_calls L is (t, cs[i := k], published (cs ! i) k @ hist))"
    using Cons by simp
  ultimately show ?case using r by simp
qed simp

section \<open>A call nobody interrupts\<close>

lemma io_bind_assoc: "io_bind (io_bind m f) g s = io_bind m (\<lambda>x. io_bind (f x) g) s"
  by (simp add: io_bind_def split: prod.split res.split)

text \<open>A write is its reservation and the rest.\<close>

definition rest_of_write :: "pending \<Rightarrow> ('z store_scheme, unit) io" where
  "rest_of_write p =
     io_bind (on_err (write_data (w_offset p) (w_payload p) (w_header p))
                (release_reservation (w_prev p) (w_end p))) (\<lambda>_.
     io_bind (update_index_at (w_slot p) (entry_of p)) (\<lambda>_.
     finish_write (w_height p) (w_end p)))"

lemma write_block_begin: "write_block L h b s = io_bind (begin_write L h b) rest_of_write s"
  unfolding write_block_def begin_write_def
  by (cases "compress L b") (auto simp: io_bind_assoc rest_of_write_def entry_of_def finish_write_def Let_def io_simps
      intro!: io_bind_cong split: prod.split)

lemma read_block_fetch:
  "read_block L h s =
     io_bind (read_index_entry h) (\<lambda>found.
     case found of
       None \<Rightarrow> ret None
     | Some entry \<Rightarrow>
         if ie_size entry = 0 then ret None
         else if MAX_BLOCK_SIZE < ie_size entry then fail InvalidData ''block size too large''
         else io_bind (fs_resolve (ie_offset entry)) (\<lambda>(f, local, _). fetch_block L entry f local)) s"
proof -
  have *: "io_bind (expect x m) (\<lambda>n. io_bind a (\<lambda>(f, l, j). k n f l)) s =
      io_bind a (\<lambda>(f, l, j). io_bind (expect x m) (\<lambda>n. k n f l)) s" if "x \<noteq> None"
    for x m and a :: "('z store_scheme, handle \<times> u64 \<times> u32) io" and k s
    using that by (auto simp: expect_def io_bind_ret intro!: io_bind_cong)
  have "checked_add (ucast (ie_size e)) (u64_of_len SERIALIZED_SIZE) \<noteq> None" for e
    using read_size_exists [of "ie_size e"] by auto
  from * [OF this] show ?thesis
    by (auto simp: read_block_def fetch_block_def intro!: io_bind_cong split: option.split)
qed

definition alone :: "libs \<Rightarrow> call \<times> 'z store_scheme \<Rightarrow> call \<times> 'z store_scheme" where
  "alone L = (\<lambda>(c, s). step_call L [] c s)"

definition leads :: "libs \<Rightarrow> call \<times> 'z store_scheme \<Rightarrow> call \<times> 'z store_scheme \<Rightarrow> bool" where
  "leads L x y \<longleftrightarrow> (\<exists>n. (alone L ^^ n) x = y)"

lemma leads_refl [simp]: "leads L x x"
  unfolding leads_def by (rule exI [of _ 0]) simp

lemma leads_step: "leads L (step_call L [] c s) y \<Longrightarrow> leads L (c, s) y"
  unfolding leads_def by (metis alone_def case_prod_conv comp_apply funpow_Suc_right)

lemma leads_trans: "leads L x y \<Longrightarrow> leads L y z \<Longrightarrow> leads L x z"
  unfolding leads_def by (metis comp_apply funpow_add)

lemma pin_nobody [simp]: "pin [] s t = t"
  by (simp add: pin_def)

lemma pinned_resolve_nobody [simp]: "pinned_resolve [] off = fs_resolve off"
  by (simp add: pinned_resolve_def fun_eq_iff split: prod.split)

text \<open>The handle a thread has just been given is in the cache.\<close>

definition cached_handle :: "handle \<Rightarrow> 'z fset_scheme \<Rightarrow> bool" where
  "cached_handle f s \<longleftrightarrow> f \<in> snd ` set (handles (fs_inner s))"

lemma cached_handle_keep: "cached_handle f s \<Longrightarrow> drop_handle held f s = s"
  by (auto simp: cached_handle_def drop_handle_def)

lemma fs_resolve_cached:
  assumes "fs_resolve off s = (Ok (f, local, i), t)" and "fs_inv s" shows "cached_handle f t"
proof -
  have lru: "lru_inv (fs_inner s)" using assms(2) by (simp add: fs_inv_def)
  obtain j where g: "get_or_open j s = (Ok f, t)"
    using assms(1) by (auto simp: fs_resolve_eq io_bind_Ok_iff io_simps split: prod.splits)
  have "inner_lookup (fs_inner t) j = Some f"
    using g by (cases rule: get_or_open_cases)
      (simp_all add: set_inner_eq inner_lookup_insert_same lru)
  then show ?thesis using lookup_in_handles by (force simp: cached_handle_def)
qed

lemma cached_handle_cong: "fs_inner t = fs_inner s \<Longrightarrow> cached_handle f t = cached_handle f s"
  by (simp add: cached_handle_def)

lemma cached_handle_write_all_at:
  "write_all_at g bs off s = (r, t) \<Longrightarrow> cached_handle f t = cached_handle f s"
  by (auto intro!: cached_handle_cong elim!: write_all_at_cases)

lemma cached_handle_sync_all:
  "sync_all g s = (r, t) \<Longrightarrow> cached_handle f t = cached_handle f s"
  by (auto intro!: cached_handle_cong elim!: sync_all_cases)

text \<open>The file operations of a writer.\<close>

lemma write_data_alone:
  assumes w: "write_data (w_offset p) (w_payload p) (w_header p) s = (r, t)" and inv: "fs_inv s"
  shows "r = Ok () \<Longrightarrow> leads L (Reserved p, s) (Landed p, t)"
    and "r = Err e \<Longrightarrow> leads L (Reserved p, s) (Failing p e, t)"
    and "r = Panic m \<Longrightarrow> leads L (Reserved p, s) (Wrote (w_height p) (w_block p) (Panic m), t)"
proof -
  let ?out = "case r of Ok x \<Rightarrow> Landed p | Err e \<Rightarrow> Failing p e | Panic m \<Rightarrow> Wrote (w_height p) (w_block p) (Panic m)"
  have "leads L (Reserved p, s) (?out, t)"
  proof (rule leads_step, cases "fs_resolve (w_offset p) s")
    case rs: (Pair r1 s1)
    show "leads L (step_call L [] (Reserved p) s) (?out, t)"
    proof (cases r1)
      case (Ok x)
      obtain f local i where x: "x = (f, local, i)" by (cases x)
      note rs = rs [unfolded Ok x]
      note c = fs_resolve_cached [OF rs inv]
      obtain r2 s2 where p1: "write_all_at (hfile f) (w_payload p) (local + u64_of_len SERIALIZED_SIZE) s1 = (r2, s2)"
        by fastforce
      obtain r3 s3 where p2: "write_all_at (hfile f) (serialize (w_header p)) local s2 = (r3, s3)" by fastforce
      obtain r4 s4 where p3: "(if sync s3 = Sync then sync_all (hfile f) else ret ()) s3 = (r4, s4)" by fastforce
      have c2: "cached_handle f s2" using c cached_handle_write_all_at [OF p1] by simp
      have c3: "cached_handle f s3" using c2 cached_handle_write_all_at [OF p2] by simp
      have c4: "cached_handle f s4"
        using c3 p3 cached_handle_sync_all [of "hfile f" s3 r4 s4 f] by (auto simp: io_simps split: if_splits)
      have wd: "(r, t) = (case r2 of Ok x \<Rightarrow> (case r3 of Ok x \<Rightarrow> (r4, s4)
          | Err e \<Rightarrow> (Err e, s3) | Panic m \<Rightarrow> (Panic m, s3))
          | Err e \<Rightarrow> (Err e, s2) | Panic m \<Rightarrow> (Panic m, s2))"
        unfolding w [symmetric] write_data_def
        by (cases r2; cases r3) (simp_all add: io_bind_def io_simps rs p1 p2 p3)
      have "leads L (Located p f local, s1) (?out, t)"
      proof (rule leads_step, cases r2)
        case (Ok x)
        have "leads L (Payload_down p f local, s2) (?out, t)"
        proof (rule leads_step, cases r3)
          case Ok3: (Ok y)
          have "leads L (Header_down p f, s3) (?out, t)"
            by (rule leads_step) (use wd Ok Ok3 p3 cached_handle_keep [OF c4] in \<open>simp split: res.split\<close>)
          then show "leads L (step_call L [] (Payload_down p f local) s2) (?out, t)"
            using p2 Ok3 by simp
        qed (use wd Ok p2 cached_handle_keep [OF c3] in simp_all)
        then show "leads L (step_call L [] (Located p f local) s1) (?out, t)" using p1 Ok by simp
      qed (use wd p1 cached_handle_keep [OF c2] in simp_all)
      then show ?thesis using rs by simp
    qed (use w rs in \<open>auto simp: write_data_def io_bind_def\<close>)
  qed
  then show "r = Ok () \<Longrightarrow> leads L (Reserved p, s) (Landed p, t)"
    "r = Err e \<Longrightarrow> leads L (Reserved p, s) (Failing p e, t)"
    "r = Panic m \<Longrightarrow> leads L (Reserved p, s) (Wrote (w_height p) (w_block p) (Panic m), t)" by simp_all
qed

text \<open>The counters.\<close>

lemma cascade_alone: "leads L (Raised p cur, s) (Settled p, cascade cur s)"
proof (induction cur s rule: cascade.induct)
  case (1 cur s)
  obtain r t where rd: "read_index_entry (cur + 1) s = (r, t)" by fastforce
  show ?case
  proof (cases "\<exists>e. r = Ok (Some e) \<and> \<not> zero_entry e")
    case False
    then show ?thesis
      by (intro leads_step) (use rd in \<open>auto simp: cascade.simps [of cur s] split: res.split option.split\<close>)
  next
    case True
    then obtain e where e: "r = Ok (Some e)" "\<not> zero_entry e" by blast
    let ?t = "t\<lparr>max_contiguous_height := cur + 1\<rparr>"
    have "leads L (Seen p cur, t) (Settled p, cascade cur s)"
    proof (rule leads_step, cases "max_contiguous_height t = cur")
      case c: True
      then show "leads L (step_call L [] (Seen p cur) t) (Settled p, cascade cur s)"
        using 1 [OF rd [symmetric] e(1) refl e(2)] rd e by (simp add: cascade.simps [of cur s])
    qed (use rd e in \<open>simp add: cascade.simps [of cur s]\<close>)
    then show ?thesis by (intro leads_step) (use rd e in simp)
  qed
qed

lemma finish_alone:
  assumes f: "finish_write (w_height p) (w_end p) s = (r, t)"
  shows "leads L (Indexed p, s) (Wrote (w_height p) (w_block p) r, t)"
proof -
  let ?u = "advance_max_contiguous_height (w_height p) s"
  have "leads L (Indexed p, s) (Settled p, ?u)"
    by (rule leads_step) (simp add: advance_max_contiguous_height_def Let_def cascade_alone)
  moreover have "leads L (Settled p, ?u) (Wrote (w_height p) (w_block p) r, t)"
  proof (rule leads_step)
    obtain tip v where v: "update_highwater (w_height p) ?u = (Ok tip, v)"
      by (cases "height_highwater ?u < w_height p") (auto simp: update_highwater_def)
    have "maybe_checkpoint (w_height p) tip (w_end p) v = (r, t)"
      using f v by (simp add: finish_write_def io_simps io_bind_def)
    then have "leads L (Tipped p tip, v) (Wrote (w_height p) (w_block p) r, t)"
      by (intro leads_step) simp
    then show "leads L (step_call L [] (Settled p) ?u) (Wrote (w_height p) (w_block p) r, t)"
      using v by simp
  qed
  ultimately show ?thesis by (rule leads_trans)
qed

lemma begin_write_height: "begin_write L h b s = (Ok p, t) \<Longrightarrow> w_height p = h \<and> w_block p = b"
  unfolding begin_write_def
  by (cases "compress L b") (auto simp: io_bind_Ok_iff Let_def io_simps ok_or_Ok_iff expect_Ok_iff split: if_splits)

lemma begin_write_fs_inv:
  assumes "begin_write L h b s = (r, t)" and "fs_inv s" shows "fs_inv t"
proof -
  have "preserves fs_inv (reserve_space n :: ('z store_scheme, _) io)" for n
    unfolding reserve_space_def advance_to_next_file_def by (intro pres) simp_all
  then have "preserves fs_inv (begin_write L h b :: ('z store_scheme, _) io)"
    unfolding begin_write_def by (intro pres)
  then show ?thesis using assms by (meson preservesD)
qed

lemma write_uninterrupted:
  assumes inv: "fs_inv s" and w: "write_block L h b s = (r, t)"
  shows "leads L (Write_call h b, s) (Wrote h b r, t)"
proof (rule leads_step, cases "begin_write L h b s")
  case b: (Pair r1 s1)
  note w = w [unfolded write_block_begin]
  show "leads L (step_call L [] (Write_call h b) s) (Wrote h b r, t)"
  proof (cases r1)
    case (Ok p)
    note p = begin_write_height [OF b [unfolded Ok]]
    obtain r2 s2 where d: "write_data (w_offset p) (w_payload p) (w_header p) s1 = (r2, s2)" by fastforce
    note d' = write_data_alone [OF d begin_write_fs_inv [OF b inv], where L = L]
    have "leads L (Reserved p, s1) (Wrote h b r, t)"
    proof (cases r2)
      case Ok2: (Ok x)
      obtain r3 s3 where u: "update_index_at (w_slot p) (entry_of p) s2 = (r3, s3)" by fastforce
      have "leads L (Landed p, s2) (Wrote h b r, t)"
      proof (rule leads_step, cases r3)
        case Ok3: (Ok y)
        have "finish_write (w_height p) (w_end p) s3 = (r, t)"
          using w b Ok d Ok2 u Ok3 by (simp add: io_bind_def rest_of_write_def on_err_def)
        from finish_alone [OF this] show "leads L (step_call L [] (Landed p) s2) (Wrote h b r, t)"
          using u Ok3 p by simp
      qed (use w b Ok d Ok2 u p in \<open>auto simp: io_bind_def rest_of_write_def on_err_def\<close>)
      from leads_trans [OF d'(1) this] show ?thesis using Ok2 by simp
    next
      case (Err e)
      have "leads L (Failing p e, s2) (Wrote h b r, t)"
        by (rule leads_step) (use w b Ok d Err p in \<open>simp add: io_bind_def rest_of_write_def on_err_def\<close>)
      from leads_trans [OF d'(2) [OF Err] this] show ?thesis .
    next
      case (Panic m)
      have "r = Panic m" "t = s2" using w b Ok d Panic by (simp_all add: io_bind_def rest_of_write_def on_err_def)
      then show ?thesis using d'(3) [OF Panic] p by simp
    qed
    then show ?thesis using b Ok by simp
  qed (use w b in \<open>simp_all add: io_bind_def\<close>)
qed

text \<open>Reading and checking a block changes nothing but the script of failures.\<close>

lemma fetch_block_eq:
  "fetch_block L e f local s =
     io_bind (read_exact_at (hfile f) (22 + unat (ie_size e)) local)
       (\<lambda>buf u. (res_map Some (block_in L (ie_size e) buf), u)) s"
proof -
  obtain n where n: "checked_add (ucast (ie_size e)) (u64_of_len SERIALIZED_SIZE) = Some n"
    "unat n = 22 + unat (ie_size e)" using read_size_exists by blast
  show ?thesis
    unfolding fetch_block_def n(1) expect_eqs io_bind_ret n(2)
    by (auto intro!: io_bind_cong decode_tail_eq elim!: read_exact_at_OkE)
qed

lemma fetch_block_state:
  assumes "fetch_block L e f local s = (r, t)" shows "\<exists>fs. t = s\<lparr>faults := fs\<rparr>"
proof -
  obtain r1 u where u: "read_exact_at (hfile f) (22 + unat (ie_size e)) local s = (r1, u)" by fastforce
  then have "t = u" using assms by (cases r1) (auto simp: fetch_block_eq io_bind_def)
  then show ?thesis using read_exact_at_state [OF u] by simp
qed

lemma fetch_block_inner: "fetch_block L e f local s = (r, t) \<Longrightarrow> fs_inner t = fs_inner s"
  using fetch_block_state by fastforce

lemma read_uninterrupted:
  assumes inv: "fs_inv s" and w: "read_block L h s = (r, t)"
  shows "leads L (Read_call h, s) (Read h r, t)"
proof (rule leads_step, cases "read_index_entry h s")
  case e: (Pair r1 s1)
  note w = w [unfolded read_block_fetch]
  obtain fs where s1: "s1 = s\<lparr>faults := fs\<rparr>"
    using e by (cases rule: read_index_entry_cases) (auto intro: that [of "faults s"])
  show "leads L (step_call L [] (Read_call h) s) (Read h r, t)"
  proof (cases "\<exists>x. r1 = Ok (Some x) \<and> ie_size x \<noteq> 0 \<and> \<not> MAX_BLOCK_SIZE < ie_size x")
    case True
    then obtain x where x: "r1 = Ok (Some x)" "ie_size x \<noteq> 0" "\<not> MAX_BLOCK_SIZE < ie_size x" by blast
    have "leads L (Found h x, s1) (Read h r, t)"
    proof (rule leads_step, cases "fs_resolve (ie_offset x) s1")
      case rs: (Pair r2 s2)
      show "leads L (step_call L [] (Found h x) s1) (Read h r, t)"
      proof (cases r2)
        case (Ok y)
        obtain f local i where y: "y = (f, local, i)" by (cases y)
        have c: "cached_handle f s2" using fs_resolve_cached rs [unfolded Ok y] inv s1 by (metis fs_inv_faults)
        have fb: "fetch_block L x f local s2 = (r, t)" using w e x rs Ok y by (simp add: io_bind_def)
        have "fs_inner t = fs_inner s2" by (rule fetch_block_inner [OF fb])
        then have "cached_handle f t" using c cached_handle_cong by blast
        then have "leads L (Fetching h x f local, s2) (Read h r, t)"
          by (intro leads_step) (use fb in \<open>simp add: cached_handle_keep\<close>)
        then show ?thesis using rs Ok y by simp
      qed (use w e x rs in \<open>simp_all add: io_bind_def\<close>)
    qed
    then show ?thesis using e x by simp
  qed (use w e in \<open>auto simp: io_bind_def io_simps split: res.splits option.splits if_splits\<close>)
qed



end
