(* ===== verification/Shared.thy ===== *)
theory Shared
  imports Calls StoreContract
begin

text \<open>
  What one step of one call does to a shared store: to the invariant of its files and locks, to
  the regions of the data files, to the entries of the index and to the high-water mark.
\<close>

section \<open>Files and locks\<close>

lemma same_files_locks [simp]: "same_files s (t\<lparr>locks := l\<rparr>) \<longleftrightarrow> same_files s t"
proof -
  have "is_dir (t\<lparr>locks := l\<rparr>) = is_dir t"
    by (rule ext) (simp add: is_dir_def split: file_id.split)
  then show ?thesis by (auto simp: same_files_def fun_eq_iff)
qed

lemma get_or_open_locks:
  assumes g: "get_or_open i s = (r, t)" and inv: "fs_inv s"
  obtains U where "set (locks s) \<subseteq> U" "set (locks t) \<subseteq> U" "inj_on fst U" "inj_on snd U"
    "\<And>f n. (f, n) \<in> U \<Longrightarrow> n < next_fd t"
proof -
  have s: "inj_on fst (set (locks s))" "inj_on snd (set (locks s))"
    "\<And>f n. (f, n) \<in> set (locks s) \<Longrightarrow> n < next_fd s"
    using inv by (auto simp: fs_inv_def)
  from g show ?thesis
  proof (cases rule: get_or_open_cases)
    case (opened h fs u)
    let ?U = "insert (path_for i, next_fd s) (set (locks s))"
    have fresh: "(f, next_fd s) \<notin> set (locks s)" for f using s(3) by blast
    have "inj_on fst ?U" "inj_on snd ?U"
      using s(1,2) opened(4) fresh by (auto simp: inj_on_insert image_iff)
    moreover have "set (locks t) \<subseteq> ?U" "next_fd t = Suc (next_fd s)"
      unfolding opened(6,7) by (auto simp: set_inner_eq)
    ultimately show ?thesis using s(3) by (intro that [of ?U]) (auto intro: less_SucI)
  next
    case (lock_failed e fs)
    then show ?thesis using s by (intro that [of "set (locks s)"]) (auto intro: less_SucI)
  qed (use s in \<open>auto intro!: that [of "set (locks s)"]\<close>)
qed

lemma fs_inv_pin:
  assumes inv: "fs_inv t" and U: "set (locks s) \<subseteq> U" "set (locks t) \<subseteq> U" "inj_on fst U" "inj_on snd U"
    "\<And>f n. (f, n) \<in> U \<Longrightarrow> n < next_fd t"
  shows "fs_inv (pin held s t)"
proof -
  have l: "set (locks (pin held s t)) \<subseteq> U" using U(1,2) by (auto simp: pin_def)
  have "fs_inner (pin held s t) = fs_inner t" "fs_max_data_file_size (pin held s t) = fs_max_data_file_size t"
    "next_fd (pin held s t) = next_fd t" "set (locks t) \<subseteq> set (locks (pin held s t))"
    by (auto simp: pin_def)
  then show ?thesis
    using inv l inj_on_subset [OF U(3) l] inj_on_subset [OF U(4) l] U(5)
    unfolding fs_inv_def by (metis subsetD)
qed

definition at_file :: "'z store_scheme \<Rightarrow> u64 \<Rightarrow> handle \<Rightarrow> u64 \<Rightarrow> bool" where
  "at_file s off f local \<longleftrightarrow>
     (\<exists>i. split_offset (fs_max_data_file_size s) off = (i, local) \<and> hfile f = path_for i)"

lemma pinned_resolve_frame:
  fixes s :: "'z store_scheme"
  assumes p: "pinned_resolve held off s = (r, t)" and inv: "fs_inv s"
  shows "same_files s t" and "fs_inv t" and "r = Ok (f, local, i) \<Longrightarrow> at_file s off f local"
    and "r \<noteq> Panic m"
proof -
  obtain idx local' where sp: "split_offset (fs_max_data_file_size s) off = (idx, local')" by fastforce
  obtain r' u where rs: "fs_resolve off s = (r', u)" by fastforce
  then have t: "r = r'" "t = pin held s u" using p by (simp_all add: pinned_resolve_def)
  from rs inv sp have u: "same_files s u \<and> fs_inv u \<and> (\<forall>f l j. r = Ok (f, l, j) \<longrightarrow> at_file s off f l) \<and> r \<noteq> Panic m"
    by (cases rule: fs_resolve_cases) (use t sp in \<open>simp_all add: at_file_def\<close>)
  then show "same_files s t" using t(2) by (simp add: pin_def)
  obtain r2 where g: "get_or_open idx s = (r2, u)"
    using rs sp by (cases "get_or_open idx s") (auto simp: fs_resolve_eq io_bind_def io_simps split: res.splits)
  show "fs_inv t" unfolding t(2) by (rule get_or_open_locks [OF g inv], rule fs_inv_pin) (use u in blast)+
  show "r = Ok (f, local, i) \<Longrightarrow> at_file s off f local" "r \<noteq> Panic m" using u by blast+
qed

lemma drop_handle_frame:
  fixes s :: "'z store_scheme"
  shows "same_files s (drop_handle held f s)" and "fs_inv s \<Longrightarrow> fs_inv (drop_handle held f s)"
proof -
  show "same_files s (drop_handle held f s)"
    by (simp add: drop_handle_def close_fd_def)
  show "fs_inv (drop_handle held f s)" if inv: "fs_inv s"
  proof (cases "fd f \<in> set held \<or> fd f \<in> fd ` snd ` set (handles (fs_inner s))")
    case False
    let ?t = "close_fd (fd f) s"
    have "fd h \<noteq> fd f" if "inner_lookup (fs_inner s) i = Some h" for i h
    proof -
      have "h \<in> snd ` set (handles (fs_inner s))" using lookup_in_handles [OF that] by force
      then show ?thesis using False by (metis imageI)
    qed
    moreover have "set (locks ?t) \<subseteq> set (locks s)" by (auto simp: close_fd_def)
    ultimately have "fs_inv ?t"
      using inv inj_on_subset unfolding fs_inv_def by (fastforce simp: close_fd_def inj_on_def)
    then show ?thesis using False by (simp add: drop_handle_def)
  qed (use inv in \<open>simp add: drop_handle_def\<close>)
qed

section \<open>Regions\<close>

lemma pread_pwrite_apart:
  assumes len: "off + n \<le> length f" and ap: "off + n \<le> o' \<or> o' + length bs \<le> off"
  shows "pread (pwrite f o' bs) off n = pread f off n"
proof (rule nth_equalityI)
  show l: "length (pread (pwrite f o' bs) off n) = length (pread f off n)"
    using len by (simp add: length_pwrite)
  fix k assume k: "k < length (pread (pwrite f o' bs) off n)"
  then have "k < length (pread f off n)" unfolding l .
  with k len ap show "pread (pwrite f o' bs) off n ! k = pread f off n ! k"
    unfolding pread_nth [OF k] pread_nth [OF \<open>k < length (pread f off n)\<close>]
    by (subst pwrite_nth) auto
qed

text \<open>Bytes written within one extent leave every region apart from the extent as it was.\<close>

definition small_offset :: "'z store_scheme \<Rightarrow> u64 \<Rightarrow> bool" where
  "small_offset s off \<longleftrightarrow> (\<forall>c. fs_max_data_file_size s = Some c \<longrightarrow> unat off div unat c < 2 ^ 32)"

lemma region_apart:
  assumes b: "\<And>f. bytes_of t f = (if f = path_for i then pwrite (bytes_of s f) pos bs else bytes_of s f)"
    and cap: "fs_max_data_file_size t = fs_max_data_file_size s"
    and w: "split_offset (fs_max_data_file_size s) woff = (i, local)" "unat local \<le> pos"
      "pos + length bs \<le> unat local + m" "unsplit s woff m" "small_offset s woff"
    and r: "unsplit s off n" "length (region s off n) = n" "0 < n" "small_offset s off"
    and ap: "unat off + n \<le> unat woff \<or> unat woff + m \<le> unat off"
  shows "region t off n = region s off n"
proof -
  obtain j l where sp: "split_offset (fs_max_data_file_size s) off = (j, l)" by fastforce
  show ?thesis
  proof (cases "j = i")
    case True
    have "unat l + n \<le> unat local \<or> unat local + m \<le> unat l"
      using ap regions_apart [OF sp [unfolded True] w(1) _ r(1)] regions_apart [OF w(1) sp [unfolded True] _ w(4)]
        w(5) r(4) unfolding small_offset_def by blast
    then have "unat l + n \<le> pos \<or> pos + length bs \<le> unat l" using w(2,3) by linarith
    moreover have "unat l + n \<le> length (bytes_of s (path_for i))"
      using r(2,3) unfolding region_eq [OF sp] pread_full_iff True by simp
    ultimately show ?thesis
      using sp True by (simp add: region_def cap b pread_pwrite_apart)
  qed (use sp in \<open>simp add: region_def cap b\<close>)
qed

text \<open>The payload, then the header.\<close>

lemma region_payload:
  assumes b: "bytes_of t (path_for i) = pwrite (bytes_of s (path_for i)) (unat local + 22) pb"
    and cap: "fs_max_data_file_size t = fs_max_data_file_size s"
    and sp: "split_offset (fs_max_data_file_size s) off = (i, local)" and ne: "pb \<noteq> []"
  shows "\<exists>hb. length hb = 22 \<and> region t off (22 + length pb) = hb @ pb"
proof -
  let ?f = "bytes_of t (path_for i)"
  have r: "region t off (22 + length pb) = pread ?f (unat local) (22 + length pb)"
    using sp cap by (simp add: region_def)
  have "take 22 (pread ?f (unat local) (22 + length pb)) @ pread ?f (unat local + 22) (length pb) =
      pread ?f (unat local) (22 + length pb)"
    using drop_pread [of 22 ?f "unat local" "22 + length pb"] append_take_drop_id by (metis diff_add_inverse)
  moreover have "pread ?f (unat local + 22) (length pb) = pb" unfolding b by simp
  moreover have "unat local + 22 + length pb \<le> length ?f" using ne by (simp add: b length_pwrite)
  ultimately show ?thesis
    unfolding r by (intro exI [of _ "take 22 (pread ?f (unat local) (22 + length pb))"]) simp
qed

lemma region_header:
  assumes b: "bytes_of t (path_for i) = pwrite (bytes_of s (path_for i)) (unat local) hb"
    and cap: "fs_max_data_file_size t = fs_max_data_file_size s"
    and sp: "split_offset (fs_max_data_file_size s) off = (i, local)" and l: "length hb = 22"
    and r: "region s off (22 + length pb) = hb' @ pb" "length hb' = 22"
  shows "region t off (22 + length pb) = hb @ pb"
proof -
  let ?g = "bytes_of s (path_for i)" and ?n = "22 + length pb"
  have g: "pread ?g (unat local) ?n = hb' @ pb" using r(1) sp by (simp add: region_def)
  have "length (pread ?g (unat local) ?n) = ?n" unfolding g using r(2) by simp
  then have len: "unat local + ?n \<le> length ?g" unfolding pread_full_iff by simp
  have "pread ?g (unat local + 22) (length pb) = pb"
    using drop_pread [of 22 ?g "unat local" ?n] g r(2) by simp
  moreover have "pread (bytes_of t (path_for i)) (unat local + 22) (length pb) = pread ?g (unat local + 22) (length pb)"
    unfolding b by (rule pread_pwrite_apart) (use len l in simp_all)
  ultimately have p: "pread (bytes_of t (path_for i)) (unat local + 22) (length pb) = pb" by simp
  have "take 22 (pread (bytes_of t (path_for i)) (unat local) ?n) = hb"
    unfolding b using l pread_pwrite_same [of ?g "unat local" hb] by (simp add: take_pread)
  moreover have "drop 22 (pread (bytes_of t (path_for i)) (unat local) ?n) = pb"
    using p by (simp add: drop_pread)
  moreover have "region t off ?n = pread (bytes_of t (path_for i)) (unat local) ?n"
    using sp cap by (simp add: region_def)
  ultimately show ?thesis using append_take_drop_id by metis
qed

section \<open>One step\<close>

text \<open>What a call knows about its block and its file.\<close>

definition w_size :: "pending \<Rightarrow> nat" where
  "w_size p = 22 + length (w_payload p)"

definition pending_ok :: "libs \<Rightarrow> 'z store_scheme \<Rightarrow> pending \<Rightarrow> bool" where
  "pending_ok L s p \<longleftrightarrow>
     storable L (w_block p) \<and> w_block p \<noteq> [] \<and> compress L (w_block p) = Ok (w_payload p) \<and>
     unat (w_len p) = length (w_payload p) \<and>
     w_header p = block_header_of L (w_height p) (w_block p) (w_len p) \<and>
     index_entry_offset s (w_height p) = Some (w_slot p) \<and>
     unat (w_prev p) \<le> unat (w_offset p) \<and> unat (w_end p) = unat (w_offset p) + w_size p \<and>
     unsplit s (w_offset p) (w_size p)"

fun pending_of :: "call \<Rightarrow> pending option" where
  "pending_of (Reserved p) = Some p"
| "pending_of (Located p f local) = Some p"
| "pending_of (Payload_down p f local) = Some p"
| "pending_of (Header_down p f) = Some p"
| "pending_of (Failing p e) = Some p"
| "pending_of (Landed p) = Some p"
| "pending_of (Indexed p) = Some p"
| "pending_of (Raised p cur) = Some p"
| "pending_of (Seen p cur) = Some p"
| "pending_of (Settled p) = Some p"
| "pending_of (Tipped p tip) = Some p"
| "pending_of c = None"

fun call_ok :: "libs \<Rightarrow> 'z store_scheme \<Rightarrow> call \<Rightarrow> bool" where
  "call_ok L s (Write_call h b) \<longleftrightarrow> storable L b"
| "call_ok L s (Located p f local) \<longleftrightarrow> pending_ok L s p \<and> at_file s (w_offset p) f local"
| "call_ok L s (Payload_down p f local) \<longleftrightarrow> pending_ok L s p \<and> at_file s (w_offset p) f local"
| "call_ok L s (Fetching h e f local) \<longleftrightarrow> at_file s (ie_offset e) f local"
| "call_ok L s c \<longleftrightarrow> (\<forall>p. pending_of c = Some p \<longrightarrow> pending_ok L s p)"

lemma call_ok_pending: "call_ok L s c \<Longrightarrow> pending_of c = Some p \<Longrightarrow> pending_ok L s p"
  by (cases c) auto

text \<open>The header and the size of the data files stay.\<close>

definition fixed :: "'z store_scheme \<Rightarrow> 'z store_scheme \<Rightarrow> bool" where
  "fixed s t \<longleftrightarrow> header t = header s \<and> fs_max_data_file_size t = fs_max_data_file_size s"

lemma fixed_refl [simp]: "fixed s s"
  by (simp add: fixed_def)

lemma fixed_trans: "fixed s t \<Longrightarrow> fixed t u \<Longrightarrow> fixed s u"
  by (simp add: fixed_def)

lemma fixed_cong:
  assumes "fixed s t"
  shows "unsplit t off n = unsplit s off n" "small_offset t off = small_offset s off"
    "index_entry_offset t = index_entry_offset s" "at_file t off f local = at_file s off f local"
    "pending_ok L t p = pending_ok L s p" "call_ok L t c = call_ok L s c"
proof -
  have c: "fs_max_data_file_size t = fs_max_data_file_size s" and h: "header t = header s"
    using assms by (simp_all add: fixed_def)
  show i: "index_entry_offset t = index_entry_offset s" by (rule index_entry_offset_header [OF h])
  show u: "unsplit t off n = unsplit s off n" for off n by (simp add: unsplit_def c)
  show "small_offset t off = small_offset s off" by (simp add: small_offset_def c)
  show a: "at_file t off f local = at_file s off f local" for off f local by (simp add: at_file_def c)
  show p: "pending_ok L t p = pending_ok L s p" for p by (simp add: pending_ok_def i u)
  show "call_ok L t c = call_ok L s c" by (cases c) (simp_all add: a p)
qed

lemma same_files_fixed: "same_files s t \<Longrightarrow> fixed s t \<and> data_highwater t = data_highwater s"
  using store_fields [of t s] by (simp add: fixed_def same_files_def)

lemma bookkeeping_fixed: "bookkeeping s t \<Longrightarrow> fixed s t \<and> data_highwater t = data_highwater s"
  by (simp add: bookkeeping_def same_blocks_def fixed_def)

text \<open>The reservation.\<close>

lemma begin_write_cases:
  assumes w: "begin_write L h b s = (r, t)" and inv: "fs_inv s" and st: "storable L b"
  obtains (refused) "t = s" "\<And>p. r \<noteq> Ok p"
    | (reserved) p where "r = Ok p" "t = s\<lparr>data_highwater := w_end p\<rparr>" "w_height p = h" "w_block p = b"
        "w_prev p = data_highwater s" "pending_ok L s p" "addressable s \<Longrightarrow> small_offset s (w_offset p)"
        "w_payload p \<noteq> []"
        "unat (w_offset p) = place_for (fs_max_data_file_size s) (unat (data_highwater s)) (w_size p)"
proof (cases "\<exists>p. r = Ok p")
  case True
  then obtain p where r: "r = Ok p" by blast
  then obtain n off new where q: "b \<noteq> []" "compress L b = Ok (w_payload p)"
      "u32_of_len (length (w_payload p)) = Some (w_len p)" "index_entry_offset s h = Some (w_slot p)"
      "checked_add (u64_of_len (length (w_payload p))) (u64_of_len SERIALIZED_SIZE) = Some n"
      "reserve_space n s = (Ok (w_offset p, w_end p, w_prev p), t)" "w_height p = h" "w_block p = b"
      "w_header p = block_header_of L h b (w_len p)"
    using w unfolding begin_write_def
    by (cases "compress L b") (auto simp: io_bind_Ok_iff Let_def io_simps ok_or_Ok_iff expect_Ok_iff
        block_header_of_def split: if_splits)
  have cap: "cap_ok (fs_max_data_file_size s)" using inv by (simp add: fs_inv_def)
  from q(6) cap have rs: "w_prev p = data_highwater s" "t = s\<lparr>data_highwater := w_end p\<rparr>"
    by (auto elim: reserve_space_cases)
  note pr = placed_reserved [OF q(6) [unfolded rs(1) rs(2)] inv]
  have l: "length (w_payload p) < 2 ^ 32" "unat (w_len p) = length (w_payload p)"
    using q(3) by (simp_all add: checked)
  have n: "unat n = w_size p"
    using q(5) l(1) by (auto simp: checked unat_SERIALIZED w_size_def)
  show ?thesis
  proof (rule reserved [OF r rs(2) q(7,8) rs(1)])
    show "pending_ok L s p"
      using st q l pr n rs(1) by (simp add: pending_ok_def)
    show "small_offset s (w_offset p)" if "addressable s"
      using pr(5) that by (simp add: small_offset_def)
    show "w_payload p \<noteq> []" using compress_nonempty st q(1,2) by (auto simp: storable_def)
    show "unat (w_offset p) = place_for (fs_max_data_file_size s) (unat (data_highwater s)) (w_size p)"
      using reserve_space_place [OF q(6) cap] n by simp
  qed
next
  case False
  moreover have cap: "cap_ok (fs_max_data_file_size s)" using inv by (simp add: fs_inv_def)
  then have "u = s" if "reserve_space n s = (Err e, u)" for n u e
    using that by (auto elim: reserve_space_cases)
  moreover have "reserve_space n s \<noteq> (Panic m, u)" for n m u
    using cap by (auto elim: reserve_space_cases)
  ultimately have "t = s"
    using w unfolding begin_write_def
    by (auto simp: io_simps ok_or_def expect_def io_bind_def Let_def
        split: if_splits option.splits res.splits prod.splits)
  with False show ?thesis using refused by blast
qed

text \<open>Steps that leave the regions, the entries and the high-water mark as they were.\<close>

definition quiet :: "'z store_scheme \<Rightarrow> 'z store_scheme \<Rightarrow> bool" where
  "quiet s t \<longleftrightarrow>
     fixed s t \<and> region t = region s \<and> (\<forall>slot. 64 \<le> unat slot \<longrightarrow> entry_at t slot = entry_at s slot) \<and>
     data_highwater t = data_highwater s \<and> fs_inv t"

lemma quiet_refl: "fs_inv s \<Longrightarrow> quiet s s"
  by (simp add: quiet_def)

lemma quiet_trans: "quiet s t \<Longrightarrow> quiet t u \<Longrightarrow> quiet s u"
  by (auto simp: quiet_def intro: fixed_trans)

lemma same_files_quiet: "same_files s t \<Longrightarrow> fs_inv t \<Longrightarrow> quiet s t"
  using same_files_fixed [of s t]
  by (auto simp: quiet_def fun_eq_iff same_files_region entry_at_def same_files_def)

lemma bookkeeping_quiet: "bookkeeping s t \<Longrightarrow> fs_inv s \<Longrightarrow> quiet s t"
  using bookkeeping_fixed [of s t] bookkeeping_region [of s t] bookkeeping_fs_inv(1) [of s t]
  by (auto simp: quiet_def bookkeeping_entry_at)

lemma contig_quiet: "fs_inv s \<Longrightarrow> quiet s (s\<lparr>max_contiguous_height := m\<rparr>)"
proof -
  have "contig_only s (s\<lparr>max_contiguous_height := m\<rparr>)" by (simp add: contig_only_def)
  then show "fs_inv s \<Longrightarrow> quiet s (s\<lparr>max_contiguous_height := m\<rparr>)"
    by (intro bookkeeping_quiet contig_bookkeeping)
qed

lemma faults_quiet: "fs_inv s \<Longrightarrow> quiet s (s\<lparr>faults := fs\<rparr>)"
  by (simp add: quiet_def fixed_def)

lemma drop_handle_quiet: "fs_inv s \<Longrightarrow> quiet s (drop_handle held f s)"
  by (intro same_files_quiet drop_handle_frame)

lemma highwater_quiet:
  assumes "update_highwater h s = (r, t)" and "fs_inv s" shows "quiet s t \<and> (\<exists>tip. r = Ok tip)"
  using assms bookkeeping_quiet [OF bookkeeping_counters(1)]
  by (auto simp: update_highwater_def quiet_refl split: if_splits)

lemma checkpoint_quiet:
  assumes "maybe_checkpoint h tip off s = (r, t)" and "fs_inv s" shows "quiet s t"
  using assms(1) by (cases rule: maybe_checkpoint_cases)
    (use assms(2) in \<open>auto intro: quiet_refl bookkeeping_quiet checkpoint_bookkeeping(1)\<close>)

lemma sync_quiet:
  assumes "(if sync s = Sync then sync_all f else ret ()) s = (r, t)" and "fs_inv s"
  shows "quiet s t" and "r \<noteq> Panic m"
proof -
  have "quiet s t \<and> (\<forall>m. r \<noteq> Panic m)"
    using assms by (auto simp: io_simps quiet_refl intro: bookkeeping_quiet sync_bookkeeping
        elim: sync_all_cases split: if_splits)
  then show "quiet s t" "r \<noteq> Panic m" by blast+
qed

lemma read_entry_quiet:
  assumes "read_index_entry h s = (r, t)" and "fs_inv s"
  shows "quiet s t" and "r \<noteq> Panic m" and "r = Ok (Some e) \<Longrightarrow>
    \<exists>slot. index_entry_offset s h = Some slot \<and> e = entry_at s slot"
  using assms(1) by (cases rule: read_index_entry_cases;
      use assms(2) in \<open>auto intro: quiet_refl faults_quiet simp: entry_at_fill\<close>)+

lemma fetch_quiet:
  assumes "fetch_block L e f local s = (r, t)" and "fs_inv s" shows "quiet s t"
  using fetch_block_state [OF assms(1)] faults_quiet [OF assms(2)] by auto

lemma local_plus:
  assumes "pending_ok L s p" and "at_file s (w_offset p) f local"
  shows "unat (local + u64_of_len SERIALIZED_SIZE) = unat local + 22"
proof -
  have "unat local \<le> unat (w_offset p)"
    using assms(2) split_local_le by (auto simp: at_file_def)
  then have "unat local + 22 < 2 ^ 64"
    using assms(1) unat_lt_64 [of "w_end p"] by (simp add: pending_ok_def w_size_def)
  then show ?thesis
    using unat_plus_fits [of local "u64_of_len SERIALIZED_SIZE"] by (simp add: unat_SERIALIZED)
qed

text \<open>A positional write to a data file.\<close>

lemma data_write:
  assumes w: "write_all_at (hfile f) bs pos s = (r, t)" and f: "at_file s off f local" and inv: "fs_inv s"
  obtains i k where "split_offset (fs_max_data_file_size s) off = (i, local)"
    "\<forall>g. bytes_of t g = (if g = path_for i then pwrite (bytes_of s g) (unat pos) (take k bs) else bytes_of s g)"
    "fixed s t" "data_highwater t = data_highwater s" "fs_inv t" "entry_at t = entry_at s"
    "r = Ok () \<longrightarrow> k = length bs" "\<forall>m. r \<noteq> Panic m"
proof -
  obtain i where i: "split_offset (fs_max_data_file_size s) off = (i, local)" "hfile f = path_for i"
    using f by (auto simp: at_file_def)
  from w obtain k fs where t: "t = log_write (path_for i) (unat pos) (take k bs) (s\<lparr>faults := fs\<rparr>)"
    and r: "r = Ok () \<Longrightarrow> k = length bs" "\<And>m. r \<noteq> Panic m"
    unfolding i(2) by (rule write_all_at_cases) blast
  show ?thesis
    by (rule that [OF i(1), of k]) (use inv in \<open>simp_all add: t r fixed_def entry_at_def fun_eq_iff\<close>)
qed

text \<open>The reservation a step is working under, while its bytes are not yet in the index.\<close>

fun claim :: "call \<Rightarrow> pending option" where
  "claim (Reserved p) = Some p"
| "claim (Located p f local) = Some p"
| "claim (Payload_down p f local) = Some p"
| "claim (Header_down p f) = Some p"
| "claim (Failing p e) = Some p"
| "claim (Landed p) = Some p"
| "claim c = None"

lemma claim_pending: "claim c = Some p \<Longrightarrow> pending_of c = Some p"
  by (cases c) auto

text \<open>Every step is one of five kinds.\<close>

lemma step_call_cases:
  assumes st: "step_call L held c s = (k, t)" and inv: "fs_inv s" and ok: "call_ok L s c"
  obtains (quiet) "quiet s t" "call_ok L s k" "claim k = claim c" "published c k = []"
    | (reserve) p where "c = Write_call (w_height p) (w_block p)" "k = Reserved p"
        "t = s\<lparr>data_highwater := w_end p\<rparr>" "w_prev p = data_highwater s" "pending_ok L s p"
        "addressable s \<Longrightarrow> small_offset s (w_offset p)"
        "unat (w_offset p) = place_for (fs_max_data_file_size s) (unat (data_highwater s)) (w_size p)"
    | (release) p e where "c = Failing p e" "k = Wrote (w_height p) (w_block p) (Err e)"
        "t = release_reservation (w_prev p) (w_end p) s"
    | (data) p i local pos bs where "claim c = Some p" "claim k = Some p" "published c k = []"
        "pending_ok L s p" "call_ok L s k" "fixed s t" "data_highwater t = data_highwater s" "fs_inv t"
        "entry_at t = entry_at s" "split_offset (fs_max_data_file_size s) (w_offset p) = (i, local)"
        "unat local \<le> pos" "pos + length bs \<le> unat local + w_size p"
        "\<And>g. bytes_of t g = (if g = path_for i then pwrite (bytes_of s g) pos bs else bytes_of s g)"
    | (index) p m fs where "c = Landed p"
        "t = log_write IndexFile (unat (w_slot p)) (take m (encode_entry (entry_of p))) (s\<lparr>faults := fs\<rparr>)"
        "m = 16 \<and> k = Indexed p \<or> (\<exists>e. k = Wrote (w_height p) (w_block p) (Err e))"
proof (cases c)
  case (Write_call h b)
  obtain r u where b: "begin_write L h b s = (r, u)" by fastforce
  have "storable L b" using ok Write_call by simp
  with b inv show ?thesis
  proof (cases rule: begin_write_cases)
    case refused
    then have "t = s" "\<exists>x. k = Wrote h b x" using st b Write_call by (cases r; auto)+
    then show ?thesis using Write_call inv by (intro quiet) (auto simp: quiet_refl published_def)
  next
    case (reserved p)
    then show ?thesis using st b Write_call by (intro reserve [of p]) simp_all
  qed
next
  case (Reserved p)
  obtain r u where r: "pinned_resolve held (w_offset p) s = (r, u)" by fastforce
  note f = pinned_resolve_frame [OF r inv]
  have q: "quiet s u" using f(1,2) by (rule same_files_quiet)
  have "t = u" "(\<exists>f local i. k = Located p f local \<and> r = Ok (f, local, i)) \<or> (\<exists>e. k = Failing p e)"
    using st r Reserved f(4) by (cases r; auto)+
  then show ?thesis
    using Reserved q ok f(3) by (intro quiet) (auto simp: published_def)
next
  case (Located p f local)
  have p: "pending_ok L s p" "at_file s (w_offset p) f local" using ok Located by simp_all
  obtain r u where w: "write_all_at (hfile f) (w_payload p) (local + u64_of_len SERIALIZED_SIZE) s = (r, u)"
    by fastforce
  from w p(2) inv obtain i n where d: "split_offset (fs_max_data_file_size s) (w_offset p) = (i, local)"
    "\<forall>g. bytes_of u g = (if g = path_for i then pwrite (bytes_of s g) (unat local + 22) (take n (w_payload p)) else bytes_of s g)"
    "fixed s u" "data_highwater u = data_highwater s" "fs_inv u" "entry_at u = entry_at s"
    "r = Ok () \<longrightarrow> n = length (w_payload p)" "\<forall>m. r \<noteq> Panic m"
    unfolding local_plus [OF p, symmetric] by (rule data_write) blast
  have q: "quiet u (drop_handle held f u)" "\<And>g. bytes_of (drop_handle held f u) g = bytes_of u g"
    using drop_handle_quiet [OF d(5)] drop_handle_frame(1) [of u held f] by (simp_all add: same_files_def)
  have t: "t = u \<and> k = Payload_down p f local \<or> (\<exists>e. t = drop_handle held f u \<and> k = Failing p e)"
    using st w Located d(8) by (cases r) auto
  have "fixed s t" "data_highwater t = data_highwater s" "fs_inv t" "entry_at t = entry_at s"
    "\<And>g. bytes_of t g = bytes_of u g"
    using t q d(3-6) by (auto simp: quiet_def entry_at_def fun_eq_iff intro: fixed_trans)
  then show ?thesis
    using t p d(1,2) Located by (intro data) (auto simp: published_def w_size_def)
next
  case (Payload_down p f local)
  have p: "pending_ok L s p" "at_file s (w_offset p) f local" using ok Payload_down by simp_all
  obtain r u where w: "write_all_at (hfile f) (serialize (w_header p)) local s = (r, u)"
    by fastforce
  from w p(2) inv obtain i n where d: "split_offset (fs_max_data_file_size s) (w_offset p) = (i, local)"
    "\<forall>g. bytes_of u g = (if g = path_for i then pwrite (bytes_of s g) (unat local) (take n (serialize (w_header p))) else bytes_of s g)"
    "fixed s u" "data_highwater u = data_highwater s" "fs_inv u" "entry_at u = entry_at s"
    "r = Ok () \<longrightarrow> n = length (serialize (w_header p))" "\<forall>m. r \<noteq> Panic m"
    by (rule data_write) blast
  have q: "quiet u (drop_handle held f u)" "\<And>g. bytes_of (drop_handle held f u) g = bytes_of u g"
    using drop_handle_quiet [OF d(5)] drop_handle_frame(1) [of u held f] by (simp_all add: same_files_def)
  have t: "t = u \<and> k = Header_down p f \<or> (\<exists>e. t = drop_handle held f u \<and> k = Failing p e)"
    using st w Payload_down d(8) by (cases r) auto
  have "fixed s t" "data_highwater t = data_highwater s" "fs_inv t" "entry_at t = entry_at s"
    "\<And>g. bytes_of t g = bytes_of u g"
    using t q d(3-6) by (auto simp: quiet_def entry_at_def fun_eq_iff intro: fixed_trans)
  then show ?thesis
    using t p d(1,2) Payload_down by (intro data) (auto simp: published_def w_size_def)
next
  case (Header_down p f)
  obtain r u where y: "(if sync s = Sync then sync_all (hfile f) else ret ()) s = (r, u)" by fastforce
  note y' = sync_quiet [OF y inv]
  have t: "t = drop_handle held f u" "k = Landed p \<or> (\<exists>e. k = Failing p e)"
    using st y y'(2) Header_down by (cases r; auto)+
  have "fs_inv u" using y'(1) by (simp add: quiet_def)
  from quiet_trans [OF y'(1) drop_handle_quiet [OF this]] t have "quiet s t" by simp
  then show ?thesis using t(2) Header_down ok by (intro quiet) (auto simp: published_def)
next
  case (Failing p e)
  then show ?thesis using st by (intro release) auto
next
  case (Landed p)
  obtain r u where w: "write_all_at IndexFile (encode_entry (entry_of p)) (w_slot p) s = (r, u)" by fastforce
  from w obtain m fs where u: "u = log_write IndexFile (unat (w_slot p)) (take m (encode_entry (entry_of p))) (s\<lparr>faults := fs\<rparr>)"
    "r = Ok () \<Longrightarrow> m = length (encode_entry (entry_of p))" "\<And>m. r \<noteq> Panic m"
    by (rule write_all_at_cases) blast
  show ?thesis
    using st w u Landed by (intro index [OF Landed, of m fs]) (cases r; auto simp: update_index_at_def)+
next
  case (Indexed p)
  then show ?thesis using st ok inv contig_quiet [OF inv]
    by (intro quiet) (auto simp: published_def quiet_refl split: if_splits)
next
  case (Raised p cur)
  obtain r u where e: "read_index_entry (cur + 1) s = (r, u)" by fastforce
  note q = read_entry_quiet(1) [OF e inv]
  have "t = u" "k = Settled p \<or> k = Seen p cur"
    using st e Raised by (auto split: res.splits option.splits if_splits)
  then show ?thesis using q ok Raised by (intro quiet) (auto simp: published_def)
next
  case (Seen p cur)
  then show ?thesis using st ok inv contig_quiet [OF inv]
    by (intro quiet) (auto simp: published_def quiet_refl split: if_splits)
next
  case (Settled p)
  obtain r u where e: "update_highwater (w_height p) s = (r, u)" by fastforce
  show ?thesis using st ok Settled e highwater_quiet [OF e inv]
    by (intro quiet) (auto simp: published_def)
next
  case (Tipped p tip)
  obtain r u where e: "maybe_checkpoint (w_height p) tip (w_end p) s = (r, u)" by fastforce
  show ?thesis using st ok Tipped e checkpoint_quiet [OF e inv]
    by (intro quiet) (auto simp: published_def)
next
  case (Wrote h b r)
  then show ?thesis using st ok inv by (intro quiet) (auto simp: published_def quiet_refl)
next
  case (Read_call h)
  obtain r u where e: "read_index_entry h s = (r, u)" by fastforce
  note q = read_entry_quiet(1) [OF e inv]
  have "t = u" "(\<exists>x. k = Read h x) \<or> (\<exists>x. k = Found h x)"
    using st e Read_call by (auto split: res.splits option.splits if_splits)
  then show ?thesis using q Read_call by (intro quiet) (auto simp: published_def)
next
  case (Found h e)
  obtain r u where r: "pinned_resolve held (ie_offset e) s = (r, u)" by fastforce
  note f = pinned_resolve_frame [OF r inv]
  have q: "quiet s u" using f(1,2) by (rule same_files_quiet)
  have "t = u" "(\<exists>f local i. k = Fetching h e f local \<and> r = Ok (f, local, i)) \<or> (\<exists>x. k = Read h x)"
    using st r Found f(4) by (cases r; auto)+
  then show ?thesis
    using Found q f(3) by (intro quiet) (auto simp: published_def)
next
  case (Fetching h e f local)
  obtain r u where b: "fetch_block L e f local s = (r, u)" by fastforce
  note q = fetch_quiet [OF b inv]
  have t: "t = drop_handle held f u" "k = Read h r" using st b Fetching by auto
  have "fs_inv u" using q by (simp add: quiet_def)
  from quiet_trans [OF q drop_handle_quiet [OF this]] t have "quiet s t" by simp
  then show ?thesis using t(2) Fetching by (intro quiet) (auto simp: published_def)
next
  case (Read h r)
  then show ?thesis using st inv by (intro quiet) (auto simp: published_def quiet_refl)
qed

end
