(* ===== verification/Interleaved.thy ===== *)
theory Interleaved
  imports Shared
begin

text \<open>
  Calls on a shared store take effect one at a time: a write when its index entry is written,
  whatever else is under way and whichever calls to the system fail. What a height holds is the
  last block of the history, and what a reader returns was in the store.
\<close>

section \<open>The invariant\<close>

text \<open>Heights with a write that did not return \<open>Ok\<close>.\<close>

definition spoilt :: "call list \<Rightarrow> u64 set" where
  "spoilt cs = {h. \<exists>b r. Wrote h b r \<in> set cs \<and> r \<noteq> Ok ()}"

definition claims :: "call list \<Rightarrow> pending set" where
  "claims cs = {p. \<exists>c \<in> set cs. claim c = Some p}"

text \<open>An extent that is complete, below the high-water mark, and that no claim of \<open>P\<close> touches.\<close>

definition free :: "'z store_scheme \<Rightarrow> pending set \<Rightarrow> u64 \<Rightarrow> nat \<Rightarrow> bool" where
  "free s P off n \<longleftrightarrow>
     unsplit s off n \<and> length (region s off n) = n \<and> unat off + n \<le> unat (data_highwater s) \<and>
     (\<forall>p \<in> P. unat off + n \<le> unat (w_prev p) \<or> unat (w_end p) \<le> unat off)"

fun data_ok :: "'z store_scheme \<Rightarrow> call \<Rightarrow> bool" where
  "data_ok s (Payload_down p f local) \<longleftrightarrow>
     (\<exists>hb. length hb = 22 \<and> region s (w_offset p) (w_size p) = hb @ w_payload p)"
| "data_ok s (Header_down p f) \<longleftrightarrow> region s (w_offset p) (w_size p) = serialize (w_header p) @ w_payload p"
| "data_ok s (Landed p) \<longleftrightarrow> region s (w_offset p) (w_size p) = serialize (w_header p) @ w_payload p"
| "data_ok s c \<longleftrightarrow> True"

text \<open>A block that was in the store, or has been entered since; \<open>C\<close> is what the store held.\<close>

definition committed :: "(u64 \<rightharpoonup> bytes) \<Rightarrow> (u64 \<times> bytes) list \<Rightarrow> u64 \<Rightarrow> bytes \<Rightarrow> bool" where
  "committed C hist h b \<longleftrightarrow> (h, b) \<in> set hist \<or> C h = Some b"

definition seen ::
  "libs \<Rightarrow> (u64 \<rightharpoonup> bytes) \<Rightarrow> (u64 \<times> bytes) list \<Rightarrow> 'z store_scheme \<Rightarrow> pending set \<Rightarrow> u64 \<Rightarrow> index_entry \<Rightarrow> bool" where
  "seen L C hist s P h e \<longleftrightarrow>
     (let n = 22 + unat (ie_size e)
      in free s P (ie_offset e) n \<and>
         (\<forall>b. block_in L (ie_size e) (region s (ie_offset e) n) = Ok b \<longrightarrow> committed C hist h b))"

fun log_ok ::
  "libs \<Rightarrow> (u64 \<rightharpoonup> bytes) \<Rightarrow> (u64 \<times> bytes) list \<Rightarrow> u64 set \<Rightarrow> 'z store_scheme \<Rightarrow> pending set \<Rightarrow> call \<Rightarrow> bool" where
  "log_ok L C hist D s P (Indexed p) \<longleftrightarrow> (w_height p, w_block p) \<in> set hist"
| "log_ok L C hist D s P (Raised p cur) \<longleftrightarrow> (w_height p, w_block p) \<in> set hist"
| "log_ok L C hist D s P (Seen p cur) \<longleftrightarrow> (w_height p, w_block p) \<in> set hist"
| "log_ok L C hist D s P (Settled p) \<longleftrightarrow> (w_height p, w_block p) \<in> set hist"
| "log_ok L C hist D s P (Tipped p tip) \<longleftrightarrow> (w_height p, w_block p) \<in> set hist"
| "log_ok L C hist D s P (Wrote h b r) \<longleftrightarrow> (r = Ok () \<longrightarrow> (h, b) \<in> set hist)"
| "log_ok L C hist D s P (Found h e) \<longleftrightarrow> (h \<notin> D \<longrightarrow> seen L C hist s P h e)"
| "log_ok L C hist D s P (Fetching h e f local) \<longleftrightarrow> (h \<notin> D \<longrightarrow> seen L C hist s P h e)"
| "log_ok L C hist D s P (Read h r) \<longleftrightarrow> (h \<notin> D \<longrightarrow> (\<forall>b. r = Ok (Some b) \<longrightarrow> committed C hist h b))"
| "log_ok L C hist D s P c \<longleftrightarrow> True"

definition entry_free :: "'z store_scheme \<Rightarrow> pending set \<Rightarrow> u64 \<Rightarrow> bool" where
  "entry_free s P h \<longleftrightarrow>
     (\<forall>slot. index_entry_offset s h = Some slot \<longrightarrow> ie_size (entry_at s slot) \<noteq> 0 \<longrightarrow>
        free s P (ie_offset (entry_at s slot)) (22 + unat (ie_size (entry_at s slot))))"

definition claims_apart :: "call list \<Rightarrow> bool" where
  "claims_apart cs \<longleftrightarrow>
     (\<forall>i j p q. i < length cs \<longrightarrow> j < length cs \<longrightarrow> i \<noteq> j \<longrightarrow> claim (cs ! i) = Some p \<longrightarrow> claim (cs ! j) = Some q \<longrightarrow>
        unat (w_end p) \<le> unat (w_prev q) \<or> unat (w_end q) \<le> unat (w_prev p))"

definition claims_ok :: "'z store_scheme \<Rightarrow> call list \<Rightarrow> bool" where
  "claims_ok s cs \<longleftrightarrow>
     claims_apart cs \<and>
     (\<forall>p \<in> claims cs. unat (w_end p) \<le> unat (data_highwater s) \<and> small_offset s (w_offset p))"

definition shared_ok :: "libs \<Rightarrow> (u64 \<rightharpoonup> bytes) \<Rightarrow> 'z calls \<Rightarrow> bool" where
  "shared_ok L C x \<longleftrightarrow>
     (case x of (s, cs, hist) \<Rightarrow>
        fs_inv s \<and> claims_ok s cs \<and>
        (\<forall>c \<in> set cs. call_ok L s c \<and> data_ok s c \<and> log_ok L C hist (spoilt cs) s (claims cs) c) \<and>
        (\<forall>h. h \<notin> spoilt cs \<longrightarrow> entry_free s (claims cs) h \<and> contents L s h = (C ++ map_of hist) h))"

section \<open>What a step keeps\<close>

lemma claims_update:
  assumes "i < length cs"
  shows "claims (cs[i := k]) \<subseteq> claims cs \<union> {p. claim k = Some p}"
    "claim (cs ! i) = Some p \<Longrightarrow> p \<in> claims cs"
    "claim (cs ! i) = claim k \<Longrightarrow> claims (cs[i := k]) = claims cs"
proof -
  show "claims (cs[i := k]) \<subseteq> claims cs \<union> {p. claim k = Some p}"
    using set_update_subset_insert [of cs i k] by (auto simp: claims_def)
  show "claim (cs ! i) = Some p \<Longrightarrow> p \<in> claims cs" using assms by (force simp: claims_def)
  assume "claim (cs ! i) = claim k"
  then have "map claim (cs[i := k]) = map claim cs"
    using assms by (metis list_update_id map_update)
  then have "claim ` set (cs[i := k]) = claim ` set cs" by (metis list.set_map)
  then show "claims (cs[i := k]) = claims cs"
    unfolding claims_def by (metis (no_types, lifting) imageE imageI)
qed

lemma claims_other:
  assumes "q \<in> claims (cs[i := k])" and "claim k = None"
  obtains j where "j < length cs" "j \<noteq> i" "claim (cs ! j) = Some q"
proof -
  obtain c where c: "c \<in> set (cs[i := k])" "claim c = Some q" using assms(1) by (auto simp: claims_def)
  then obtain j where j: "j < length (cs[i := k])" "cs[i := k] ! j = c" by (meson in_set_conv_nth)
  then show ?thesis using that c(2) assms(2) by (cases "j = i") auto
qed

lemma small_below:
  assumes "addressable s" and "unat off \<le> unat (data_highwater s)" shows "small_offset s off"
proof -
  have "unat off div unat c \<le> unat (data_highwater s) div unat c" for c :: u64
    using assms(2) by (rule div_le_mono)
  from le_less_trans [OF this] show ?thesis
    using assms(1) by (auto simp: small_offset_def addressable_def)
qed

text \<open>The regions apart from the claim of the call that takes the step.\<close>

lemma step_region:
  assumes st: "step_call L held c s = (k, t)" and inv: "fs_inv s" and ok: "call_ok L s c"
    and fr: "free s P off n" and n: "0 < n" and so: "small_offset s off"
    and cl: "\<And>p. claim c = Some p \<Longrightarrow> p \<in> P \<and> small_offset s (w_offset p)"
  shows "region t off n = region s off n"
  using st inv ok
proof (cases rule: step_call_cases)
  case quiet
  then show ?thesis by (simp add: quiet_def)
next
  case (release p e)
  then show ?thesis by (simp add: release_reservation_def)
next
  case (data p i local pos bs)
  have p: "unat (w_prev p) \<le> unat (w_offset p)" "unat (w_end p) = unat (w_offset p) + w_size p"
    "unsplit s (w_offset p) (w_size p)" using data(4) by (simp_all add: pending_ok_def)
  have "p \<in> P" "small_offset s (w_offset p)" using cl data(1) by blast+
  moreover have "unat off + n \<le> unat (w_offset p) \<or> unat (w_offset p) + w_size p \<le> unat off"
    using fr p \<open>p \<in> P\<close> unfolding free_def by (metis le_trans)
  ultimately show ?thesis
    using fr data(6) n so p(3)
    by (intro region_apart [OF data(13) _ data(10-12)]) (auto simp: free_def fixed_def)
qed simp_all

lemma step_fixed:
  assumes st: "step_call L held c s = (k, t)" and inv: "fs_inv s" and ok: "call_ok L s c"
  shows "fixed s t \<and> fs_inv t \<and> call_ok L t k"
  using st inv ok
proof (cases rule: step_call_cases)
  case quiet
  then show ?thesis using fixed_cong(6) [of s t L k] by (simp add: quiet_def)
next
  case (reserve p)
  then have "fixed s t" by (simp add: fixed_def)
  then show ?thesis using reserve inv fixed_cong(5) [of s t L p] by simp
next
  case (release p e)
  then show ?thesis using inv by (simp add: release_reservation_def fixed_def)
next
  case (data p i local pos bs)
  then show ?thesis using fixed_cong(6) [of s t L k] by simp
next
  case (index p m fs)
  then have "fixed s t" by (simp add: fixed_def)
  then show ?thesis using index inv ok fixed_cong(5) [of s t L p] by auto
qed

lemma step_wrote: "step_call L held c s = (k, t) \<Longrightarrow> c = Wrote h b r \<Longrightarrow> k = c"
  by simp

text \<open>A step of call \<open>i\<close> keeps every extent no claim touches free, and its bytes.\<close>

lemma step_free:
  assumes st: "step_call L held (cs ! i) s = (k, t)" and i: "i < length cs"
    and inv: "fs_inv s" and ok: "call_ok L s (cs ! i)" and cl: "claims_ok s cs" and ad: "addressable s"
    and fr: "free s (claims cs) off n" and n: "0 < n"
  shows "free t (claims (cs[i := k])) off n" and "region t off n = region s off n"
proof -
  have so: "small_offset s off" using ad fr by (intro small_below) (simp_all add: free_def)
  show r: "region t off n = region s off n"
    by (rule step_region [OF st inv ok fr n so])
       (use cl claims_update(2) [OF i] in \<open>auto simp: claims_ok_def\<close>)
  have u: "unsplit t off n = unsplit s off n" using step_fixed [OF st inv ok] fixed_cong(1) by blast
  note cu = claims_update(1,3) [OF i, of k]
  have same: "free t (claims (cs[i := k])) off n" if "data_highwater t = data_highwater s" "claim k = claim (cs ! i) \<or> claim k = None"
  proof -
    have "claims (cs[i := k]) \<subseteq> claims cs" using that(2) cu by auto
    then show ?thesis using fr r u that(1) by (auto simp: free_def)
  qed
  from st inv ok show "free t (claims (cs[i := k])) off n"
  proof (cases rule: step_call_cases)
    case quiet
    then show ?thesis by (intro same) (simp_all add: quiet_def)
  next
    case (reserve p)
    have "unat (data_highwater s) \<le> unat (w_end p)" using reserve(4,5) by (simp add: pending_ok_def)
    moreover have "claims (cs[i := k]) \<subseteq> claims cs \<union> {p}" using cu(1) reserve(2) by auto
    ultimately show ?thesis using fr r u reserve(3,4) by (auto simp: free_def)
  next
    case (release p e)
    have p: "p \<in> claims cs" using claims_update(2) [OF i] release(1) by simp
    then have "unat off + n \<le> unat (w_prev p) \<or> unat (w_end p) \<le> unat off" using fr by (auto simp: free_def)
    then have "unat off + n \<le> unat (data_highwater t)"
      using fr n release(3) by (auto simp: free_def release_reservation_def)
    moreover have "claims (cs[i := k]) \<subseteq> claims cs" using cu(1) release(2) by auto
    ultimately show ?thesis using fr r u by (auto simp: free_def)
  next
    case (data p i local pos bs)
    then show ?thesis by (intro same) simp_all
  next
    case (index p m fs)
    then show ?thesis by (intro same) auto
  qed
qed

text \<open>The claims.\<close>

lemma claims_apart_update:
  assumes a: "claims_apart cs" and i: "i < length cs"
    and k: "\<And>p. claim k = Some p \<Longrightarrow> claim (cs ! i) \<noteq> Some p \<Longrightarrow>
       \<forall>q \<in> claims cs. unat (w_end q) \<le> unat (w_prev p)"
  shows "claims_apart (cs[i := k])"
  unfolding claims_apart_def
proof (intro allI impI)
  fix a b p q
  assume ab: "a < length (cs[i := k])" "b < length (cs[i := k])" "a \<noteq> b"
    and c: "claim (cs[i := k] ! a) = Some p" "claim (cs[i := k] ! b) = Some q"
  have other: "p \<in> claims cs" if "claim (cs ! j) = Some p" "j < length cs" for j p
    using claims_update(2) [OF that(2) that(1)] .
  consider "a = i" | "b = i" | "a \<noteq> i" "b \<noteq> i" by blast
  then show "unat (w_end p) \<le> unat (w_prev q) \<or> unat (w_end q) \<le> unat (w_prev p)"
  proof cases
    case 1
    then have p: "claim k = Some p" and q: "claim (cs ! b) = Some q" "b < length cs" using ab c i by auto
    show ?thesis
    proof (cases "claim (cs ! i) = Some p")
      case True
      then show ?thesis using a 1 q ab(3) i unfolding claims_apart_def by blast
    qed (use k [OF p] other [OF q] in blast)
  next
    case 2
    then have p: "claim k = Some q" and q: "claim (cs ! a) = Some p" "a < length cs" using ab c i by auto
    show ?thesis
    proof (cases "claim (cs ! i) = Some q")
      case True
      then show ?thesis using a 2 q ab(3) i unfolding claims_apart_def by blast
    qed (use k [OF p] other [OF q] in blast)
  next
    case 3
    then show ?thesis using a ab c unfolding claims_apart_def by auto
  qed
qed

lemma step_claims:
  assumes st: "step_call L held (cs ! i) s = (k, t)" and i: "i < length cs"
    and inv: "fs_inv s" and ok: "\<forall>c \<in> set cs. call_ok L s c" and cl: "claims_ok s cs" and ad: "addressable s"
  shows "claims_ok t (cs[i := k])"
proof -
  have oi: "call_ok L s (cs ! i)" using ok i by simp
  have fx: "small_offset t off = small_offset s off" for off
    using step_fixed [OF st inv oi] fixed_cong(2) by blast
  note cu = claims_update(1,3) [OF i, of k]
  have same: "claims_ok t (cs[i := k])" if "data_highwater t = data_highwater s" "claim k = claim (cs ! i) \<or> claim k = None"
  proof -
    have "claims_apart (cs[i := k])" using cl that(2) by (intro claims_apart_update i) (auto simp: claims_ok_def)
    moreover have "claims (cs[i := k]) \<subseteq> claims cs" using that(2) cu by auto
    ultimately show ?thesis using cl that(1) fx by (auto simp: claims_ok_def)
  qed
  from st inv oi show ?thesis
  proof (cases rule: step_call_cases)
    case quiet
    then show ?thesis by (intro same) (simp_all add: quiet_def)
  next
    case (reserve p)
    have hw: "unat (data_highwater s) \<le> unat (w_end p)" using reserve(4,5) by (simp add: pending_ok_def)
    have "claims_apart (cs[i := k])"
      using cl reserve by (intro claims_apart_update i) (auto simp: claims_ok_def)
    moreover have "claims (cs[i := k]) \<subseteq> claims cs \<union> {p}" using cu(1) reserve(2) by auto
    ultimately show ?thesis
      using cl hw reserve(3) reserve(6) [OF ad] fx unfolding claims_ok_def by (auto intro: le_trans)
  next
    case (release p e)
    have ap: "claims_apart (cs[i := k])" using cl release(2) by (intro claims_apart_update i) (auto simp: claims_ok_def)
    have "unat (w_end q) \<le> unat (data_highwater t) \<and> small_offset t (w_offset q)" if qc: "q \<in> claims (cs[i := k])" for q
    proof -
      obtain j where j: "j < length cs" "j \<noteq> i" "claim (cs ! j) = Some q"
        by (rule claims_other [OF qc]) (use release(2) in auto)
      have q: "q \<in> claims cs" using claims_update(2) [OF j(1,3)] .
      have w: "unat (w_end q) \<le> unat (w_prev p) \<or> unat (w_end p) \<le> unat (w_prev q)"
        using cl i j release(1) unfolding claims_ok_def claims_apart_def by auto
      have "pending_ok L s q" using call_ok_pending claim_pending [OF j(3)] ok j(1) by (metis nth_mem)
      then have "unat (w_prev q) < unat (w_end q)" by (simp add: pending_ok_def w_size_def)
      then show ?thesis
        using w cl q release(3) fx by (auto simp: claims_ok_def release_reservation_def)
    qed
    then show ?thesis using ap by (simp add: claims_ok_def)
  next
    case (data p i local pos bs)
    then show ?thesis by (intro same) simp_all
  next
    case (index p m fs)
    then show ?thesis by (intro same) auto
  qed
qed

text \<open>The entries of the index.\<close>

lemma step_entry:
  assumes st: "step_call L held c s = (k, t)" and inv: "fs_inv s" and ok: "call_ok L s c"
    and h: "index_entry_offset s h = Some slot" and ne: "\<And>p. c = Landed p \<Longrightarrow> w_height p \<noteq> h"
  shows "entry_at t slot = entry_at s slot"
  using st inv ok
proof (cases rule: step_call_cases)
  case quiet
  then show ?thesis using index_entry_offset_ge [OF h] by (simp add: quiet_def)
next
  case (release p e)
  then show ?thesis by (simp add: release_reservation_def)
next
  case (index p m fs)
  have "index_entry_offset s (w_height p) = Some (w_slot p)"
    using ok index(1) by (simp add: pending_ok_def)
  then have "unat (w_slot p) + 16 \<le> unat slot \<or> unat slot + 16 \<le> unat (w_slot p)"
    using h ne [OF index(1)] by (metis index_slots_apart)
  then have "entry_at t slot = entry_at (s\<lparr>faults := fs\<rparr>) slot"
    unfolding index(2) by (intro entry_kept) auto
  then show ?thesis by simp
qed simp_all

lemma peek_kept:
  assumes "index_entry_offset t h = index_entry_offset s h"
    and "\<And>slot. index_entry_offset s h = Some slot \<Longrightarrow> entry_at t slot = entry_at s slot"
    and "\<And>slot. index_entry_offset s h = Some slot \<Longrightarrow> ie_size (entry_at s slot) \<noteq> 0 \<Longrightarrow>
      region t (ie_offset (entry_at s slot)) (22 + unat (ie_size (entry_at s slot))) =
      region s (ie_offset (entry_at s slot)) (22 + unat (ie_size (entry_at s slot)))"
  shows "peek L t h = peek L s h"
  using assms by (cases "index_entry_offset s h") (simp_all add: peek_def Let_def)

lemma step_height:
  assumes st: "step_call L held (cs ! i) s = (k, t)" and i: "i < length cs"
    and inv: "fs_inv s" and ok: "call_ok L s (cs ! i)" and cl: "claims_ok s cs" and ad: "addressable s"
    and en: "entry_free s (claims cs) h" and ne: "\<And>p. cs ! i = Landed p \<Longrightarrow> w_height p \<noteq> h"
  shows "entry_free t (claims (cs[i := k])) h" and "contents L t h = contents L s h"
proof -
  have ix: "index_entry_offset t = index_entry_offset s" using step_fixed [OF st inv ok] fixed_cong(3) by blast
  have e: "entry_at t slot = entry_at s slot" if "index_entry_offset s h = Some slot" for slot
    by (rule step_entry [OF st inv ok that ne])
  have f: "free s (claims cs) (ie_offset (entry_at s slot)) (22 + unat (ie_size (entry_at s slot)))"
    if "index_entry_offset s h = Some slot" "ie_size (entry_at s slot) \<noteq> 0" for slot
    using en that by (simp add: entry_free_def)
  note sf = step_free [OF st i inv ok cl ad f]
  show "entry_free t (claims (cs[i := k])) h"
    using sf(1) e by (auto simp: entry_free_def ix)
  have "peek L t h = peek L s h" by (rule peek_kept) (use ix e sf(2) in auto)
  then show "contents L t h = contents L s h" by (simp add: contents_def)
qed

text \<open>The write of an index entry.\<close>

lemma step_lands:
  assumes st: "step_call L held (cs ! i) s = (Indexed p, t)" and i: "i < length cs" "cs ! i = Landed p"
    and inv: "fs_inv s" and ok: "call_ok L s (cs ! i)" and cl: "claims_ok s cs"
    and d: "data_ok s (cs ! i)"
  shows "fixed s t" and "free t (claims (cs[i := Indexed p])) (w_offset p) (w_size p)"
    and "region t (w_offset p) (w_size p) = serialize (w_header p) @ w_payload p"
    and "entry_at t (w_slot p) = entry_of p"
proof -
  have p: "pending_ok L s p" using ok i(2) by simp
  obtain r u where w: "write_all_at IndexFile (encode_entry (entry_of p)) (w_slot p) s = (r, u)" by fastforce
  from w obtain m fs where u: "u = log_write IndexFile (unat (w_slot p)) (take m (encode_entry (entry_of p))) (s\<lparr>faults := fs\<rparr>)"
    "r = Ok () \<Longrightarrow> m = length (encode_entry (entry_of p))" by (rule write_all_at_cases) blast
  have "r = Ok ()" "t = u" using st w i(2) by (cases r; auto simp: update_index_at_def)+
  then have t: "t = log_write IndexFile (unat (w_slot p)) (encode_entry (entry_of p)) (s\<lparr>faults := fs\<rparr>)"
    using u by simp
  show "entry_at t (w_slot p) = entry_of p" by (simp add: t entry_written)
  show fx: "fixed s t" using step_fixed [OF st inv ok] by blast
  show r: "region t (w_offset p) (w_size p) = serialize (w_header p) @ w_payload p"
    using d i(2) by (simp add: t)
  have "unat (w_offset p) + w_size p \<le> unat (data_highwater t)"
    using cl claims_update(2) [OF i(1), of p] i(2) p by (auto simp: claims_ok_def pending_ok_def t)
  moreover have "unat (w_end q) \<le> unat (w_offset p) \<or> unat (w_offset p) + w_size p \<le> unat (w_prev q)"
    if qc: "q \<in> claims (cs[i := Indexed p])" for q
  proof -
    obtain j where "j < length cs" "j \<noteq> i" "claim (cs ! j) = Some q"
      by (rule claims_other [OF qc]) auto
    then have "unat (w_end p) \<le> unat (w_prev q) \<or> unat (w_end q) \<le> unat (w_prev p)"
      using cl i unfolding claims_ok_def claims_apart_def by auto
    then show ?thesis using p by (auto simp: pending_ok_def)
  qed
  ultimately show "free t (claims (cs[i := Indexed p])) (w_offset p) (w_size p)"
    using p r fixed_cong(1) [OF fx] by (auto simp: free_def pending_ok_def w_size_def)
qed

lemma step_publish:
  assumes st: "step_call L held (cs ! i) s = (Indexed p, t)" and i: "i < length cs" "cs ! i = Landed p"
    and inv: "fs_inv s" and ok: "call_ok L s (cs ! i)" and cl: "claims_ok s cs"
    and d: "data_ok s (cs ! i)"
  shows "entry_free t (claims (cs[i := Indexed p])) (w_height p)" and "contents L t (w_height p) = Some (w_block p)"
proof -
  have p: "pending_ok L s p" using ok i(2) by simp
  note ld = step_lands [OF st i inv ok cl d]
  have ix: "index_entry_offset t (w_height p) = Some (w_slot p)"
    using p fixed_cong(3) [OF ld(1)] by (simp add: pending_ok_def)
  have n: "22 + unat (w_len p) = w_size p" using p by (simp add: pending_ok_def w_size_def)
  show "entry_free t (claims (cs[i := Indexed p])) (w_height p)"
    using ix ld(2,4) n by (simp add: entry_free_def entry_of_def)
  have b: "compress L (w_block p) = Ok (w_payload p)" "storable L (w_block p)" "w_block p \<noteq> []"
    "unat (w_len p) = length (w_payload p)" "w_header p = block_header_of L (w_height p) (w_block p) (w_len p)"
    using p by (simp_all add: pending_ok_def)
  have "w_payload p \<noteq> []" using compress_nonempty b(1-3) by (auto simp: storable_def)
  then have "w_len p \<noteq> 0" using b(4) by (auto simp: unat_eq_zero)
  moreover have "\<not> MAX_BLOCK_SIZE < w_len p"
    using b by (simp add: storable_def word_less_nat_alt MAX_BLOCK_SIZE_def not_less)
  moreover have "block_in L (w_len p) (region t (w_offset p) (w_size p)) = Ok (w_block p)"
    unfolding ld(3) b(5) using b(2) by (intro block_in_stored b(1,4)) (simp add: storable_def)
  ultimately show "contents L t (w_height p) = Some (w_block p)"
    using ix ld(4) n by (simp add: contents_def peek_def Let_def entry_of_def)
qed

section \<open>The calls\<close>

text \<open>What the other calls know stays true.\<close>

lemma data_ok_region:
  assumes "\<And>p. claim c = Some p \<Longrightarrow> length (region s (w_offset p) (w_size p)) = w_size p \<Longrightarrow>
      region t (w_offset p) (w_size p) = region s (w_offset p) (w_size p)"
    and "data_ok s c"
  shows "data_ok t c"
proof -
  have "region t (w_offset p) (w_size p) = region s (w_offset p) (w_size p)"
    if "claim c = Some p" "region s (w_offset p) (w_size p) = hb @ w_payload p" "length hb = 22" for p hb
    using assms(1) [OF that(1)] that(2,3) by (simp add: w_size_def)
  then show ?thesis using assms(2) by (cases c) (fastforce simp: length_serialize)+
qed

lemma step_data_others:
  assumes st: "step_call L held (cs ! i) s = (k, t)" and i: "i < length cs"
    and inv: "fs_inv s" and ok: "\<forall>c \<in> set cs. call_ok L s c" and cl: "claims_ok s cs"
    and j: "j < length cs" "j \<noteq> i" and d: "data_ok s (cs ! j)"
  shows "data_ok t (cs ! j)"
proof (rule data_ok_region [OF _ d])
  fix q assume q: "claim (cs ! j) = Some q" and len: "length (region s (w_offset q) (w_size q)) = w_size q"
  have qok: "pending_ok L s q" using call_ok_pending claim_pending [OF q] ok j(1) by (metis nth_mem)
  have qc: "q \<in> claims cs" by (rule claims_update(2) [OF j(1) q])
  have fr: "free s {p. claim (cs ! i) = Some p} (w_offset q) (w_size q)"
  proof -
    have "unat (w_end q) \<le> unat (w_prev p) \<or> unat (w_end p) \<le> unat (w_prev q)" if "claim (cs ! i) = Some p" for p
      using cl i j q that unfolding claims_ok_def claims_apart_def by blast
    then show ?thesis using qok len qc cl by (fastforce simp: free_def pending_ok_def claims_ok_def)
  qed
  show "region t (w_offset q) (w_size q) = region s (w_offset q) (w_size q)"
    by (rule step_region [OF st inv _ fr])
       (use ok i qc cl claims_update(2) [OF i] in \<open>auto simp: w_size_def claims_ok_def\<close>)
qed

lemma seen_kept:
  assumes "\<And>n off. free s P off n \<Longrightarrow> 0 < n \<Longrightarrow> free t P' off n \<and> region t off n = region s off n"
    and "set hist \<subseteq> set hist'" and "seen L C hist s P h e"
  shows "seen L C hist' t P' h e"
  using assms by (auto simp: seen_def committed_def Let_def)

lemma log_ok_kept:
  assumes "\<And>n off. free s P off n \<Longrightarrow> 0 < n \<Longrightarrow> free t P' off n \<and> region t off n = region s off n"
    and "set hist \<subseteq> set hist'" and "D \<subseteq> D'" and "log_ok L C hist D s P c"
  shows "log_ok L C hist' D' t P' c"
  using assms(2-4) seen_kept [OF assms(1,2)] by (cases c) (auto simp: committed_def)

lemma spoilt_update:
  assumes "step_call L held (cs ! i) s = (k, t)" and "i < length cs"
  shows "spoilt cs \<subseteq> spoilt (cs[i := k])"
proof
  fix h assume "h \<in> spoilt cs"
  then obtain b r where w: "Wrote h b r \<in> set cs" "r \<noteq> Ok ()" by (auto simp: spoilt_def)
  then obtain j where j: "j < length cs" "cs ! j = Wrote h b r" by (meson in_set_conv_nth)
  have "cs[i := k] ! j = Wrote h b r" using assms j by (cases "j = i") auto
  then have "Wrote h b r \<in> set (cs[i := k])" using j(1) by (metis length_list_update nth_mem)
  then show "h \<in> spoilt (cs[i := k])" using w(2) by (auto simp: spoilt_def)
qed

text \<open>What the call that took the step knows now.\<close>

lemma step_data_own:
  assumes st: "step_call L held c s = (k, t)" and inv: "fs_inv s" and ok: "call_ok L s c" and d: "data_ok s c"
  shows "data_ok t k"
proof (cases c)
  case (Located p f local)
  have p: "pending_ok L s p" "at_file s (w_offset p) f local" using ok Located by simp_all
  obtain r u where w: "write_all_at (hfile f) (w_payload p) (local + u64_of_len SERIALIZED_SIZE) s = (r, u)"
    by fastforce
  from w p(2) inv obtain i n where b: "split_offset (fs_max_data_file_size s) (w_offset p) = (i, local)"
    "\<forall>g. bytes_of u g = (if g = path_for i then pwrite (bytes_of s g) (unat local + 22) (take n (w_payload p)) else bytes_of s g)"
    "fixed s u" "r = Ok () \<longrightarrow> n = length (w_payload p)" "\<forall>m. r \<noteq> Panic m"
    unfolding local_plus [OF p, symmetric] by (rule data_write) blast
  show ?thesis
  proof (cases r)
    case (Ok x)
    then have k: "k = Payload_down p f local" "t = u" using st w Located by auto
    have ne: "w_payload p \<noteq> []"
      using p(1) compress_nonempty by (auto simp: pending_ok_def storable_def)
    have "\<exists>hb. length hb = 22 \<and> region u (w_offset p) (22 + length (w_payload p)) = hb @ w_payload p"
      by (rule region_payload [OF _ _ b(1) ne]) (use b Ok in \<open>simp_all add: fixed_def\<close>)
    then show ?thesis using k by (simp add: w_size_def)
  qed (use st w Located b(5) in auto)
next
  case (Payload_down p f local)
  have p: "pending_ok L s p" "at_file s (w_offset p) f local" using ok Payload_down by simp_all
  obtain r u where w: "write_all_at (hfile f) (serialize (w_header p)) local s = (r, u)"
    by fastforce
  from w p(2) inv obtain i n where b: "split_offset (fs_max_data_file_size s) (w_offset p) = (i, local)"
    "\<forall>g. bytes_of u g = (if g = path_for i then pwrite (bytes_of s g) (unat local) (take n (serialize (w_header p))) else bytes_of s g)"
    "fixed s u" "r = Ok () \<longrightarrow> n = length (serialize (w_header p))" "\<forall>m. r \<noteq> Panic m"
    by (rule data_write) blast
  obtain hb where hb: "region s (w_offset p) (22 + length (w_payload p)) = hb @ w_payload p" "length hb = 22"
    using d Payload_down by (auto simp: w_size_def)
  show ?thesis
  proof (cases r)
    case (Ok x)
    then have k: "k = Header_down p f" "t = u" using st w Payload_down by auto
    have "region u (w_offset p) (22 + length (w_payload p)) = serialize (w_header p) @ w_payload p"
      by (rule region_header [OF _ _ b(1) _ hb]) (use b Ok in \<open>simp_all add: fixed_def\<close>)
    then show ?thesis using k by (simp add: w_size_def)
  qed (use st w Payload_down b(5) in auto)
next
  case (Header_down p f)
  obtain r u where y: "(if sync s = Sync then sync_all (hfile f) else ret ()) s = (r, u)" by fastforce
  note y' = sync_quiet [OF y inv]
  have "region u = region s" "fs_inv u" using y'(1) by (simp_all add: quiet_def)
  then have "region (drop_handle held f u) = region s" using drop_handle_quiet [of u held f] by (simp add: quiet_def)
  then show ?thesis using st y y'(2) Header_down d by (cases r) auto
qed (use st in \<open>auto simp: pinned_resolve_def split: res.splits prod.splits option.splits if_splits\<close>)

lemma fetch_block_reads:
  assumes b: "fetch_block L e f local s = (Ok (Some b), t)" and at: "at_file s (ie_offset e) f local"
  shows "block_in L (ie_size e) (region s (ie_offset e) (22 + unat (ie_size e))) = Ok b"
proof -
  let ?n = "22 + unat (ie_size e)"
  from b [unfolded fetch_block_eq] obtain buf u where
    r: "read_exact_at (hfile f) ?n local s = (Ok buf, u)" and
    x: "res_map Some (block_in L (ie_size e) buf) = Ok (Some b)" by (rule io_bind_OkE) simp
  obtain i where i: "split_offset (fs_max_data_file_size s) (ie_offset e) = (i, local)" "hfile f = path_for i"
    using at by (auto simp: at_file_def)
  have "buf = region s (ie_offset e) ?n"
    using r i by (auto elim!: read_exact_at_OkE simp: region_eq)
  then show ?thesis using x by (cases "block_in L (ie_size e) buf") auto
qed

lemma committed_now:
  assumes "(C ++ map_of hist) h = Some b" shows "committed C hist h b"
  using assms by (auto simp: committed_def map_add_Some_iff dest: map_of_SomeD)

text \<open>An entry a reader has just found.\<close>

lemma found_seen:
  assumes slot: "index_entry_offset s h = Some slot" and e: "e = entry_at s slot"
    and z: "ie_size e \<noteq> 0" "\<not> MAX_BLOCK_SIZE < ie_size e"
    and en: "entry_free s P h" and c: "contents L s h = (C ++ map_of hist) h"
  shows "seen L C hist s P h e"
proof -
  have "(C ++ map_of hist) h = Some b"
    if "block_in L (ie_size e) (region s (ie_offset e) (22 + unat (ie_size e))) = Ok b" for b
    unfolding c [symmetric] using slot e z that by (simp add: contents_def peek_def Let_def)
  then show ?thesis
    using en slot e z committed_now by (auto simp: seen_def entry_free_def Let_def)
qed

lemma step_log_own:
  assumes st: "step_call L held (cs ! i) s = (k, t)" and i: "i < length cs"
    and inv: "fs_inv s" and ok: "call_ok L s (cs ! i)" and cl: "claims_ok s cs" and ad: "addressable s"
    and lg: "log_ok L C hist (spoilt cs) s (claims cs) (cs ! i)"
    and en: "\<And>h. h \<notin> spoilt cs \<Longrightarrow> entry_free s (claims cs) h \<and> contents L s h = (C ++ map_of hist) h"
  shows "log_ok L C (published (cs ! i) k @ hist) (spoilt (cs[i := k])) t (claims (cs[i := k])) k"
proof -
  let ?D = "spoilt (cs[i := k])" and ?P = "claims (cs[i := k])" and ?hist = "published (cs ! i) k @ hist"
  note sp = spoilt_update [OF st i]
  have keep: "seen L C ?hist t ?P h e" if "seen L C hist s (claims cs) h e" for h e
    by (rule seen_kept [OF _ _ that]) (use step_free [OF st i inv ok cl ad] in auto)
  show ?thesis
  proof (cases "cs ! i")
    case (Read_call h)
    obtain r u where r: "read_index_entry h s = (r, u)" by fastforce
    note q = read_entry_quiet(3) [OF r inv]
    show ?thesis
    proof (cases "\<exists>e. k = Found h e")
      case True
      then obtain e where e: "k = Found h e" by blast
      then have x: "r = Ok (Some e)" "ie_size e \<noteq> 0" "\<not> MAX_BLOCK_SIZE < ie_size e"
        using st r Read_call by (auto split: res.splits option.splits if_splits)
      then obtain slot where slot: "index_entry_offset s h = Some slot" "e = entry_at s slot" using q by blast
      have "seen L C hist s (claims cs) h e" if "h \<notin> spoilt cs"
        using found_seen [OF slot x(2,3), of "claims cs" L C hist] en [OF that] by blast
      then show ?thesis using e keep sp by auto
    next
      case False
      then show ?thesis using st r Read_call by (auto split: res.splits option.splits if_splits)
    qed
  next
    case (Found h e)
    have "(\<exists>f local. k = Fetching h e f local) \<or> (\<exists>r. k = Read h r \<and> (\<forall>x. r \<noteq> Ok x))"
      using st Found by (auto split: res.splits prod.splits)
    then show ?thesis using lg Found keep sp by auto
  next
    case (Fetching h e f local)
    obtain r u where b: "fetch_block L e f local s = (r, u)" by fastforce
    have k: "k = Read h r" using st b Fetching by simp
    have "committed C ?hist h x" if "h \<notin> ?D" "r = Ok (Some x)" for x
    proof -
      have "block_in L (ie_size e) (region s (ie_offset e) (22 + unat (ie_size e))) = Ok x"
        using fetch_block_reads b ok Fetching that(2) by simp
      then show ?thesis using lg Fetching that(1) sp by (auto simp: seen_def Let_def committed_def)
    qed
    then show ?thesis unfolding k log_ok.simps by blast
  next
    case (Wrote h b r)
    then have "k = Wrote h b r" using st by simp
    then show ?thesis using lg by (simp add: Wrote published_def)
  next
    case (Read h r)
    then have "k = Read h r" using st by simp
    then show ?thesis using lg sp by (auto simp: Read published_def)
  qed (use st lg in \<open>auto simp: published_def split: res.splits prod.splits option.splits if_splits\<close>)
qed

section \<open>Every step keeps the invariant\<close>

lemma shared_ok_step:
  assumes x: "shared_ok L C (s, cs, hist)" and st: "calls_step L (s, cs, hist) (t, ds, hist')" and ad: "addressable s"
  shows "shared_ok L C (t, ds, hist')"
proof -
  from st obtain i k held where i: "i < length cs" and st: "step_call L held (cs ! i) s = (k, t)"
    and ds: "ds = cs[i := k]" and h': "hist' = published (cs ! i) k @ hist" by (rule calls_stepE) blast
  have inv: "fs_inv s" and cl: "claims_ok s cs" and ok: "\<forall>c \<in> set cs. call_ok L s c"
    and dt: "\<forall>c \<in> set cs. data_ok s c" and lg: "\<forall>c \<in> set cs. log_ok L C hist (spoilt cs) s (claims cs) c"
    and en: "\<And>h. h \<notin> spoilt cs \<Longrightarrow> entry_free s (claims cs) h \<and> contents L s h = (C ++ map_of hist) h"
    using x by (auto simp: shared_ok_def)
  have ci: "cs ! i \<in> set cs" using i by simp
  note oi = ok [rule_format, OF ci]
  note fx = step_fixed [OF st inv oi]
  have calls: "call_ok L t c \<and> data_ok t c \<and> log_ok L C hist' (spoilt ds) t (claims ds) c" if "c \<in> set ds" for c
  proof -
    obtain j where j: "j < length cs" "ds ! j = c" using \<open>c \<in> set ds\<close> ds by (metis in_set_conv_nth length_list_update)
    show ?thesis
    proof (cases "j = i")
      case True
      then have "c = k" using j ds i by simp
      then show ?thesis
        using fx step_data_own [OF st inv oi] step_log_own [OF st i inv oi cl ad _ en] dt lg ci
        unfolding ds h' by blast
    next
      case False
      then have c: "c = cs ! j" "c \<in> set cs" using j ds by auto
      have "log_ok L C hist' (spoilt ds) t (claims ds) c"
        by (rule log_ok_kept [where s = s and P = "claims cs" and hist = hist and D = "spoilt cs"])
           (use step_free [OF st i inv oi cl ad] spoilt_update [OF st i] lg c(2) in \<open>auto simp: ds h'\<close>)
      moreover have "data_ok t c"
        using step_data_others [OF st i inv ok cl j(1) False] dt c by simp
      moreover have "call_ok L t c" using ok c(2) fixed_cong(6) fx by blast
      ultimately show ?thesis by blast
    qed
  qed
  have heights: "entry_free t (claims ds) h \<and> contents L t h = (C ++ map_of hist') h" if hd: "h \<notin> spoilt ds" for h
  proof -
    have h: "h \<notin> spoilt cs" using hd spoilt_update [OF st i] ds by blast
    note sh = step_height [OF st i inv oi cl ad conjunct1 [OF en [OF h]]]
    show ?thesis
    proof (cases "\<exists>p. cs ! i = Landed p \<and> w_height p = h")
      case True
      then obtain p where p: "cs ! i = Landed p" "w_height p = h" by blast
      from st inv oi show ?thesis
      proof (cases rule: step_call_cases)
        case (index q m fs)
        have "k = Indexed p"
        proof (rule ccontr)
          assume "k \<noteq> Indexed p"
          then obtain e where "k = Wrote h (w_block p) (Err e)" using index p by auto
          then have "h \<in> spoilt ds" using ds set_update_memI [OF i, of k] by (auto simp: spoilt_def)
          then show False using hd by blast
        qed
        then show ?thesis
          using step_publish [OF _ i p(1) inv oi cl] st dt ci p by (auto simp: ds h' published_def)
      qed (use p st in \<open>auto simp: update_index_at_def published_def split: res.splits prod.splits\<close>)
    next
      case False
      have "(map_of hist') h = (map_of hist) h"
        using False by (auto simp: h' published_def split: call.splits)
      then show ?thesis using sh False en [OF h] unfolding ds map_add_def by auto
    qed
  qed
  show ?thesis
    using fx step_claims [OF st i inv ok cl ad] calls heights by (auto simp: shared_ok_def ds)
qed

section \<open>Whole runs\<close>

fun fresh_call :: "libs \<Rightarrow> call \<Rightarrow> bool" where
  "fresh_call L (Write_call h b) \<longleftrightarrow> storable L b"
| "fresh_call L (Read_call h) \<longleftrightarrow> True"
| "fresh_call L c \<longleftrightarrow> False"

text \<open>The block a writer was given.\<close>

fun job :: "call \<Rightarrow> (u64 \<times> bytes) option" where
  "job (Write_call h b) = Some (h, b)"
| "job (Wrote h b r) = Some (h, b)"
| "job c = map_option (\<lambda>p. (w_height p, w_block p)) (pending_of c)"

lemma step_job: "step_call L held c s = (k, t) \<Longrightarrow> job k = job c"
  by (cases c) (auto dest: begin_write_height split: res.splits prod.splits option.splits if_splits)

lemma published_job: "x \<in> set (published c k) \<Longrightarrow> job c = Some x"
  by (cases c) (auto simp: published_def split: call.splits)

lemma calls_step_jobs:
  assumes "calls_step L (s, cs, hist) (t, ds, hist')"
  shows "map job ds = map job cs" and "Some ` set hist' \<subseteq> Some ` set hist \<union> set (map job cs)"
proof -
  obtain i k held where i: "i < length cs" and st: "step_call L held (cs ! i) s = (k, t)"
    and ds: "ds = cs[i := k]" and h': "hist' = published (cs ! i) k @ hist"
    using assms by (rule calls_stepE) blast
  show "map job ds = map job cs"
    using i step_job [OF st] by (simp add: ds map_update) (metis length_map list_update_id nth_map)
  have "Some ` set (published (cs ! i) k) \<subseteq> {job (cs ! i)}"
    using published_job by fastforce
  moreover have "job (cs ! i) \<in> set (map job cs)" using i by simp
  ultimately show "Some ` set hist' \<subseteq> Some ` set hist \<union> set (map job cs)"
    unfolding h' by (auto simp: image_Un)
qed

lemma calls_step_fixed:
  assumes "calls_step L (s, cs, hist) (t, ds, hist')" and "fs_inv s" and "\<forall>c \<in> set cs. call_ok L s c"
  shows "fixed s t \<and> fs_inv t \<and> (\<forall>c \<in> set ds. call_ok L t c)"
proof -
  obtain i k held where i: "i < length cs" and st: "step_call L held (cs ! i) s = (k, t)"
    and ds: "ds = cs[i := k]" using assms(1) by (rule calls_stepE) blast
  have "call_ok L s (cs ! i)" using assms(3) i by simp
  note f = step_fixed [OF st assms(2) this]
  then have "\<forall>c \<in> set cs. call_ok L t c" using fixed_cong(6) assms(3) by blast
  then show ?thesis using f set_update_subset_insert [of cs i k] unfolding ds by blast
qed

lemma calls_run_fixed:
  assumes "(calls_step L)\<^sup>*\<^sup>* (s, cs, hist) (t, ds, hist')" and "fs_inv s" and "\<forall>c \<in> set cs. call_ok L s c"
  shows "fixed s t \<and> fs_inv t \<and> (\<forall>c \<in> set ds. call_ok L t c)"
  using assms
proof (induction "(t, ds, hist')" arbitrary: t ds hist' rule: rtranclp_induct)
  case (step y)
  obtain u us hs where y: "y = (u, us, hs)" by (cases y)
  then have "fixed s u \<and> fs_inv u \<and> (\<forall>c \<in> set us. call_ok L u c)" using step by blast
  then show ?case using calls_step_fixed step.hyps(2) y fixed_trans by blast
qed simp

lemma calls_run_jobs:
  assumes "(calls_step L)\<^sup>*\<^sup>* (s, cs, hist) (t, ds, hist')"
  shows "map job ds = map job cs" and "Some ` set hist' \<subseteq> Some ` set hist \<union> set (map job cs)"
proof -
  have "map job ds = map job cs \<and> Some ` set hist' \<subseteq> Some ` set hist \<union> set (map job cs)"
    using assms
  proof (induction "(t, ds, hist')" arbitrary: t ds hist' rule: rtranclp_induct)
    case (step y)
    obtain u us hs where y: "y = (u, us, hs)" by (cases y)
    then have ih: "map job us = map job cs" "Some ` set hs \<subseteq> Some ` set hist \<union> set (map job cs)"
      using step.hyps(3) by blast+
    show ?case using calls_step_jobs [OF step.hyps(2) [unfolded y]] ih by auto
  qed simp
  then show "map job ds = map job cs" "Some ` set hist' \<subseteq> Some ` set hist \<union> set (map job cs)" by blast+
qed

lemma fresh_shared_ok:
  assumes s: "store_ok s" and f: "\<forall>c \<in> set cs. fresh_call L c"
  shows "shared_ok L (contents L s) (s, cs, [])"
proof -
  have c: "call_ok L s c \<and> data_ok s c \<and> log_ok L C [] D s P c \<and> claim c = None" if "c \<in> set cs" for c C D P
    using f that by (cases c) auto
  then have cl: "claims cs = {}" "claims_apart cs" by (auto simp: claims_def claims_apart_def)
  have e: "entry_free s {} h" for h
  proof -
    have "entry_ok s h" using s by (simp add: store_ok_def sound_def)
    then show ?thesis by (auto simp: entry_ok_def entry_free_def free_def placed_def Let_def)
  qed
  have "fs_inv s" using s by (simp add: store_ok_def)
  moreover have "claims_ok s cs" using cl by (simp add: claims_ok_def)
  moreover have "contents L s h = (contents L s ++ map_of []) h" for h by simp
  ultimately show ?thesis
    unfolding shared_ok_def prod.case cl(1) using e c by blast
qed

lemma calls_run_ok:
  assumes run: "(calls_step L)\<^sup>*\<^sup>* (s, cs, []) (t, ds, hist)" and s: "store_ok s"
    and f: "\<forall>c \<in> set cs. fresh_call L c"
    and ad: "\<forall>x. (calls_step L)\<^sup>*\<^sup>* (s, cs, []) x \<longrightarrow> addressable (fst x)"
  shows "shared_ok L (contents L s) (t, ds, hist)"
  using run
proof (induction "(t, ds, hist)" arbitrary: t ds hist rule: rtranclp_induct)
  case base
  then show ?case using fresh_shared_ok [OF s f] by simp
next
  case (step y)
  obtain u us hs where y: "y = (u, us, hs)" by (cases y)
  have "addressable (fst y)" using ad step.hyps(1) by blast
  then show ?case using shared_ok_step [OF step.hyps(3) [OF y]] step.hyps(2) y by simp
qed

text \<open>
  C6: any number of writers and readers on one store, their steps interleaved in any way, any
  calls to the system failing, torn writes included: what a height holds is what the writes that
  got as far as the index made of it, one after the other; every write that returned \<open>Ok\<close> is one
  of them; and a block a reader returned was in the store or has been written by one of them. Only
  heights with a write that failed are left out.
\<close>

theorem interleaved_calls_linearize:
  assumes "store_ok s" and "\<forall>c \<in> set cs. fresh_call L c"
    and "(calls_step L)\<^sup>*\<^sup>* (s, cs, []) (t, ds, hist)"
    and "\<forall>x. (calls_step L)\<^sup>*\<^sup>* (s, cs, []) x \<longrightarrow> addressable (fst x)"
  shows "(\<forall>h. h \<notin> spoilt ds \<longrightarrow> contents L t h = (contents L s ++ map_of hist) h) \<and>
    (\<forall>(h, b) \<in> set hist. Write_call h b \<in> set cs) \<and>
    (\<forall>h b. Wrote h b (Ok ()) \<in> set ds \<longrightarrow> (h, b) \<in> set hist) \<and>
    (\<forall>h b. Read h (Ok (Some b)) \<in> set ds \<longrightarrow> h \<notin> spoilt ds \<longrightarrow> (h, b) \<in> set hist \<or> contents L s h = Some b)"
proof -
  have ok: "shared_ok L (contents L s) (t, ds, hist)" by (rule calls_run_ok [OF assms(3,1,2,4)])
  have log: "log_ok L (contents L s) hist (spoilt ds) t (claims ds) c" if "c \<in> set ds" for c
    using ok that by (auto simp: shared_ok_def)
  have "Write_call h b \<in> set cs" if "(h, b) \<in> set hist" for h b
  proof -
    have "Some (h, b) \<in> job ` set cs"
      using subsetD [OF calls_run_jobs(2) [OF assms(3)], of "Some (h, b)"] that by simp
    then obtain c where c: "c \<in> set cs" "job c = Some (h, b)" by auto
    have "fresh_call L c" using assms(2) c(1) by blast
    then have "c = Write_call h b" using c(2) by (cases c) auto
    then show ?thesis using c(1) by simp
  qed
  then show ?thesis using ok log by (fastforce simp: shared_ok_def committed_def)
qed

definition small_store :: store where
  "small_store = empty_store None 1 Async 4"

definition three_calls :: "call list" where
  "three_calls = [Write_call 1 [5], Write_call 2 [6, 7], Read_call 1]"

definition three_calls_end :: "unit calls" where
  "three_calls_end = run_calls plain_libs
     [0, 1, 1, 0, 0, 1, 1, 1, 1, 0, 0, 0, 2, 1, 0, 2, 0, 0, 2, 0, 0, 0, 0, 1, 1, 1, 1, 1] (small_store, three_calls, [])"

lemma three_calls_run: "(calls_step plain_libs)\<^sup>*\<^sup>* (small_store, three_calls, []) three_calls_end"
  unfolding three_calls_end_def by (rule run_calls_steps) (simp add: three_calls_def)

lemma storable_plain: "length b \<le> 2 ^ 30 \<Longrightarrow> storable plain_libs b"
  by (simp add: storable_def)

lemma unbounded_addressable:
  assumes "(calls_step L)\<^sup>*\<^sup>* (s, cs, []) x" and "fs_max_data_file_size s = None" and "fs_inv s"
    and "\<forall>c \<in> set cs. fresh_call L c"
  shows "addressable (fst x)"
proof -
  obtain t ds hist where x: "x = (t, ds, hist)" by (cases x)
  have "call_ok L s c" if "c \<in> set cs" for c using assms(4) that by (cases c) auto
  then have "fixed s t" using calls_run_fixed assms(1,3) x by blast
  then show ?thesis using assms(2) x by (simp add: fixed_def addressable_def)
qed

theorem interleaved_calls_linearize_witness:
  "case three_calls_end of (t, ds, hist) \<Rightarrow>
     ds = [Wrote 1 [5] (Ok ()), Wrote 2 [6, 7] (Ok ()), Read 1 (Ok (Some [5]))] \<and>
     contents plain_libs t 1 = Some [5] \<and> contents plain_libs t 2 = Some [6, 7]"
proof -
  obtain t ds hist where e: "three_calls_end = (t, ds, hist)" by (cases three_calls_end)
  have r: "fst (snd three_calls_end) = [Wrote 1 [5] (Ok ()), Wrote 2 [6, 7] (Ok ()), Read 1 (Ok (Some [5]))]"
    "snd (snd three_calls_end) = [(1, [5]), (2, [6, 7])]" by code_simp+
  have d: "ds = [Wrote 1 [5] (Ok ()), Wrote 2 [6, 7] (Ok ()), Read 1 (Ok (Some [5]))]"
    "hist = [(1, [5]), (2, [6, 7])]" using r unfolding e fst_conv snd_conv .
  have s: "store_ok small_store" "fs_inv small_store" "fs_max_data_file_size small_store = None"
    using empty_store_ready [of None 1 Async 4]
    by (simp_all add: store_ok_def small_store_def ready_def)
  have f: "\<forall>c \<in> set three_calls. fresh_call plain_libs c" by (simp add: three_calls_def storable_plain)
  have "\<forall>h. h \<notin> spoilt ds \<longrightarrow> contents plain_libs t h = (contents plain_libs small_store ++ map_of hist) h"
    using interleaved_calls_linearize [OF s(1) f three_calls_run [unfolded e]] unbounded_addressable [OF _ s(3,2) f]
    by blast
  then show ?thesis by (simp add: e d spoilt_def)
qed

end
