(* ===== verification/Gapless.thy ===== *)
theory Gapless
  imports Contiguity Interleaved
begin

text \<open>
  The contiguity counter under concurrent writers. Each writer raises the counter with one
  compare-and-exchange and walks on over the entries behind it; there is no lock. Whatever the
  interleaving, the counter never covers a gap, and it never stops short of a present entry without
  some call being on its way to raise it.
\<close>

section \<open>What a step does to the counter\<close>

lemma present_quiet: "quiet s t \<Longrightarrow> present t = present s"
  by (rule present_cong) (auto simp: quiet_def fixed_def dest: index_entry_offset_ge)

lemma entry_of_nonzero:
  assumes "pending_ok L s p" shows "\<not> zero_entry (entry_of p)"
proof -
  have "w_payload p \<noteq> []" using assms compress_nonempty by (auto simp: pending_ok_def storable_def)
  then have "w_len p \<noteq> 0" using assms by (auto simp: pending_ok_def unat_eq_zero)
  then show ?thesis by (simp add: zero_entry_def entry_of_def)
qed

text \<open>Entries appear when a writer enters its block, and never disappear.\<close>

lemma step_present:
  assumes st: "step_call L held c s = (k, t)" and inv: "fs_inv s" and ok: "call_ok L s c" and nf: "faults s = []"
  shows "present t h \<longleftrightarrow> present s h \<or> (\<exists>p. c = Landed p \<and> k = Indexed p \<and> w_height p = h)"
  using st inv ok
proof (cases rule: step_call_cases)
  case quiet
  have "k \<noteq> Indexed p" if "c = Landed p" for p using quiet(3) that by auto
  then show ?thesis using present_quiet [OF quiet(1)] by auto
next
  case (reserve p)
  then have "present t = present s" by (intro present_cong) simp_all
  then show ?thesis using reserve by simp
next
  case (release p e)
  then have "present t = present s" by (intro present_cong) (simp_all add: release_reservation_def)
  then show ?thesis using release by simp
next
  case (data p i local pos bs)
  have "present t = present s" using data(6,9) by (intro present_cong) (simp_all add: fixed_def)
  moreover have "k \<noteq> Indexed q" for q using data(2) by auto
  ultimately show ?thesis by simp
next
  case (index p m fs)
  have p: "pending_ok L s p" using ok index(1) by simp
  have k: "k = Indexed p" "t = log_write IndexFile (unat (w_slot p)) (encode_entry (entry_of p)) s"
    using st nf index(1) by (simp_all add: update_index_at_def)
  have off: "index_entry_offset t = index_entry_offset s" using k(2) by (intro index_entry_offset_header) simp
  have slot: "index_entry_offset s (w_height p) = Some (w_slot p)" using p by (simp add: pending_ok_def)
  have "present t h = present s h" if "h \<noteq> w_height p"
  proof (cases "index_entry_offset s h")
    case (Some sl)
    have "unat (w_slot p) + 16 \<le> unat sl \<or> unat sl + 16 \<le> unat (w_slot p)"
      using slot Some that by (metis index_slots_apart)
    then show ?thesis using Some off by (simp add: present_def k(2) entry_kept)
  qed (simp add: present_def off)
  moreover have "present t (w_height p)"
    using slot off entry_of_nonzero [OF p] by (simp add: present_def k(2) entry_written)
  ultimately show ?thesis using index(1) k(1) by auto
qed

text \<open>With calls that succeed the script of failures stays empty.\<close>

lemma same_files_faults: "same_files s t \<Longrightarrow> faults s = [] \<Longrightarrow> faults t = []"
  by (simp add: same_files_def)

lemma drop_handle_faults [simp]: "faults (drop_handle held f s) = faults s"
  by (simp add: drop_handle_def close_fd_def)

lemma bookkeeping_faults: "bookkeeping s t \<Longrightarrow> faults s = [] \<Longrightarrow> faults t = []"
  by (simp add: bookkeeping_def)

lemma fetch_block_faults:
  assumes "fetch_block L e f local s = (r, t)" and "faults s = []" shows "faults t = []"
proof -
  obtain r1 u where u: "read_exact_at (hfile f) (22 + unat (ie_size e)) local s = (r1, u)" by fastforce
  then have "t = u" using assms(1) by (cases r1) (auto simp: fetch_block_eq io_bind_def)
  then show ?thesis using read_exact_at_faults [OF u assms(2)] by simp
qed

text \<open>The counter moves by a compare-and-exchange only.\<close>

definition raises :: "'z store_scheme \<Rightarrow> call \<Rightarrow> 'z store_scheme \<Rightarrow> call \<Rightarrow> bool" where
  "raises s c t k \<longleftrightarrow>
     (\<exists>p. c = Indexed p \<and> max_contiguous_height s = saturating_sub (w_height p) 1 \<and>
        t = s\<lparr>max_contiguous_height := w_height p\<rparr> \<and> k = Raised p (saturating_sub (w_height p) 1 + 1)) \<or>
     (\<exists>p. c = Seen p (max_contiguous_height s) \<and>
        t = s\<lparr>max_contiguous_height := max_contiguous_height s + 1\<rparr> \<and> k = Raised p (max_contiguous_height s + 1))"

lemma more_counter: "fset.more t = fset.more s \<Longrightarrow> max_contiguous_height t = max_contiguous_height s"
  by (rule store_fields(4))

lemma drop_handle_more [simp]: "fset.more (drop_handle held f s) = fset.more s"
  by (simp add: drop_handle_def close_fd_def)

lemma write_all_at_counter:
  "write_all_at f bs off s = (r, t) \<Longrightarrow> max_contiguous_height t = max_contiguous_height (s :: 'z store_scheme)"
  by (erule write_all_at_cases) simp

lemma read_index_entry_counter:
  "read_index_entry h s = (r, t) \<Longrightarrow> max_contiguous_height t = max_contiguous_height s"
  by (erule read_index_entry_cases) simp_all

lemma step_counter:
  assumes st: "step_call L held c s = (k, t)" and inv: "fs_inv s" and ok: "call_ok L s c" and nf: "faults s = []"
  shows "faults t = [] \<and> (max_contiguous_height t = max_contiguous_height s \<or> raises s c t k)"
proof (cases c)
  case (Write_call h b)
  obtain r u where b: "begin_write L h b s = (r, u)" by fastforce
  have "storable L b" using ok Write_call by simp
  with b inv have "faults u = [] \<and> max_contiguous_height u = max_contiguous_height s"
    by (cases rule: begin_write_cases) (use nf in simp_all)
  moreover have "t = u" using st b Write_call by (cases r) auto
  ultimately show ?thesis by simp
next
  case (Reserved p)
  obtain r u where r: "pinned_resolve held (w_offset p) s = (r, u)" by fastforce
  have "same_files s u" by (rule pinned_resolve_frame(1) [OF r inv])
  moreover have "t = u" using st r Reserved by (cases r) auto
  ultimately show ?thesis using nf same_files_faults more_counter by (auto simp: same_files_def)
next
  case (Located p f local)
  obtain r u where w: "write_all_at (hfile f) (w_payload p) (local + u64_of_len SERIALIZED_SIZE) s = (r, u)" by fastforce
  have "t = u \<or> t = drop_handle held f u" using st w Located by (cases r) auto
  then show ?thesis
    using write_all_at_faults [OF w nf] write_all_at_counter [OF w] more_counter [of "drop_handle held f u" u] by auto
next
  case (Payload_down p f local)
  obtain r u where w: "write_all_at (hfile f) (serialize (w_header p)) local s = (r, u)" by fastforce
  have "t = u \<or> t = drop_handle held f u" using st w Payload_down by (cases r) auto
  then show ?thesis
    using write_all_at_faults [OF w nf] write_all_at_counter [OF w] more_counter [of "drop_handle held f u" u] by auto
next
  case (Header_down p f)
  obtain r u where y: "(if sync s = Sync then sync_all (hfile f) else ret ()) s = (r, u)" by fastforce
  have "faults u = [] \<and> max_contiguous_height u = max_contiguous_height s"
    using y nf by (auto simp: io_simps split: if_splits)
  moreover have "t = u \<or> t = drop_handle held f u" using st y Header_down by (cases r) auto
  ultimately show ?thesis using more_counter [of "drop_handle held f u" u] by auto
next
  case (Failing p e)
  then show ?thesis using st nf by (auto simp: release_reservation_def)
next
  case (Landed p)
  then show ?thesis using st nf by (auto simp: update_index_at_def)
next
  case (Indexed p)
  then show ?thesis using st nf by (auto simp: raises_def split: if_splits)
next
  case (Raised p cur)
  obtain r u where e: "read_index_entry (cur + 1) s = (r, u)" by fastforce
  have "t = u" using st e Raised by (auto split: res.splits option.splits if_splits)
  then show ?thesis using read_index_entry_faults [OF e nf] read_index_entry_counter [OF e] by simp
next
  case (Seen p cur)
  then show ?thesis using st nf by (auto simp: raises_def split: if_splits)
next
  case (Settled p)
  then show ?thesis using st nf by (auto simp: update_highwater_def split: if_splits)
next
  case (Tipped p tip)
  obtain r u where m: "maybe_checkpoint (w_height p) tip (w_end p) s = (r, u)" by fastforce
  have "faults u = [] \<and> max_contiguous_height u = max_contiguous_height s"
    using m by (cases rule: maybe_checkpoint_cases)
      (use nf checkpoint_counter bookkeeping_faults checkpoint_bookkeeping(1) in blast)+
  then show ?thesis using st m Tipped by simp
next
  case (Read_call h)
  obtain r u where e: "read_index_entry h s = (r, u)" by fastforce
  have "t = u" using st e Read_call by (auto split: res.splits option.splits if_splits)
  then show ?thesis using read_index_entry_faults [OF e nf] read_index_entry_counter [OF e] by simp
next
  case (Found h e)
  obtain r u where r: "pinned_resolve held (ie_offset e) s = (r, u)" by fastforce
  have "same_files s u" by (rule pinned_resolve_frame(1) [OF r inv])
  moreover have "t = u" using st r Found by (cases r) auto
  ultimately show ?thesis using nf same_files_faults more_counter by (auto simp: same_files_def)
next
  case (Fetching h e f local)
  obtain r u where b: "fetch_block L e f local s = (r, u)" by fastforce
  have "t = drop_handle held f u" using st b Fetching by simp
  moreover obtain fs where "u = s\<lparr>faults := fs\<rparr>" using fetch_block_state [OF b] by blast
  ultimately show ?thesis
    using fetch_block_faults [OF b nf] more_counter [of "drop_handle held f u" u] by simp
qed (use st nf in auto)

section \<open>The invariant\<close>

text \<open>A call that is about to raise the counter from \<open>m\<close>, or to look whether it can.\<close>

fun carries :: "u64 \<Rightarrow> call \<Rightarrow> bool" where
  "carries m (Indexed p) \<longleftrightarrow> w_height p = m + 1"
| "carries m (Raised p cur) \<longleftrightarrow> cur = m"
| "carries m (Seen p cur) \<longleftrightarrow> cur = m"
| "carries m c \<longleftrightarrow> False"

text \<open>The entries a call has seen to be there.\<close>

fun knows :: "'z store_scheme \<Rightarrow> call \<Rightarrow> bool" where
  "knows s (Indexed p) \<longleftrightarrow> present s (w_height p)"
| "knows s (Seen p cur) \<longleftrightarrow> present s (cur + 1)"
| "knows s c \<longleftrightarrow> True"

definition gapless :: "'z store_scheme \<Rightarrow> bool" where
  "gapless s \<longleftrightarrow>
     saturating_sub (ih_min_height (header s)) 1 \<le> max_contiguous_height s \<and>
     (\<forall>k. ih_min_height (header s) \<le> k \<and> k \<le> max_contiguous_height s \<longrightarrow> present s k)"

definition counter_ok :: "libs \<Rightarrow> 'z store_scheme \<Rightarrow> call list \<Rightarrow> bool" where
  "counter_ok L s cs \<longleftrightarrow>
     fs_inv s \<and> faults s = [] \<and> ih_min_height (header s) \<noteq> 0 \<and> gapless s \<and>
     (\<forall>c \<in> set cs. call_ok L s c \<and> knows s c) \<and>
     (present s (max_contiguous_height s + 1) \<longrightarrow> (\<exists>c \<in> set cs. carries (max_contiguous_height s) c))"

lemma present_min: "present s h \<Longrightarrow> ih_min_height (header s) \<le> h"
  by (auto simp: present_def index_entry_offset_Some word_le_nat_alt split: option.splits)

lemma present_not_wrapped:
  assumes "present s (m + 1)" and "ih_min_height (header s) \<noteq> 0" shows "unat (m + 1) = unat m + 1"
proof -
  have "m + 1 \<noteq> 0" using present_min [OF assms(1)] assms(2) by auto
  then have "m \<noteq> u64_max" by auto
  then show ?thesis by (rule unat_Suc_u64)
qed

text \<open>Raising the counter by one present entry.\<close>

lemma gapless_raise:
  assumes g: "gapless s" and p: "present s h" and h: "unat h = unat (max_contiguous_height s) + 1"
    and t: "t = s\<lparr>max_contiguous_height := h\<rparr>"
  shows "gapless t"
proof -
  have pt: "present t = present s" unfolding t by (rule present_cong) (simp_all add: entry_at_def)
  have "present s k" if "ih_min_height (header s) \<le> k" "k \<le> h" for k
  proof (cases "k = h")
    case False
    then have "unat k \<noteq> unat h" using word_unat_eq_iff by blast
    then have "k \<le> max_contiguous_height s" using that(2) h by (simp add: word_le_nat_alt)
    then show ?thesis using g that(1) by (simp add: gapless_def)
  qed (use p in simp)
  moreover have "max_contiguous_height s \<le> h" using h by (simp add: word_le_nat_alt)
  ultimately show ?thesis using g pt by (auto simp: gapless_def t)
qed

lemma raises_by_one:
  assumes r: "raises s c t k" and kn: "knows s c" and m: "ih_min_height (header s) \<noteq> 0"
  shows "t = s\<lparr>max_contiguous_height := max_contiguous_height t\<rparr>"
    "unat (max_contiguous_height t) = unat (max_contiguous_height s) + 1"
    "present s (max_contiguous_height t)" "carries (max_contiguous_height t) k"
proof -
  have "t = s\<lparr>max_contiguous_height := max_contiguous_height t\<rparr> \<and>
    unat (max_contiguous_height t) = unat (max_contiguous_height s) + 1 \<and>
    present s (max_contiguous_height t) \<and> carries (max_contiguous_height t) k"
    using r unfolding raises_def
  proof (elim disjE exE conjE)
    fix p assume c: "c = Indexed p" and eq: "max_contiguous_height s = saturating_sub (w_height p) 1"
      and t: "t = s\<lparr>max_contiguous_height := w_height p\<rparr>" and k: "k = Raised p (saturating_sub (w_height p) 1 + 1)"
    have pr: "present s (w_height p)" using kn c by simp
    then have "w_height p \<noteq> 0" using present_min m by fastforce
    then show ?thesis using pr t eq k saturating_pred [of "w_height p"] Suc_pred_u64 [of "w_height p"] by simp
  next
    fix p assume c: "c = Seen p (max_contiguous_height s)"
      and t: "t = s\<lparr>max_contiguous_height := max_contiguous_height s + 1\<rparr>" and k: "k = Raised p (max_contiguous_height s + 1)"
    then show ?thesis using kn present_not_wrapped [OF _ m] by simp
  qed
  then show "t = s\<lparr>max_contiguous_height := max_contiguous_height t\<rparr>"
    "unat (max_contiguous_height t) = unat (max_contiguous_height s) + 1"
    "present s (max_contiguous_height t)" "carries (max_contiguous_height t) k" by blast+
qed

text \<open>A carrier that does not raise the counter hands the task on to itself, or finds a gap.\<close>

lemma carrier_goes_on:
  assumes st: "step_call L held c s = (k, t)" and nf: "faults s = []" and m: "ih_min_height (header s) \<noteq> 0"
    and c: "carries (max_contiguous_height s) c" and p: "present s (max_contiguous_height s + 1)"
    and same: "max_contiguous_height t = max_contiguous_height s"
  shows "carries (max_contiguous_height s) k"
proof (cases c)
  case (Indexed q)
  have "unat (max_contiguous_height s + 1) = unat (max_contiguous_height s) + 1" by (rule present_not_wrapped [OF p m])
  then have "saturating_sub (w_height q) 1 = max_contiguous_height s" "w_height q \<noteq> max_contiguous_height s"
    using c Indexed by (auto simp: word_unat_eq_iff unat_saturating_sub)
  then show ?thesis using st same Indexed by auto
next
  case (Raised q cur)
  then have cur: "cur = max_contiguous_height s" using c by simp
  obtain r u where e: "read_index_entry (cur + 1) s = (r, u)" by fastforce
  note pr = read_index_entry_present [OF e]
  obtain ent where "r = Ok (Some ent)" using pr nf p cur by blast
  then have "k = Seen q cur" using st e Raised pr p cur by auto
  then show ?thesis using cur by simp
next
  case (Seen q cur)
  then have cur: "cur = max_contiguous_height s" using c by simp
  have "unat (max_contiguous_height s + 1) = unat (max_contiguous_height s) + 1" by (rule present_not_wrapped [OF p m])
  then have "max_contiguous_height s + 1 \<noteq> max_contiguous_height s" by (auto simp: word_unat_eq_iff)
  then show ?thesis using st same Seen cur by auto
qed (use c in auto)

lemma step_knows:
  assumes st: "step_call L held c s = (k, t)" and inv: "fs_inv s" and ok: "call_ok L s c" and nf: "faults s = []"
    and kn: "knows s c"
  shows "knows t k"
proof -
  note sp = step_present [OF st inv ok nf]
  show ?thesis
  proof (cases c)
    case (Landed p)
    then show ?thesis using st nf sp by (auto simp: update_index_at_def)
  next
    case (Raised p cur)
    obtain r u where e: "read_index_entry (cur + 1) s = (r, u)" by fastforce
    note pr = read_index_entry_present [OF e]
    have "k = Settled p \<or> k = Seen p cur \<and> present s (cur + 1)"
      using st e Raised pr by (auto split: res.splits option.splits if_splits)
    then show ?thesis using sp by auto
  qed (use st in \<open>auto split: res.splits prod.splits option.splits if_splits\<close>)
qed

lemma counter_ok_step:
  assumes x: "counter_ok L s cs" and st: "calls_step L (s, cs, hist) (t, ds, hist')"
  shows "counter_ok L t ds"
proof -
  from st obtain i k held where i: "i < length cs" and st: "step_call L held (cs ! i) s = (k, t)"
    and ds: "ds = cs[i := k]" by (rule calls_stepE) blast
  have inv: "fs_inv s" and nf: "faults s = []" and m: "ih_min_height (header s) \<noteq> 0" and g: "gapless s"
    and ok: "\<forall>c \<in> set cs. call_ok L s c" and kn: "\<forall>c \<in> set cs. knows s c"
    and ca: "present s (max_contiguous_height s + 1) \<Longrightarrow> \<exists>c \<in> set cs. carries (max_contiguous_height s) c"
    using x by (auto simp: counter_ok_def)
  have ci: "cs ! i \<in> set cs" using i by simp
  note oi = ok [rule_format, OF ci] and ki = kn [rule_format, OF ci]
  note fx = step_fixed [OF st inv oi] and sp = step_present [OF st inv oi nf] and sc = step_counter [OF st inv oi nf]
  have hd: "header t = header s" using fx by (simp add: fixed_def)
  have kd: "k \<in> set ds" unfolding ds using i by (rule set_update_memI)
  have sub: "set ds \<subseteq> insert k (set cs)" unfolding ds by (rule set_update_subset_insert)
  have calls: "call_ok L t c \<and> knows t c" if "c \<in> set ds" for c
  proof -
    have "call_ok L t c" if "c \<in> set cs" for c using fx ok that fixed_cong(6) by blast
    moreover have "knows t c" if "c \<in> set cs" for c using bspec [OF kn that] sp by (cases c) auto
    ultimately show ?thesis using that sub fx step_knows [OF st inv oi nf ki] by blast
  qed
  have gt: "gapless t \<and> (present t (max_contiguous_height t + 1) \<longrightarrow> (\<exists>c \<in> set ds. carries (max_contiguous_height t) c))"
  proof (cases "raises s (cs ! i) t k")
    case True
    note r = raises_by_one [OF True ki m]
    show ?thesis using gapless_raise [OF g r(3,2,1)] r(4) kd by blast
  next
    case False
    then have same: "max_contiguous_height t = max_contiguous_height s" using sc by blast
    have "gapless t" using g sp same hd by (auto simp: gapless_def)
    moreover have "\<exists>c \<in> set ds. carries (max_contiguous_height s) c" if p: "present t (max_contiguous_height s + 1)"
    proof (cases "present s (max_contiguous_height s + 1)")
      case True
      then obtain c where c: "c \<in> set cs" "carries (max_contiguous_height s) c" using ca by blast
      then obtain j where j: "j < length cs" "cs ! j = c" by (meson in_set_conv_nth)
      show ?thesis
      proof (cases "j = i")
        case ji: True
        show ?thesis using carrier_goes_on [OF st nf m _ True same] c(2) j(2) ji kd by blast
      next
        case False
        then have "c \<in> set ds" using j ds by (metis length_list_update nth_list_update_neq nth_mem)
        then show ?thesis using c(2) by blast
      qed
    next
      case False
      then obtain q where "k = Indexed q" "w_height q = max_contiguous_height s + 1" using sp p by blast
      then show ?thesis using kd by (intro bexI [of _ k]) simp_all
    qed
    ultimately show ?thesis using same by simp
  qed
  show ?thesis
    unfolding counter_ok_def using fx sc m hd gt calls by auto
qed

lemma counter_ok_run:
  assumes "(calls_step L)\<^sup>*\<^sup>* (s, cs, hist) (t, ds, hist')" and "counter_ok L s cs"
  shows "counter_ok L t ds"
  using assms
proof (induction "(t, ds, hist')" arbitrary: t ds hist' rule: rtranclp_induct)
  case (step y)
  obtain u us hs where y: "y = (u, us, hs)" by (cases y)
  show ?case using counter_ok_step [OF step.hyps(3) [OF y step.prems]] step.hyps(2) y by blast
qed simp

section \<open>The property\<close>

fun finished :: "call \<Rightarrow> bool" where
  "finished (Wrote h b r) \<longleftrightarrow> True"
| "finished (Read h r) \<longleftrightarrow> True"
| "finished c \<longleftrightarrow> False"

text \<open>
  C19: any writers and readers on one store whose calls succeed and whose minimum height is at least
  1, interleaved in any way: at every moment all heights up to the contiguity counter are present,
  and when all calls have returned, the counter is the last of them.
\<close>

theorem concurrent_counter_exact:
  assumes "fs_inv s" and "faults s = []" and "ih_min_height (header s) \<noteq> 0" and "contiguous_ok s"
    and "\<forall>c \<in> set cs. fresh_call L c" and "(calls_step L)\<^sup>*\<^sup>* (s, cs, []) (t, ds, hist)"
  shows "(\<forall>k. ih_min_height (header t) \<le> k \<and> k \<le> max_contiguous_height t \<longrightarrow> present t k) \<and>
    ((\<forall>c \<in> set ds. finished c) \<longrightarrow> contiguous_ok t)"
proof -
  have "call_ok L s c \<and> knows s c" if "c \<in> set cs" for c using assms(5) that by (cases c) auto
  then have "counter_ok L s cs"
    using assms(1-4) by (simp add: counter_ok_def contiguous_ok_def gapless_def)
  then have ok: "counter_ok L t ds" by (rule counter_ok_run [OF assms(6)])
  have "contiguous_ok t" if "\<forall>c \<in> set ds. finished c"
  proof -
    have "\<not> carries m c" if "c \<in> set ds" for m c using \<open>\<forall>c \<in> set ds. finished c\<close> that by (cases c) auto
    then show ?thesis using ok by (auto simp: counter_ok_def contiguous_ok_def gapless_def)
  qed
  then show ?thesis using ok by (simp add: counter_ok_def gapless_def)
qed

lemma small_store_contiguous:
  "contiguous_ok small_store" "ih_min_height (header small_store) \<noteq> 0" "fs_inv small_store" "faults small_store = []"
proof -
  have "\<not> present small_store h" for h
    by (auto simp: present_def small_store_def empty_store_entry index_entry_offset_ge zero_entry_def
        default_entry_def split: option.split)
  moreover have "ih_min_height (header small_store) = 1" by (simp add: small_store_def)
  moreover have "max_contiguous_height small_store = 0" by code_simp
  ultimately show "contiguous_ok small_store" "ih_min_height (header small_store) \<noteq> 0"
    by (auto simp: contiguous_ok_def saturating_sub_def word_le_nat_alt)
  show "fs_inv small_store" "faults small_store = []"
    using empty_store_ready [of None 1 Async 4] by (simp_all add: small_store_def ready_def)
qed

text \<open>The writer of height 2 is first to enter its block, and finds the counter not yet there.\<close>

definition two_writers_end :: "unit calls" where
  "two_writers_end = run_calls plain_libs
     [0, 1, 0, 1, 1, 1, 1, 1, 0, 0, 0, 0, 1, 0, 0, 0, 0, 1, 1, 0, 0, 0, 0, 0, 0, 0, 2, 2, 2] (small_store, three_calls, [])"

theorem concurrent_counter_exact_witness:
  "case two_writers_end of (t, ds, hist) \<Rightarrow>
     max_contiguous_height t = 2 \<and> present t 1 \<and> present t 2 \<and> \<not> present t 3 \<and> contiguous_ok t"
proof -
  obtain t ds hist where e: "two_writers_end = (t, ds, hist)" by (cases two_writers_end)
  have run: "(calls_step plain_libs)\<^sup>*\<^sup>* (small_store, three_calls, []) two_writers_end"
    unfolding two_writers_end_def by (rule run_calls_steps) (simp add: three_calls_def)
  have f: "\<forall>c \<in> set three_calls. fresh_call plain_libs c" by (simp add: three_calls_def storable_plain)
  have m: "max_contiguous_height (fst two_writers_end) = 2" "ih_min_height (header (fst two_writers_end)) = 1"
    by code_simp+
  have "\<forall>c \<in> set (fst (snd two_writers_end)). finished c" by code_simp
  with concurrent_counter_exact [OF small_store_contiguous(3,4,2,1) f run [unfolded e]]
  have "\<forall>k. 1 \<le> k \<and> k \<le> 2 \<longrightarrow> present t k" "contiguous_ok t" using m unfolding e fst_conv snd_conv by simp_all
  moreover from this(2) have "\<not> present t 3" using m unfolding e fst_conv by (simp add: contiguous_ok_def)
  ultimately show ?thesis using m by (simp add: e word_le_nat_alt)
qed

end
