(* ===== verification/SharedDisk.thy ===== *)
theory SharedDisk
  imports Gapless Journal
begin

text \<open>
  What a step of a call does to the files, to the header of the index and to the locks, on a store
  whose system calls succeed.
\<close>

section \<open>What a step does to the files and the header\<close>

definition steady :: "'z store_scheme \<Rightarrow> 'z store_scheme \<Rightarrow> bool" where
  "steady s t \<longleftrightarrow>
     bytes_of t = bytes_of s \<and> data_dir t = data_dir s \<and> height_highwater t = height_highwater s"

lemma steady_refl [simp]: "steady s s"
  by (simp add: steady_def)

lemma steady_drop [simp]: "steady s (drop_handle held f t) = steady s t"
proof -
  have "bytes_of (drop_handle held f t) = bytes_of t"
    using drop_handle_frame(1) [of t held f] by (simp add: same_files_def)
  moreover have "data_dir (drop_handle held f t) = data_dir t" by (simp add: drop_handle_def close_fd_def)
  ultimately show ?thesis using store_fields(5) [OF drop_handle_more [of held f t]] by (simp add: steady_def)
qed

lemma steady_faults [simp]: "steady s (t\<lparr>faults := fs\<rparr>) = steady s t"
  by (simp add: steady_def fun_eq_iff)

lemma steady_log [simp]: "steady s (t\<lparr>io_log := l\<rparr>) = steady s t"
  by (simp add: steady_def fun_eq_iff bytes_of_def split: file_id.splits)

text \<open>The height a call has raised the high-water mark of heights to.\<close>

fun topped :: "call \<Rightarrow> u64 option" where
  "topped (Tipped p tip) = Some (w_height p)"
| "topped (Wrote h b r) = (if r = Ok () then Some h else None)"
| "topped c = None"

lemma pinned_resolve_grows:
  fixes s :: "'z store_scheme"
  assumes p: "pinned_resolve held off s = (r, t)" and inv: "fs_inv s"
    and sp: "split_offset (fs_max_data_file_size s) off = (i, l)"
  shows "bytes_of t = bytes_of s" and "height_highwater t = height_highwater s" and "files_grow i s t"
proof -
  note f = pinned_resolve_frame(1) [OF p inv]
  show "bytes_of t = bytes_of s" using f by (simp add: same_files_def)
  have "fset.more t = fset.more s" using f by (simp add: same_files_def)
  then show "height_highwater t = height_highwater s" by (rule store_fields)
  obtain r2 u where g: "get_or_open i s = (r2, u)" by fastforce
  then have "fs_resolve off s = (case r2 of Ok h \<Rightarrow> (Ok (h, l, i), u) | Err e \<Rightarrow> (Err e, u) | Panic m \<Rightarrow> (Panic m, u))"
    using sp by (cases r2) (simp_all add: fs_resolve_eq io_bind_def io_simps)
  then have "t = pin held s u" using p by (cases r2) (simp_all add: pinned_resolve_def)
  then show "files_grow i s t"
    using files_grow_trans [OF files_grow_get_or_open [OF g] files_grow_data_dir] by (simp add: pin_def)
qed

lemma step_world_cases:
  assumes st: "step_call L held c s = (k, t)" and inv: "fs_inv s" and ok: "call_ok L s c" and nf: "faults s = []"
  obtains (steady) "steady s t" "topped k = topped c \<or> topped k = None"
    | (opens) i l off where "bytes_of t = bytes_of s" "height_highwater t = height_highwater s" "topped k = None"
        "(\<exists>p. c = Reserved p \<and> off = w_offset p) \<or> (\<exists>h e. c = Found h e \<and> off = ie_offset e)"
        "split_offset (fs_max_data_file_size s) off = (i, l)" "files_grow i s t"
    | (data) p i local pos bs where "claim c = Some p" "split_offset (fs_max_data_file_size s) (w_offset p) = (i, local)"
        "bytes_of t IndexFile = bytes_of s IndexFile" "height_highwater t = height_highwater s" "topped k = None"
        "files_grow i s t" "claim k = Some p" "unat local \<le> pos" "pos + length bs \<le> unat local + w_size p"
        "\<And>g. bytes_of t g = (if g = path_for i then pwrite (bytes_of s g) pos bs else bytes_of s g)"
    | (landed) p where "c = Landed p" "k = Indexed p"
        "t = log_write IndexFile (unat (w_slot p)) (encode_entry (entry_of p)) s"
    | (settle) p tip where "c = Settled p" "k = Tipped p tip"
        "t = s\<lparr>height_highwater := max (height_highwater s) (w_height p)\<rparr>"
    | (finish) p tip r where "c = Tipped p tip" "k = Wrote (w_height p) (w_block p) r"
        "t = s \<and> r = Ok () \<or> checkpoint (w_end p) s = (r, t)"
proof (cases c)
  case (Write_call h b)
  obtain r u where b: "begin_write L h b s = (r, u)" by fastforce
  have "storable L b" using ok Write_call by simp
  with b inv have "steady s u"
    by (cases rule: begin_write_cases) (simp_all add: steady_def fun_eq_iff)
  moreover have "t = u" "topped k = None" using st b Write_call by (cases r; auto)+
  ultimately show ?thesis by (intro steady) simp_all
next
  case (Reserved p)
  obtain r u where r: "pinned_resolve held (w_offset p) s = (r, u)" by fastforce
  obtain i l where sp: "split_offset (fs_max_data_file_size s) (w_offset p) = (i, l)" by fastforce
  have "t = u" "topped k = None" using st r Reserved by (cases r; auto)+
  then show ?thesis
    using pinned_resolve_grows [OF r inv sp] sp Reserved by (intro opens [of "w_offset p"]) simp_all
next
  case (Located p f local)
  then obtain i where sp: "split_offset (fs_max_data_file_size s) (w_offset p) = (i, local)" "hfile f = path_for i"
    using ok by (auto simp: at_file_def)
  have "t = log_write (path_for i) (unat (local + u64_of_len SERIALIZED_SIZE)) (w_payload p) s"
    "k = Payload_down p f local" using st Located nf sp(2) by simp_all
  moreover have "unat (local + u64_of_len SERIALIZED_SIZE) = unat local + 22"
    using local_plus [of L s p f local] ok Located by simp
  ultimately show ?thesis
    using sp(1) Located files_grow_log_write
    by (intro data [of p i local "unat local + 22" "w_payload p"]) (auto simp: w_size_def)
next
  case (Payload_down p f local)
  then obtain i where sp: "split_offset (fs_max_data_file_size s) (w_offset p) = (i, local)" "hfile f = path_for i"
    using ok by (auto simp: at_file_def)
  have "t = log_write (path_for i) (unat local) (serialize (w_header p)) s"
    "k = Header_down p f" using st Payload_down nf sp(2) by simp_all
  then show ?thesis
    using sp(1) Payload_down files_grow_log_write
    by (intro data [of p i local "unat local" "serialize (w_header p)"]) (auto simp: w_size_def)
next
  case (Header_down p f)
  have "steady s t \<and> topped k = None"
    using st Header_down nf by (auto simp: io_simps split: if_splits)
  then show ?thesis by (intro steady) simp_all
next
  case (Failing p e)
  then show ?thesis using st by (intro steady) (auto simp: release_reservation_def steady_def fun_eq_iff)
next
  case (Landed p)
  then show ?thesis using st nf by (intro landed) (auto simp: update_index_at_def)
next
  case (Indexed p)
  then show ?thesis using st by (intro steady) (auto simp: steady_def fun_eq_iff split: if_splits)
next
  case (Raised p cur)
  obtain r u where e: "read_index_entry (cur + 1) s = (r, u)" by fastforce
  have "steady s u" using e by (cases rule: read_index_entry_cases) simp_all
  then show ?thesis using st e Raised by (intro steady) (auto split: res.splits option.splits if_splits)
next
  case (Seen p cur)
  then show ?thesis using st by (intro steady) (auto simp: steady_def fun_eq_iff split: if_splits)
next
  case (Settled p)
  then show ?thesis using st
    by (intro settle [of p "height_highwater s < w_height p"])
       (auto simp: update_highwater_def max_def split: if_splits)
next
  case (Tipped p tip)
  obtain r u where m: "maybe_checkpoint (w_height p) tip (w_end p) s = (r, u)" by fastforce
  then have "t = u" "k = Wrote (w_height p) (w_block p) r" using st Tipped by simp_all
  moreover from m have "u = s \<and> r = Ok () \<or> checkpoint (w_end p) s = (r, u)"
    by (auto elim: maybe_checkpoint_cases)
  ultimately show ?thesis using Tipped by (intro finish) simp_all
next
  case (Read_call h)
  obtain r u where e: "read_index_entry h s = (r, u)" by fastforce
  have "steady s u" using e by (cases rule: read_index_entry_cases) simp_all
  then show ?thesis using st e Read_call by (intro steady) (auto split: res.splits option.splits if_splits)
next
  case (Found h e)
  obtain r u where r: "pinned_resolve held (ie_offset e) s = (r, u)" by fastforce
  obtain i l where sp: "split_offset (fs_max_data_file_size s) (ie_offset e) = (i, l)" by fastforce
  have "t = u" "topped k = None" using st r Found by (cases r; auto)+
  then show ?thesis
    using pinned_resolve_grows [OF r inv sp] sp Found by (intro opens [of "ie_offset e"]) simp_all
next
  case (Fetching h e f local)
  obtain r u where b: "fetch_block L e f local s = (r, u)" by fastforce
  then obtain fs where "u = s\<lparr>faults := fs\<rparr>" using fetch_block_state by blast
  then show ?thesis using st b Fetching by (intro steady) auto
next
  case (Wrote h b r)
  then show ?thesis using st by (intro steady) simp_all
next
  case (Read h r)
  then show ?thesis using st by (intro steady) simp_all
qed

section \<open>Locks\<close>

text \<open>
  Every lock on a data file is that of a cached handle or of a handle some thread holds.
\<close>

definition cached_lock :: "'z fset_scheme \<Rightarrow> file_id \<Rightarrow> nat \<Rightarrow> bool" where
  "cached_lock s f n \<longleftrightarrow> (\<exists>i h. inner_lookup (fs_inner s) i = Some h \<and> hfile h = f \<and> fd h = n)"

definition own_but :: "nat set \<Rightarrow> 'z fset_scheme \<Rightarrow> bool" where
  "own_but H s \<longleftrightarrow> (\<forall>f n. (f, n) \<in> set (locks s) \<longrightarrow> f \<noteq> IndexFile \<longrightarrow> cached_lock s f n \<or> n \<in> H)"

lemma own_but_none: "own_but {} s = own_locks s"
  by (simp add: own_but_def own_locks_def cached_lock_def)

lemma own_but_mono: "own_but H s \<Longrightarrow> H \<subseteq> H' \<Longrightarrow> own_but H' s"
  by (auto simp: own_but_def)

lemma own_but_cong:
  "fs_inner t = fs_inner s \<Longrightarrow> locks t = locks s \<Longrightarrow> own_but H t = own_but H s"
  by (simp add: own_but_def cached_lock_def)

definition index_locks_from :: "'z fset_scheme \<Rightarrow> 'z fset_scheme \<Rightarrow> bool" where
  "index_locks_from s t \<longleftrightarrow> (\<forall>n. (IndexFile, n) \<in> set (locks t) \<longrightarrow> (IndexFile, n) \<in> set (locks s))"

lemma get_or_open_own_but:
  assumes g: "get_or_open i s = (r, t)" and inv: "fs_inv s" and own: "own_but H s" and H: "H = set held"
  shows "own_but H (pin held s t)" and "index_locks_from s (pin held s t)"
proof -
  have "own_but H (pin held s t) \<and> index_locks_from s (pin held s t)"
    using g
  proof (cases rule: get_or_open_cases)
    case (opened h fs u)
    let ?c = "inner_insert i h (fs_inner s)"
    have lru: "lru_inv (fs_inner s)" using inv by (simp add: fs_inv_def)
    have tl: "fs_inner t = ?c" "locks t = filter (\<lambda>(f, m). m \<notin> fd ` set (evicted (fs_inner s) ?c))
        ((path_for i, next_fd s) # locks s)"
      unfolding opened(6,7) set_inner_eq by simp_all
    have pl: "(f, n) \<in> set (locks t) \<or> n \<in> H \<and> (f, n) \<in> set (locks s)" if "(f, n) \<in> set (locks (pin held s t))" for f n
      using that by (auto simp: pin_def H)
    have "cached_lock (pin held s t) f n \<or> n \<in> H"
      if l: "(f, n) \<in> set (locks (pin held s t))" "f \<noteq> IndexFile" for f n
    proof (cases "n \<in> H")
      case False
      then have lt: "(f, n) \<in> set (locks t)" using pl [OF l(1)] by blast
      have "\<exists>j g. inner_lookup ?c j = Some g \<and> hfile g = f \<and> fd g = n"
      proof (cases "(f, n) = (path_for i, next_fd s)")
        case True
        then have "inner_lookup ?c i = Some h" "hfile h = f" "fd h = n"
          using opened(3) by (simp_all add: inner_lookup_insert_same lru)
        then show ?thesis by blast
      next
        case new: False
        have l': "(f, n) \<in> set (locks s)" "n \<notin> fd ` set (evicted (fs_inner s) ?c)"
          using lt new unfolding tl(2) by (auto split: if_splits)
        then obtain j g where g: "inner_lookup (fs_inner s) j = Some g" "hfile g = f" "fd g = n"
          using own l(2) False unfolding own_but_def cached_lock_def by blast
        then have "g \<in> snd ` set (handles ?c)"
          using l'(2) lookup_in_handles [OF g(1)] by (force simp: in_evicted)
        then obtain j' where "(j', g) \<in> set (handles ?c)" by auto
        then have "inner_lookup ?c j' = Some g"
          by (rule handles_in_lookup [OF lru_inv_insert [OF lru]])
        then show ?thesis using g by blast
      qed
      then show ?thesis using tl(1) by (simp add: cached_lock_def pin_def)
    qed simp
    moreover have "(IndexFile, n) \<in> set (locks s)" if "(IndexFile, n) \<in> set (locks (pin held s t))" for n
      using pl [OF that] unfolding tl(2) by (auto simp: path_for_def split: if_splits)
    ultimately show ?thesis unfolding own_but_def index_locks_from_def by blast
  qed (use own in \<open>auto simp: own_but_def cached_lock_def index_locks_from_def pin_def\<close>)
  then show "own_but H (pin held s t)" "index_locks_from s (pin held s t)" by blast+
qed

lemma pinned_resolve_own_but:
  fixes s :: "'z store_scheme"
  assumes p: "pinned_resolve held off s = (r, t)" and inv: "fs_inv s" and own: "own_but (set held) s"
  shows "own_but (set held) t" and "index_locks_from s t" and "index_file t = index_file s"
proof -
  obtain i l where sp: "split_offset (fs_max_data_file_size s) off = (i, l)" by fastforce
  obtain r2 u where g: "get_or_open i s = (r2, u)" by fastforce
  then have "fs_resolve off s = (case r2 of Ok h \<Rightarrow> (Ok (h, l, i), u) | Err e \<Rightarrow> (Err e, u) | Panic m \<Rightarrow> (Panic m, u))"
    using sp by (cases r2) (simp_all add: fs_resolve_eq io_bind_def io_simps)
  then have "t = pin held s u" using p by (cases r2) (simp_all add: pinned_resolve_def)
  then show "own_but (set held) t" "index_locks_from s t" using get_or_open_own_but [OF g inv own] by simp_all
  have "fset.more t = fset.more s" using pinned_resolve_frame(1) [OF p inv] by (simp add: same_files_def)
  then show "index_file t = index_file s" by (cases s; cases t) simp
qed

lemma drop_handle_own_but:
  fixes s :: "'z store_scheme"
  assumes inv: "fs_inv s" and own: "own_but (insert (fd f) (set held)) s"
  shows "own_but (set held) (drop_handle held f s)" and "index_locks_from s (drop_handle held f s)"
    and "index_file (drop_handle held f s) = index_file s"
proof -
  show "index_locks_from s (drop_handle held f s)"
    by (auto simp: index_locks_from_def drop_handle_def close_fd_def)
  show "index_file (drop_handle held f s) = index_file s"
    by (simp add: drop_handle_def close_fd_def)
  show "own_but (set held) (drop_handle held f s)"
  proof (cases "fd f \<in> set held")
    case True
    then have "insert (fd f) (set held) = set held" by blast
    then show ?thesis using True own by (simp add: drop_handle_def)
  next
    case out: False
    show ?thesis
    proof (cases "fd f \<in> fd ` snd ` set (handles (fs_inner s))")
      case True
      then obtain j h where h: "(j, h) \<in> set (handles (fs_inner s))" "fd h = fd f" by force
      then have lk: "inner_lookup (fs_inner s) j = Some h"
        using handles_in_lookup inv by (auto simp: fs_inv_def)
      note l = fs_inv_handleD [OF inv lk]
      have "cached_lock s g (fd f)" if "(g, fd f) \<in> set (locks s)" for g
      proof -
        have "inj_on snd (set (locks s))" using inv by (simp add: fs_inv_def)
        then have "g = path_for j" using that l h(2) by (metis inj_onD prod.inject snd_conv)
        then show ?thesis using lk l h(2) by (auto simp: cached_lock_def)
      qed
      then have "own_but (set held) s" using own unfolding own_but_def by blast
      then show ?thesis using True by (simp add: drop_handle_def)
    next
      case False
      then show ?thesis
        using own out by (auto simp: drop_handle_def close_fd_def own_but_def cached_lock_def)
    qed
  qed
qed

definition same_locks :: "'z store_scheme \<Rightarrow> 'z store_scheme \<Rightarrow> bool" where
  "same_locks s t \<longleftrightarrow> fs_inner t = fs_inner s \<and> locks t = locks s \<and> index_file t = index_file s"

lemma same_locks_checkpoint: "preserves (same_locks s) (checkpoint off)"
proof -
  have [pres]: "preserves (same_locks s) (write_all_at f bs o')" for f bs o'
  proof (rule preservesI)
    fix t assume t: "same_locks s t"
    obtain n fs where "snd (write_all_at f bs o' t) = log_write f (unat o') (take n bs) (t\<lparr>faults := fs\<rparr>)"
      using write_all_at_state [OF prod.collapse [symmetric]] by blast
    then show "same_locks s (snd (write_all_at f bs o' t))" using t by (simp add: same_locks_def)
  qed
  have [pres]: "preserves (same_locks s) (sync_all f)" for f
  proof (rule preservesI)
    fix t assume t: "same_locks s t"
    obtain fs l where "snd (sync_all f t) = t\<lparr>faults := fs, io_log := l\<rparr>"
      using sync_all_cases [OF prod.collapse [symmetric]] by blast
    then show "same_locks s (snd (sync_all f t))" using t by (simp add: same_locks_def)
  qed
  show ?thesis unfolding checkpoint_def by (intro pres) (auto simp: same_locks_def)
qed

lemma same_locks_own_but:
  assumes "same_locks s t"
  shows "own_but H t = own_but H s" "index_locks_from s t" "index_file t = index_file s"
  using assms own_but_cong [of t s] by (simp_all add: same_locks_def index_locks_from_def)

text \<open>The locks a step leaves, when the others hold \<open>held\<close>.\<close>

definition my_fds :: "call \<Rightarrow> nat set" where
  "my_fds c = (case handle_of c of None \<Rightarrow> {} | Some f \<Rightarrow> {fd f})"

lemma step_locks:
  assumes st: "step_call L held c s = (k, t)" and inv: "fs_inv s" and ok: "call_ok L s c" and nf: "faults s = []"
    and own: "own_but (my_fds c \<union> set held) s"
  shows "own_but (my_fds k \<union> set held) t \<and> index_locks_from s t \<and> index_file t = index_file s"
proof -
  have plain: ?thesis if "same_locks s t" "my_fds c \<subseteq> my_fds k"
  proof -
    have "own_but (my_fds k \<union> set held) s" by (rule own_but_mono [OF own]) (use that(2) in blast)
    then show ?thesis using same_locks_own_but [OF that(1)] by blast
  qed
  have open_file: ?thesis
    if r: "pinned_resolve held off s = (r, t)" and "handle_of c = None" for off r
  proof -
    have "own_but (set held) s" using own that(2) by (simp add: my_fds_def)
    from pinned_resolve_own_but [OF r inv this] show ?thesis using own_but_mono by blast
  qed
  have close_file: ?thesis
    if f: "handle_of c = Some f" and u: "same_locks s u" "fs_inv u" and t: "t = drop_handle held f u" for f u
  proof -
    have "own_but (insert (fd f) (set held)) u"
      using own f same_locks_own_but(1) [OF u(1)] by (simp add: my_fds_def)
    note d = drop_handle_own_but [OF u(2) this]
    then have "index_locks_from s t" "index_file t = index_file s"
      using same_locks_own_but(2,3) [OF u(1)] u(1) t by (simp_all add: index_locks_from_def same_locks_def)
    then show ?thesis using d(1) t own_but_mono by blast
  qed
  show ?thesis
  proof (cases c)
    case (Write_call h b)
    obtain r u where b: "begin_write L h b s = (r, u)" by fastforce
    have "storable L b" using ok Write_call by simp
    with b inv have "same_locks s u" by (cases rule: begin_write_cases) (simp_all add: same_locks_def)
    moreover have "t = u" using st b Write_call by (cases r) auto
    ultimately show ?thesis using Write_call by (intro plain) (simp_all add: my_fds_def)
  next
    case (Reserved p)
    obtain r u where r: "pinned_resolve held (w_offset p) s = (r, u)" by fastforce
    then have "t = u" using st Reserved by (cases r) auto
    then show ?thesis using open_file [of "w_offset p" r] r Reserved by simp
  next
    case (Located p f local)
    then have "t = log_write (hfile f) (unat (local + u64_of_len SERIALIZED_SIZE)) (w_payload p) s"
      "k = Payload_down p f local" using st nf by simp_all
    then show ?thesis using Located by (intro plain) (simp_all add: same_locks_def my_fds_def)
  next
    case (Payload_down p f local)
    then have "t = log_write (hfile f) (unat local) (serialize (w_header p)) s" "k = Header_down p f"
      using st nf by simp_all
    then show ?thesis using Payload_down by (intro plain) (simp_all add: same_locks_def my_fds_def)
  next
    case (Header_down p f)
    obtain r u where y: "(if sync s = Sync then sync_all (hfile f) else ret ()) s = (r, u)" by fastforce
    have u: "same_locks s u" "r = Ok ()" using y nf by (auto simp: io_simps same_locks_def split: if_splits)
    have "fs_inv u" using sync_quiet(1) [OF y inv] by (simp add: quiet_def)
    then show ?thesis using close_file [of f u] st y u Header_down by simp
  next
    case (Failing p e)
    then show ?thesis using st
      by (intro plain) (auto simp: release_reservation_def same_locks_def my_fds_def)
  next
    case (Landed p)
    then show ?thesis using st nf
      by (intro plain) (auto simp: update_index_at_def same_locks_def my_fds_def)
  next
    case (Indexed p)
    then show ?thesis using st by (intro plain) (auto simp: same_locks_def my_fds_def split: if_splits)
  next
    case (Raised p cur)
    obtain r u where e: "read_index_entry (cur + 1) s = (r, u)" by fastforce
    have "same_locks s u" using e by (cases rule: read_index_entry_cases) (simp_all add: same_locks_def)
    moreover have "t = u" using st e Raised by (auto split: res.splits option.splits if_splits)
    ultimately show ?thesis using Raised by (intro plain) (simp_all add: my_fds_def)
  next
    case (Seen p cur)
    then show ?thesis using st by (intro plain) (auto simp: same_locks_def my_fds_def split: if_splits)
  next
    case (Settled p)
    then show ?thesis using st
      by (intro plain) (auto simp: update_highwater_def same_locks_def my_fds_def split: if_splits)
  next
    case (Tipped p tip)
    obtain r u where m: "maybe_checkpoint (w_height p) tip (w_end p) s = (r, u)" by fastforce
    have "same_locks s s" by (simp add: same_locks_def)
    then have ck: "same_locks s (snd (checkpoint (w_end p) s))"
      using same_locks_checkpoint [of s "w_end p"] by (simp add: preserves_def)
    from m have "same_locks s u"
      by (cases rule: maybe_checkpoint_cases) (use ck in \<open>simp_all add: same_locks_def\<close>)
    then show ?thesis using st m Tipped by (intro plain) (simp_all add: my_fds_def)
  next
    case (Read_call h)
    obtain r u where e: "read_index_entry h s = (r, u)" by fastforce
    have "same_locks s u" using e by (cases rule: read_index_entry_cases) (simp_all add: same_locks_def)
    moreover have "t = u" using st e Read_call by (auto split: res.splits option.splits if_splits)
    ultimately show ?thesis using Read_call by (intro plain) (simp_all add: my_fds_def)
  next
    case (Found h e)
    obtain r u where r: "pinned_resolve held (ie_offset e) s = (r, u)" by fastforce
    then have "t = u" using st Found by (cases r) auto
    then show ?thesis using open_file [of "ie_offset e" r] r Found by simp
  next
    case (Fetching h e f local)
    obtain r u where b: "fetch_block L e f local s = (r, u)" by fastforce
    then obtain fs where "u = s\<lparr>faults := fs\<rparr>" using fetch_block_state by blast
    then have "same_locks s u" "fs_inv u" using inv by (simp_all add: same_locks_def)
    then show ?thesis using close_file [of f u] st b Fetching by simp
  next
    case (Wrote h b r)
    then show ?thesis using st by (intro plain) (simp_all add: same_locks_def)
  next
    case (Read h r)
    then show ?thesis using st by (intro plain) (simp_all add: same_locks_def)
  qed
qed

lemma set_held_by: "set (held_by cs) = (\<Union>j < length cs. my_fds (cs ! j))"
proof -
  have "set (held_by cs) = (\<Union>c \<in> set cs. my_fds c)"
    by (induction cs) (auto simp: held_by_def my_fds_def split: option.splits)
  also have "\<dots> = (\<Union>j < length cs. my_fds (cs ! j))"
    by (auto simp: set_conv_nth)
  finally show ?thesis .
qed

lemma held_by_update:
  assumes "i < length cs"
  shows "set (held_by (cs[i := k])) = my_fds k \<union> set (held_by (cs[i := Read 0 (Ok None)]))"
proof -
  have "my_fds (Read 0 (Ok None)) = {}" by (simp add: my_fds_def)
  then have "my_fds (cs[i := k] ! j) = (if j = i then my_fds k else {}) \<union> my_fds (cs[i := Read 0 (Ok None)] ! j)"
    if "j < length cs" for j using that by (cases "j = i") auto
  then show ?thesis unfolding set_held_by using assms by (auto split: if_splits)
qed

lemma calls_step_locks:
  assumes st: "calls_step L (s, cs, hist) (t, ds, hist')" and inv: "fs_inv s"
    and ok: "\<forall>c \<in> set cs. call_ok L s c" and nf: "faults s = []" and own: "own_but (set (held_by cs)) s"
  shows "faults t = [] \<and> own_but (set (held_by ds)) t \<and> index_locks_from s t \<and> index_file t = index_file s"
proof -
  let ?out = "\<lambda>i. held_by (cs[i := Read 0 (Ok None)])"
  from st obtain i k where i: "i < length cs" "step_call L (?out i) (cs ! i) s = (k, t)" "ds = cs[i := k]"
    by (rule calls_stepE) blast
  have "set (held_by cs) = my_fds (cs ! i) \<union> set (?out i)"
    using held_by_update [OF i(1), of "cs ! i"] by simp
  moreover have "call_ok L s (cs ! i)" using ok i(1) by simp
  ultimately show ?thesis
    using step_locks [OF i(2) inv _ nf] step_counter [OF i(2) inv _ nf] own held_by_update [OF i(1), of k] i(3)
    by simp
qed

end
