(* ===== verification/Quiescence.thy ===== *)
theory Quiescence
  imports SharedDisk Lifetimes
begin

text \<open>
  What a run of interleaved calls leaves behind. When all calls have returned and every write
  returned \<open>Ok\<close>, the data files hold the blocks one behind the other in the order of their
  reservations, the last checkpoint on disk is at the end of one of them, and the index agrees: the
  store is as durable as after the same writes one by one, so all of reopening applies to it.
\<close>

section \<open>The queue of reservations\<close>

fun queue :: "u64 option \<Rightarrow> u64 \<Rightarrow> pending list \<Rightarrow> u64 \<Rightarrow> bool" where
  "queue cap hw [] e \<longleftrightarrow> hw = e"
| "queue cap hw (p # ps) e \<longleftrightarrow>
     w_prev p = hw \<and> unat (w_offset p) = place_for cap (unat hw) (w_size p) \<and>
     (\<forall>c. cap = Some c \<longrightarrow> w_size p \<le> unat c) \<and> queue cap (w_end p) ps e"

lemma queue_append: "queue cap hw (ps @ qs) e \<longleftrightarrow> (\<exists>m. queue cap hw ps m \<and> queue cap m qs e)"
  by (induction ps arbitrary: hw) auto

lemma queue_between:
  assumes "queue cap hw ps e" and "\<forall>p \<in> set ps. w_prev p \<le> w_end p"
  shows "hw \<le> e" and "\<forall>p \<in> set ps. hw \<le> w_prev p \<and> w_end p \<le> e"
proof -
  have "hw \<le> e \<and> (\<forall>p \<in> set ps. hw \<le> w_prev p \<and> w_end p \<le> e)"
    using assms by (induction ps arbitrary: hw) (auto intro: order_trans)
  then show "hw \<le> e" "\<forall>p \<in> set ps. hw \<le> w_prev p \<and> w_end p \<le> e" by blast+
qed

lemma queue_apart:
  assumes "queue cap hw ps e" and "\<forall>p \<in> set ps. w_prev p \<le> w_end p" and "p \<in> set ps" "q \<in> set ps"
  shows "p = q \<or> w_end p \<le> w_prev q \<or> w_end q \<le> w_prev p"
  using assms
proof (induction ps arbitrary: hw)
  case (Cons r ps)
  then have q: "queue cap (w_end r) ps e" "\<forall>p \<in> set ps. w_prev p \<le> w_end p" by simp_all
  then show ?case using Cons queue_between(2) [OF q] by auto
qed simp

lemma queue_place:
  "queue cap hw ps e \<Longrightarrow> p \<in> set ps \<Longrightarrow>
     unat (w_offset p) = place_for cap (unat (w_prev p)) (w_size p) \<and> (\<forall>c. cap = Some c \<longrightarrow> w_size p \<le> unat c)"
  by (induction ps arbitrary: hw) auto

lemma pending_ok_order:
  assumes "pending_ok L s p"
  shows "w_prev p \<le> w_end p" "unat (w_prev p) \<le> unat (w_offset p)"
    "unat (w_end p) = unat (w_offset p) + w_size p" "0 < w_size p"
  using assms by (simp_all add: pending_ok_def word_le_nat_alt w_size_def)

text \<open>A call that has failed, or is about to.\<close>

fun failed :: "call \<Rightarrow> bool" where
  "failed (Failing p e) \<longleftrightarrow> True"
| "failed (Wrote h b r) \<longleftrightarrow> r \<noteq> Ok ()"
| "failed c \<longleftrightarrow> False"

fun waiting :: "call \<Rightarrow> bool" where
  "waiting (Write_call h b) \<longleftrightarrow> True"
| "waiting c \<longleftrightarrow> False"

lemma step_pending:
  assumes "step_call L held c s = (k, t)"
  shows "\<not> waiting k" and "pending_of k = Some p \<Longrightarrow> pending_of c = Some p \<or> waiting c"
  using assms by (cases c; auto split: res.splits option.splits prod.splits if_splits)+

definition landed :: "'z store_scheme \<Rightarrow> pending set \<Rightarrow> pending \<Rightarrow> bool" where
  "landed s P p \<longleftrightarrow>
     free s P (w_offset p) (w_size p) \<and>
     region s (w_offset p) (w_size p) = serialize (w_header p) @ w_payload p \<and>
     entry_at s (w_slot p) = entry_of p"

definition queue_ok :: "libs \<Rightarrow> 'z store_scheme \<Rightarrow> pending list \<Rightarrow> 'z store_scheme \<Rightarrow> call list \<Rightarrow> bool" where
  "queue_ok L s0 rs s cs \<longleftrightarrow>
     fixed s0 s \<and> queue (fs_max_data_file_size s) (data_highwater s0) rs (data_highwater s) \<and>
     distinct (map w_height rs) \<and>
     (\<forall>c \<in> set cs. \<forall>p. pending_of c = Some p \<longrightarrow> p \<in> set rs) \<and>
     (\<forall>p \<in> set rs. pending_ok L s p \<and>
        (\<exists>c \<in> set cs. job c = Some (w_height p, w_block p) \<and> \<not> waiting c) \<and>
        (p \<in> claims cs \<or> landed s (claims cs) p)) \<and>
     (\<forall>h slot. h \<notin> w_height ` set rs \<longrightarrow> index_entry_offset s0 h = Some slot \<longrightarrow>
        entry_at s slot = entry_at s0 slot)"

text \<open>No two calls write the same height.\<close>

definition writes_apart :: "call list \<Rightarrow> bool" where
  "writes_apart cs \<longleftrightarrow>
     (\<forall>i < length cs. \<forall>j < length cs. \<forall>h a b. job (cs ! i) = Some (h, a) \<longrightarrow> job (cs ! j) = Some (h, b) \<longrightarrow> i = j)"

lemma writes_apart_jobs: "map job ds = map job cs \<Longrightarrow> writes_apart ds = writes_apart cs"
proof -
  assume m: "map job ds = map job cs"
  then have "length ds = length cs" by (metis length_map)
  moreover from this have "job (ds ! i) = job (cs ! i)" if "i < length cs" for i
    using m that by (metis nth_map)
  ultimately show ?thesis by (auto simp: writes_apart_def)
qed

lemma landed_not_claimed:
  assumes "landed s (claims cs) p" and "pending_ok L s p" shows "p \<notin> claims cs"
  using assms pending_ok_order [OF assms(2)] by (force simp: landed_def free_def)

lemma step_landed:
  assumes st: "step_call L held (cs ! i) s = (k, t)" and i: "i < length cs"
    and inv: "fs_inv s" and ok: "call_ok L s (cs ! i)" and cl: "claims_ok s cs" and ad: "addressable s"
    and p: "pending_ok L s p" "landed s (claims cs) p"
    and ne: "\<And>q. cs ! i = Landed q \<Longrightarrow> w_height q \<noteq> w_height p"
  shows "landed t (claims (cs[i := k])) p"
proof -
  have fr: "free s (claims cs) (w_offset p) (w_size p)" using p(2) by (simp add: landed_def)
  have "index_entry_offset s (w_height p) = Some (w_slot p)" using p(1) by (simp add: pending_ok_def)
  from step_entry [OF st inv ok this ne] have "entry_at t (w_slot p) = entry_at s (w_slot p)" .
  then show ?thesis
    using step_free [OF st i inv ok cl ad fr pending_ok_order(4) [OF p(1)]] p(2) by (simp add: landed_def)
qed

lemma claims_own: "claim k = Some p \<Longrightarrow> i < length cs \<Longrightarrow> p \<in> claims (cs[i := k])"
  by (auto simp: claims_def intro: set_update_memI)

lemma claims_stay:
  assumes "claim (cs ! j) = Some p" and "j < length cs" and "j \<noteq> i" shows "p \<in> claims (cs[i := k])"
proof -
  have "cs[i := k] ! j = cs ! j" "j < length (cs[i := k])" using assms by simp_all
  then have "cs ! j \<in> set (cs[i := k])" by (metis nth_mem)
  then show ?thesis using assms(1) by (auto simp: claims_def)
qed

lemma queue_ok_step:
  assumes q: "queue_ok L s0 rs s cs" and sh: "shared_ok L C (s, cs, hist)" and ad: "addressable s"
    and i: "i < length cs" and st: "step_call L held (cs ! i) s = (k, t)" and wa: "writes_apart cs"
    and nb: "\<not> failed (cs ! i)" "\<not> failed k"
  shows "\<exists>rs'. queue_ok L s0 (rs @ rs') t (cs[i := k]) \<and>
    (rs' = [] \<or> (\<exists>p. rs' = [p] \<and> w_prev p = data_highwater s))"
proof -
  let ?ds = "cs[i := k]"
  have inv: "fs_inv s" and cl: "claims_ok s cs" and ok: "\<forall>c \<in> set cs. call_ok L s c"
    and dt: "\<forall>c \<in> set cs. data_ok s c" using sh by (auto simp: shared_ok_def)
  have ci: "cs ! i \<in> set cs" using i by simp
  note oi = ok [rule_format, OF ci]
  have fx: "fixed s t" using step_fixed [OF st inv oi] by blast
  have Q: "fixed s0 s" "queue (fs_max_data_file_size s) (data_highwater s0) rs (data_highwater s)"
    "distinct (map w_height rs)" and pend: "\<And>c p. c \<in> set cs \<Longrightarrow> pending_of c = Some p \<Longrightarrow> p \<in> set rs"
    and pok: "\<And>p. p \<in> set rs \<Longrightarrow> pending_ok L s p"
    and jobs: "\<And>p. p \<in> set rs \<Longrightarrow> \<exists>c \<in> set cs. job c = Some (w_height p, w_block p) \<and> \<not> waiting c"
    and where_is: "\<And>p. p \<in> set rs \<Longrightarrow> p \<in> claims cs \<or> landed s (claims cs) p"
    and old: "\<And>h slot. h \<notin> w_height ` set rs \<Longrightarrow> index_entry_offset s0 h = Some slot \<Longrightarrow>
        entry_at s slot = entry_at s0 slot"
    using q by (auto simp: queue_ok_def)
  note sp = step_pending [OF st]
  have pend': "p \<in> set rs \<or> waiting (cs ! i) \<and> c = k" if c: "c \<in> set ?ds" "pending_of c = Some p" for c p
  proof -
    have "c = k \<or> c \<in> set cs" using c(1) set_update_subset_insert [of cs i k] by auto
    then show ?thesis using pend [OF ci] pend c(2) sp(2) by blast
  qed
  have jobs': "\<exists>c \<in> set ?ds. job c = Some (w_height p, w_block p) \<and> \<not> waiting c" if p: "p \<in> set rs" for p
  proof -
    obtain j where j: "j < length cs" "job (cs ! j) = Some (w_height p, w_block p)" "\<not> waiting (cs ! j)"
      using jobs [OF p] by (metis in_set_conv_nth)
    then have "job (?ds ! j) = Some (w_height p, w_block p) \<and> \<not> waiting (?ds ! j)"
      using step_job [OF st] sp(1) i by (cases "j = i") simp_all
    then show ?thesis using j(1) by (metis length_list_update nth_mem)
  qed
  have here: "p \<in> claims ?ds \<or> landed t (claims ?ds) p" if p: "p \<in> set rs" for p
  proof (cases "landed s (claims cs) p")
    case True
    have "w_height r \<noteq> w_height p" if r: "cs ! i = Landed r" for r
    proof
      assume "w_height r = w_height p"
      moreover have "r \<in> set rs" using pend [OF ci] r by simp
      ultimately have "r = p" using Q(3) p by (auto simp: distinct_map dest: inj_onD)
      then have "p \<in> claims cs" using claims_update(2) [OF i] r by simp
      then show False using landed_not_claimed [OF True pok [OF p]] by blast
    qed
    from step_landed [OF st i inv oi cl ad pok [OF p] True this] show ?thesis by blast
  next
    case False
    then obtain j where j: "j < length cs" "claim (cs ! j) = Some p"
      using where_is [OF p] by (auto simp: claims_def in_set_conv_nth)
    show ?thesis
    proof (cases "j = i \<and> claim k \<noteq> Some p")
      case True
      from st inv oi show ?thesis
      proof (cases rule: step_call_cases)
        case (index r m fs)
        then have k: "k = Indexed p" "cs ! i = Landed p" using nb True j(2) by auto
        have "data_ok s (cs ! i)" using dt ci by blast
        note step_lands [OF st [unfolded k(1)] i k(2) inv oi cl this]
        then show ?thesis using k(1) by (simp add: landed_def)
      qed (use True j nb in auto)
    next
      case False
      then show ?thesis using claims_own [OF _ i] claims_stay [OF j(2,1)] by blast
    qed
  qed
  have ent: "entry_at t slot = entry_at s0 slot"
    if h: "h \<notin> w_height ` set rs" "index_entry_offset s0 h = Some slot" for h slot
  proof -
    have "index_entry_offset s h = Some slot" using h(2) fixed_cong(3) [OF Q(1)] by simp
    moreover have "w_height p \<noteq> h" if "cs ! i = Landed p" for p using pend [OF ci] that h(1) by auto
    ultimately have "entry_at t slot = entry_at s slot" by (rule step_entry [OF st inv oi])
    then show ?thesis using old [OF h] by simp
  qed
  have cap: "fs_max_data_file_size t = fs_max_data_file_size s" using fx by (simp add: fixed_def)
  have stays: "\<exists>rs'. queue_ok L s0 (rs @ rs') t ?ds \<and>
      (rs' = [] \<or> (\<exists>p. rs' = [p] \<and> w_prev p = data_highwater s))"
    if hw: "data_highwater t = data_highwater s" and nw: "waiting (cs ! i) \<Longrightarrow> pending_of k = None"
  proof -
    have "queue_ok L s0 rs t ?ds"
      using Q fixed_trans [OF Q(1) fx] cap hw pend' nw jobs' here ent pok fixed_cong(5) [OF fx]
      unfolding queue_ok_def by fastforce
    then show ?thesis by (intro exI [of _ "[]"]) simp
  qed
  from st inv oi show ?thesis
  proof (cases rule: step_call_cases)
    case quiet
    have "pending_of k = None" if w: "waiting (cs ! i)"
    proof -
      obtain h b where "cs ! i = Write_call h b" using w by (rule waiting.elims)
      then show ?thesis using quiet(3) st by (auto split: res.splits prod.splits)
    qed
    then show ?thesis using quiet by (intro stays) (auto simp: quiet_def)
  next
    case (reserve p)
    have new: "w_height p \<notin> w_height ` set rs"
    proof
      assume "w_height p \<in> w_height ` set rs"
      then obtain r where "r \<in> set rs" "w_height r = w_height p" by auto
      then obtain j where j: "j < length cs" "job (cs ! j) = Some (w_height p, w_block r)" "\<not> waiting (cs ! j)"
        using jobs by (metis in_set_conv_nth)
      have "job (cs ! i) = Some (w_height p, w_block p)" "waiting (cs ! i)" using reserve(1) by simp_all
      then have "j = i" using wa j i unfolding writes_apart_def by blast
      then show False using j(3) \<open>waiting (cs ! i)\<close> by simp
    qed
    have size: "w_size p \<le> unat c" if "fs_max_data_file_size s = Some c" for c
      using reserve(5) that by (auto simp: pending_ok_def unsplit_def)
    have "queue (fs_max_data_file_size t) (data_highwater s0) (rs @ [p]) (data_highwater t)"
      using Q(2) reserve(3,4,7) cap size by (auto simp: queue_append)
    moreover have "distinct (map w_height (rs @ [p]))" using Q(3) new by simp
    moreover have "p \<in> claims ?ds" by (rule claims_own [OF _ i]) (simp add: reserve(2))
    moreover have "\<exists>c \<in> set ?ds. job c = Some (w_height p, w_block p) \<and> \<not> waiting c"
      using reserve(2) i by (intro bexI [of _ k]) (simp_all add: set_update_memI)
    moreover have "pending_ok L t r" if "r \<in> set (rs @ [p])" for r
      using that pok reserve(5) fixed_cong(5) [OF fx] by auto
    moreover have "c \<in> set ?ds \<Longrightarrow> pending_of c = Some r \<Longrightarrow> r \<in> set (rs @ [p])" for c r
      using pend' [of c r] reserve(2) by auto
    ultimately have "queue_ok L s0 (rs @ [p]) t ?ds"
      using fixed_trans [OF Q(1) fx] jobs' here ent unfolding queue_ok_def by auto
    then show ?thesis using reserve(4) by (intro exI [of _ "[p]"]) simp
  next
    case (release p e)
    then show ?thesis using nb by simp
  next
    case (data p i' local pos bs)
    then show ?thesis by (intro stays) (auto dest: claim_pending elim: waiting.elims)
  next
    case (index p m fs)
    then show ?thesis by (intro stays) auto
  qed
qed

section \<open>The files from above\<close>

text \<open>No file reaches past \<open>e\<close>, as far as the file \<open>e\<close> lies in goes.\<close>

definition sealed :: "'z store_scheme \<Rightarrow> u64 \<Rightarrow> bool" where
  "sealed s e \<longleftrightarrow>
     (\<forall>c i. fs_max_data_file_size s = Some c \<longrightarrow> unat i = unat e div unat c \<longrightarrow> file_len s i \<le> unat e mod unat c)"

definition roof :: "'z store_scheme \<Rightarrow> u64 \<Rightarrow> bool" where
  "roof s e \<longleftrightarrow>
     dir_ok s \<and> (\<forall>i. \<not> is_dir s (path_for i)) \<and> sealed s e \<and>
     (fs_max_data_file_size s = None \<longrightarrow> (\<forall>i. i \<noteq> 0 \<longrightarrow> \<not> is_file s (path_for i)) \<and> file_len s 0 \<le> unat e) \<and>
     (\<forall>c i. fs_max_data_file_size s = Some c \<longrightarrow>
        file_len s i \<le> unat c \<and> (unat e div unat c < unat i \<longrightarrow> \<not> is_file s (path_for i)))"

text \<open>A step opens, or writes to, the file of an extent.\<close>

definition touched :: "'z store_scheme \<Rightarrow> 'z store_scheme \<Rightarrow> u64 \<Rightarrow> nat \<Rightarrow> bool" where
  "touched s t off n \<longleftrightarrow>
     fs_max_data_file_size t = fs_max_data_file_size s \<and> unsplit s off n \<and> small_offset s off \<and>
     (\<exists>j local. split_offset (fs_max_data_file_size s) off = (j, local) \<and> files_grow j s t \<and>
        (\<forall>x. x \<noteq> j \<longrightarrow> file_len t x = file_len s x) \<and> file_len s j \<le> file_len t j \<and>
        file_len t j \<le> max (file_len s j) (unat local + n))"

lemma touchedE:
  assumes "touched s t off n"
  obtains (whole) "fs_max_data_file_size s = None" "files_grow 0 s t"
      "file_len t 0 \<le> max (file_len s 0) (unat off + n)" "file_len s 0 \<le> file_len t 0"
      "\<And>x. x \<noteq> 0 \<Longrightarrow> file_len t x = file_len s x"
    | (split) c j where "fs_max_data_file_size s = Some c" "unat j = unat off div unat c"
      "unat off mod unat c + n \<le> unat c" "files_grow j s t"
      "\<And>x. x \<noteq> j \<Longrightarrow> file_len t x = file_len s x" "file_len s j \<le> file_len t j"
      "file_len t j \<le> max (file_len s j) (unat off mod unat c + n)"
proof -
  from assms obtain j local where t: "unsplit s off n" "small_offset s off"
    "split_offset (fs_max_data_file_size s) off = (j, local)" "files_grow j s t"
    "\<And>x. x \<noteq> j \<Longrightarrow> file_len t x = file_len s x" "file_len s j \<le> file_len t j"
    "file_len t j \<le> max (file_len s j) (unat local + n)"
    unfolding touched_def by blast
  show ?thesis
  proof (cases "fs_max_data_file_size s")
    case None
    then show ?thesis using t by (intro whole) auto
  next
    case (Some c)
    have o: "unat off div unat c < 2 ^ 32" using t(2) Some by (simp add: small_offset_def)
    note jl = unat_split_offset [OF t(3) [unfolded Some] o]
    have "unat off mod unat c + n \<le> unat c" using t(1) Some by (simp add: unsplit_def)
    then show ?thesis using split [OF Some jl(1) _ t(4,5,6)] t(7) jl(2) by simp
  qed
qed

lemma sealed_mono:
  assumes "sealed s e" and "roof s e" and "unat e \<le> unat e'" shows "sealed s e'"
  unfolding sealed_def
proof (intro allI impI)
  fix c and i :: u32 assume c: "fs_max_data_file_size s = Some c" and i: "unat i = unat e' div unat c"
  have le: "unat e div unat c \<le> unat e' div unat c" using assms(3) by (rule div_le_mono)
  show "file_len s i \<le> unat e' mod unat c"
  proof (cases "unat e div unat c = unat e' div unat c")
    case True
    then have "unat e = unat e' div unat c * unat c + unat e mod unat c"
      using div_mult_mod_eq [of "unat e" "unat c"] by simp
    moreover have "unat e' = unat e' div unat c * unat c + unat e' mod unat c" by simp
    ultimately have "unat e mod unat c \<le> unat e' mod unat c" using assms(3) by linarith
    moreover have "file_len s i \<le> unat e mod unat c" using assms(1) c i True by (simp add: sealed_def)
    ultimately show ?thesis by linarith
  next
    case False
    then have "\<not> is_file s (path_for i)" using assms(2) c i le by (simp add: roof_def)
    then show ?thesis by (simp add: file_len_absent)
  qed
qed

lemma roof_mono:
  assumes "roof s e" and "unat e \<le> unat e'" shows "roof s e'"
proof -
  have "unat e div unat c \<le> unat e' div unat c" for c :: u64 using assms(2) by (rule div_le_mono)
  then show ?thesis
    using assms sealed_mono [OF _ assms] unfolding roof_def by (meson le_trans le_less_trans)
qed

lemma files_same:
  assumes "data_dir t = data_dir s" and "\<And>x. file_len t x = file_len s x"
    and "fs_max_data_file_size t = fs_max_data_file_size s"
  shows "roof t e = roof s e" and "sealed t e = sealed s e"
proof -
  have "is_file t (path_for x) = is_file s (path_for x)" "is_dir t (path_for x) = is_dir s (path_for x)"
    "dir_ok t = dir_ok s" for x
    using assms(1) by (simp_all add: is_file_def is_dir_def dir_ok_def path_for_def)
  then show "roof t e = roof s e" "sealed t e = sealed s e"
    using assms(2,3) by (simp_all add: roof_def sealed_def)
qed

text \<open>An extent below \<open>e\<close> keeps what is sealed there; so does one in a later file.\<close>

lemma sealed_touched:
  assumes "sealed s e" and t: "touched s t off n" and ap: "unat off + n \<le> unat e \<or> (\<forall>x. file_len t x = file_len s x) \<or>
      (\<forall>c. fs_max_data_file_size s = Some c \<longrightarrow> unat e div unat c < unat off div unat c)"
  shows "sealed t e"
proof -
  have cap: "fs_max_data_file_size t = fs_max_data_file_size s" using t by (simp add: touched_def)
  from t show ?thesis
  proof (cases rule: touchedE)
    case (split c j)
    have "file_len t i \<le> unat e mod unat c" if i: "unat i = unat e div unat c" for i
    proof (cases "i = j")
      case True
      have old: "file_len s i \<le> unat e mod unat c" using assms(1) split(1) i by (simp add: sealed_def)
      have "unat e div unat c = unat off div unat c" using True i split(2) by simp
      moreover from this have "unat off mod unat c + n \<le> unat e mod unat c" if "unat off + n \<le> unat e"
      proof -
        have "unat off = unat e div unat c * unat c + unat off mod unat c"
          using \<open>unat e div unat c = unat off div unat c\<close> by simp
        moreover have "unat e = unat e div unat c * unat c + unat e mod unat c" by simp
        ultimately show ?thesis using that by linarith
      qed
      ultimately show ?thesis using ap split(1,7) old True by auto
    next
      case False
      then show ?thesis using assms(1) split(1,5) i by (simp add: sealed_def)
    qed
    then show ?thesis using cap split(1) by (simp add: sealed_def)
  qed (simp add: sealed_def cap)
qed

lemma roof_touched:
  assumes r: "roof s e" and t: "touched s t off n" and le: "unat off + n \<le> unat e"
  shows "roof t e"
proof -
  have cap: "fs_max_data_file_size t = fs_max_data_file_size s" using t by (simp add: touched_def)
  have "sealed s e" using r by (simp add: roof_def)
  from sealed_touched [OF this t] le have "sealed t e" by blast
  moreover from t have "dir_ok t \<and> (\<forall>i. \<not> is_dir t (path_for i)) \<and>
     (fs_max_data_file_size t = None \<longrightarrow> (\<forall>i. i \<noteq> 0 \<longrightarrow> \<not> is_file t (path_for i)) \<and> file_len t 0 \<le> unat e) \<and>
     (\<forall>c i. fs_max_data_file_size t = Some c \<longrightarrow>
        file_len t i \<le> unat c \<and> (unat e div unat c < unat i \<longrightarrow> \<not> is_file t (path_for i)))"
  proof (cases rule: touchedE)
    case whole
    have rs: "dir_ok s" "\<And>i. \<not> is_dir s (path_for i)" "\<And>i. i \<noteq> 0 \<Longrightarrow> \<not> is_file s (path_for i)"
      "file_len s 0 \<le> unat e"
      using r whole(1) by (simp_all add: roof_def)
    note g = whole(2) [unfolded files_grow_def]
    have "dir_ok t" "\<And>i. \<not> is_dir t (path_for i)" "\<And>i. i \<noteq> 0 \<Longrightarrow> \<not> is_file t (path_for i)"
      using g rs(1,2,3) by blast+
    moreover have "file_len t 0 \<le> unat e" using whole(3) rs(4) le by linarith
    ultimately show ?thesis using cap whole(1) by simp
  next
    case (split c j)
    have q: "unat off div unat c \<le> unat e div unat c" using le by (intro div_le_mono) simp
    have rs: "dir_ok s" "\<And>i. \<not> is_dir s (path_for i)" "\<And>i. file_len s i \<le> unat c"
      "\<And>i. unat e div unat c < unat i \<Longrightarrow> \<not> is_file s (path_for i)"
      using r split(1) by (simp_all add: roof_def)
    note g = split(4) [unfolded files_grow_def]
    have short: "file_len t i \<le> unat c" for i
      using rs(3) [of i] rs(3) [of j] split(3,5,7) by (cases "i = j") auto
    have none: "\<not> is_file t (path_for i)" if i: "unat e div unat c < unat i" for i
    proof -
      have "i \<noteq> j" using i q split(2) by auto
      then show ?thesis using g rs(4) [OF i] by blast
    qed
    have "dir_ok t" "\<And>i. \<not> is_dir t (path_for i)" using g rs(1,2) by blast+
    with short none show ?thesis using cap split(1) by simp
  qed
  ultimately show ?thesis unfolding roof_def by blast
qed

lemma step_highwater:
  assumes st: "step_call L held c s = (k, t)" and inv: "fs_inv s" and ok: "call_ok L s c" and nb: "\<not> failed c"
  shows "unat (data_highwater s) \<le> unat (data_highwater t)"
    and "\<not> waiting c \<Longrightarrow> data_highwater t = data_highwater s"
proof -
  have "unat (data_highwater s) \<le> unat (data_highwater t) \<and> (\<not> waiting c \<longrightarrow> data_highwater t = data_highwater s)"
    using st inv ok
  proof (cases rule: step_call_cases)
    case (reserve p)
    then show ?thesis using pending_ok_order(1) [OF reserve(5)] by (simp add: word_le_nat_alt)
  qed (use nb in \<open>auto simp: quiet_def\<close>)
  then show "unat (data_highwater s) \<le> unat (data_highwater t)"
    "\<not> waiting c \<Longrightarrow> data_highwater t = data_highwater s" by blast+
qed

text \<open>A step leaves the files, or touches an extent below the high-water mark.\<close>

lemma step_touches:
  assumes st: "step_call L held (cs ! i) s = (k, t)" and i: "i < length cs" and nf: "faults s = []"
    and sh: "shared_ok L C (s, cs, hist)" and ad: "addressable s" and nb: "\<forall>c \<in> set cs. \<not> failed c"
  obtains (same) "data_dir t = data_dir s" "\<And>x. file_len t x = file_len s x"
    | (touch) off n where "data_highwater t = data_highwater s" "touched s t off n"
        "unat off + n \<le> unat (data_highwater s)"
        "(\<forall>x. file_len t x = file_len s x) \<or> (\<exists>p \<in> claims cs. off = w_offset p \<and> n = w_size p)"
proof -
  have ci: "cs ! i \<in> set cs" using i by simp
  have inv: "fs_inv s" and cl: "claims_ok s cs" and ok: "call_ok L s (cs ! i)"
    and lg: "log_ok L C hist (spoilt cs) s (claims cs) (cs ! i)"
    using sh ci by (auto simp: shared_ok_def)
  have sp: "spoilt cs = {}" using nb by (fastforce simp: spoilt_def)
  have cap: "fs_max_data_file_size t = fs_max_data_file_size s"
    using step_fixed [OF st inv ok] by (simp add: fixed_def)
  have mine: "unsplit s (w_offset p) (w_size p) \<and> small_offset s (w_offset p) \<and>
      unat (w_offset p) + w_size p \<le> unat (data_highwater s)" if p: "claim (cs ! i) = Some p" for p
  proof -
    have "p \<in> claims cs" using claims_update(2) [OF i p] .
    moreover have "pending_ok L s p" using call_ok_pending [OF ok claim_pending [OF p]] .
    ultimately show ?thesis using cl by (auto simp: claims_ok_def pending_ok_def)
  qed
  have nh: "data_highwater t = data_highwater s" if "\<not> waiting (cs ! i)"
    using step_highwater(2) [OF st inv ok _ that] nb ci by blast
  from st inv ok nf show ?thesis
  proof (cases rule: step_world_cases)
    case steady
    then show ?thesis by (intro same) (simp_all add: steady_def file_len_def)
  next
    case (opens j l off)
    have ext: "\<exists>n. unsplit s off n \<and> small_offset s off \<and> unat off + n \<le> unat (data_highwater s)"
      using opens(4)
    proof (elim disjE exE conjE)
      fix p assume p: "cs ! i = Reserved p" "off = w_offset p"
      then have "claim (cs ! i) = Some p" by simp
      from mine [OF this] show ?thesis using p(2) by blast
    next
      fix h e assume h: "cs ! i = Found h e" "off = ie_offset e"
      then have "free s (claims cs) off (22 + unat (ie_size e))" using lg sp by (simp add: seen_def Let_def)
      then have f: "unsplit s off (22 + unat (ie_size e))"
        "unat off + (22 + unat (ie_size e)) \<le> unat (data_highwater s)" by (simp_all add: free_def)
      then have "small_offset s off" using small_below [OF ad, of off] by simp
      then show ?thesis using f by blast
    qed
    then obtain n where n: "unsplit s off n" "small_offset s off" "unat off + n \<le> unat (data_highwater s)" by blast
    have len: "file_len t x = file_len s x" for x using opens(1) by (simp add: file_len_def)
    then have "touched s t off n" using n cap opens(5,6) by (simp add: touched_def)
    moreover have "\<not> waiting (cs ! i)" using opens(4) by auto
    ultimately show ?thesis using touch [OF nh] n(3) len by blast
  next
    case (data p j local pos bs)
    note m = mine [OF data(1)]
    have other: "file_len t x = file_len s x" if "x \<noteq> j" for x using that data(10) by (simp add: file_len_def)
    have here: "file_len t j = length (pwrite (bytes_of s (path_for j)) pos bs)" using data(10) by (simp add: file_len_def)
    have "file_len s j \<le> file_len t j" "file_len t j \<le> max (file_len s j) (unat local + w_size p)"
      using data(9) unfolding here length_pwrite by (auto simp: file_len_def)
    then have "touched s t (w_offset p) (w_size p)"
      using m cap data(2,6) other by (simp add: touched_def)
    moreover have "\<not> waiting (cs ! i)" using data(1) by (auto elim: waiting.elims)
    ultimately show ?thesis using touch [OF nh] m claims_update(2) [OF i data(1)] by blast
  next
    case (landed p)
    then show ?thesis by (intro same) (simp_all add: file_len_def)
  next
    case (settle p tip)
    then show ?thesis by (intro same) (simp_all add: file_len_def)
  next
    case (finish p tip r)
    then have "bookkeeping s t" using checkpoint_bookkeeping(1) by auto
    then show ?thesis by (intro same) (simp_all add: file_len_def bookkeeping_def same_blocks_def)
  qed
qed

text \<open>Where a block left the rest of a file unused, that rest stays unused.\<close>

definition seals :: "'z store_scheme \<Rightarrow> pending list \<Rightarrow> bool" where
  "seals s rs \<longleftrightarrow> (\<forall>p \<in> set rs. w_offset p \<noteq> w_prev p \<longrightarrow> sealed s (w_prev p))"

text \<open>What was in the files at the beginning is still there.\<close>

definition kept :: "'z store_scheme \<Rightarrow> 'z store_scheme \<Rightarrow> pending set \<Rightarrow> bool" where
  "kept s0 s P \<longleftrightarrow>
     (\<forall>off n. unsplit s0 off n \<longrightarrow> length (region s0 off n) = n \<longrightarrow> 0 < n \<longrightarrow>
        unat off + n \<le> unat (data_highwater s0) \<longrightarrow> free s P off n \<and> region s off n = region s0 off n) \<and>
     (\<forall>x. (is_file s0 (path_for x) \<longrightarrow> is_file s (path_for x)) \<and> file_len s0 x \<le> file_len s x) \<and>
     (\<forall>c x. fs_max_data_file_size s = Some c \<longrightarrow> 0 < unat c \<longrightarrow>
        (unat x + 1) * unat c \<le> unat (data_highwater s0) \<longrightarrow> file_len s x = file_len s0 x)"

definition files_ok :: "'z store_scheme \<Rightarrow> pending list \<Rightarrow> 'z store_scheme \<Rightarrow> call list \<Rightarrow> bool" where
  "files_ok s0 rs s cs \<longleftrightarrow> roof s (data_highwater s) \<and> seals s rs \<and> kept s0 s (claims cs)"

lemma skipped_place:
  assumes "unat off = place_for (Some c) (unat hw) n" and "off \<noteq> hw" and "n \<le> unat c" and "0 < unat c"
    and "unat off \<le> unat off'"
  shows "unat hw div unat c < unat off' div unat c"
proof -
  have "unat off \<noteq> unat hw" using assms(2) by (simp add: word_unat_eq_iff)
  then have "unat off = (unat hw div unat c + 1) * unat c"
    using place_for_next(1) [of c "unat hw" n] assms(1,3,4) by simp
  then have "unat hw div unat c < unat off div unat c" using assms(4) by simp
  also have "\<dots> \<le> unat off' div unat c" using assms(5) by (rule div_le_mono)
  finally show ?thesis .
qed

lemma files_ok_step:
  assumes f: "files_ok s0 rs s cs" and q: "queue_ok L s0 rs s cs"
    and rs': "rs' = [] \<or> (\<exists>p. rs' = [p] \<and> w_prev p = data_highwater s)"
    and sh: "shared_ok L C (s, cs, hist)" and ad: "addressable s"
    and i: "i < length cs" and st: "step_call L held (cs ! i) s = (k, t)"
    and nf: "faults s = []" and nb: "\<forall>c \<in> set cs. \<not> failed c"
  shows "files_ok s0 (rs @ rs') t (cs[i := k])"
proof -
  have ci: "cs ! i \<in> set cs" using i by simp
  have inv: "fs_inv s" and cl: "claims_ok s cs" and oi: "call_ok L s (cs ! i)"
    using sh ci by (auto simp: shared_ok_def)
  have cap: "fs_max_data_file_size t = fs_max_data_file_size s" and caps: "cap_ok (fs_max_data_file_size s)"
    using step_fixed [OF st inv oi] inv by (simp_all add: fixed_def fs_inv_def)
  have F: "roof s (data_highwater s)" "seals s rs" "kept s0 s (claims cs)" using f by (simp_all add: files_ok_def)
  have Q: "queue (fs_max_data_file_size s) (data_highwater s0) rs (data_highwater s)"
    and pok: "\<And>p. p \<in> set rs \<Longrightarrow> pending_ok L s p" and cr: "claims cs \<subseteq> set rs"
    using q claim_pending by (auto simp: queue_ok_def claims_def)
  note order = pending_ok_order [OF pok]
  have le: "\<forall>p \<in> set rs. w_prev p \<le> w_end p" using order(1) by blast
  note hw = step_highwater(1) [OF st inv oi, OF nb [rule_format, OF ci]]
  have regions: "free t (claims (cs[i := k])) off n \<and> region t off n = region s0 off n"
    if "unsplit s0 off n" "length (region s0 off n) = n" "0 < n" "unat off + n \<le> unat (data_highwater s0)" for off n
  proof -
    have "free s (claims cs) off n" "region s off n = region s0 off n"
      using F(3) that unfolding kept_def by blast+
    then show ?thesis using step_free [OF st i inv oi cl ad _ that(3)] by simp
  qed
  from st i nf sh ad nb show ?thesis
  proof (cases rule: step_touches)
    case same
    note fs = files_same [OF same cap]
    have isf: "is_file t (path_for x) = is_file s (path_for x)" for x
      using same(1) by (simp add: is_file_def path_for_def)
    have "roof t (data_highwater t)" using roof_mono [OF F(1) hw] fs(1) by simp
    moreover have "seals t (rs @ rs')"
      using F(1,2) rs' fs(2) by (auto simp: seals_def roof_def)
    moreover have "kept s0 t (claims (cs[i := k]))"
      using regions F(3) isf same(2) cap by (simp add: kept_def)
    ultimately show ?thesis by (simp add: files_ok_def)
  next
    case (touch off n)
    have roof: "roof t (data_highwater t)" using roof_touched [OF F(1) touch(2,3)] touch(1) by simp
    have sealed: "sealed t (w_prev p)" if p: "p \<in> set rs" "w_offset p \<noteq> w_prev p" for p
    proof (rule sealed_touched [OF _ touch(2)])
      show "sealed s (w_prev p)" using F(2) p by (simp add: seals_def)
      show "unat off + n \<le> unat (w_prev p) \<or> (\<forall>x. file_len t x = file_len s x) \<or>
        (\<forall>c. fs_max_data_file_size s = Some c \<longrightarrow> unat (w_prev p) div unat c < unat off div unat c)"
        using touch(4)
      proof
        assume "\<exists>r \<in> claims cs. off = w_offset r \<and> n = w_size r"
        then obtain r where r: "r \<in> set rs" "off = w_offset r" "n = w_size r" using cr by blast
        from queue_apart [OF Q le r(1) p(1)] show ?thesis
        proof (elim disjE)
          assume "w_end r \<le> w_prev p"
          then show ?thesis using order(3) [OF r(1)] r(2,3) by (simp add: word_le_nat_alt)
        next
          have skip: ?thesis if "unat (w_offset p) \<le> unat off"
            using skipped_place [OF _ p(2) _ _ that] queue_place [OF Q p(1)] caps
            by (auto simp: cap_ok_def unat_gt_0)
          show ?thesis if "r = p" using skip that r(2) by simp
          show ?thesis if "w_end p \<le> w_prev r"
            using skip that r(2) order(2) [OF r(1)] order(3) [OF p(1)] by (simp add: word_le_nat_alt)
        qed
      qed blast
    qed
    have "sealed s (data_highwater s)" using F(1) by (simp add: roof_def)
    from sealed_touched [OF this touch(2)] touch(3) have "sealed t (data_highwater s)" by blast
    then have "seals t (rs @ rs')" using sealed rs' by (auto simp: seals_def)
    moreover have "kept s0 t (claims (cs[i := k]))"
    proof -
      have lens: "file_len s0 x \<le> file_len s x" "is_file s0 (path_for x) \<Longrightarrow> is_file s (path_for x)" for x
        using F(3) by (simp_all add: kept_def)
      have grow: "file_len s x \<le> file_len t x \<and> (is_file s (path_for x) \<longrightarrow> is_file t (path_for x))" for x
        using touch(2) unfolding touched_def files_grow_def by (metis order_refl)
      have "file_len t x = file_len s0 x"
        if c: "fs_max_data_file_size s = Some c" "0 < unat c"
          and x: "(unat x + 1) * unat c \<le> unat (data_highwater s0)" for c x
      proof -
        have "file_len s x = file_len s0 x" using F(3) c x by (simp add: kept_def)
        moreover have "file_len t x = file_len s x"
          using touch(4)
        proof
          assume "\<exists>r \<in> claims cs. off = w_offset r \<and> n = w_size r"
          then obtain r where r: "r \<in> set rs" "off = w_offset r" using cr by blast
          have "unat (data_highwater s0) \<le> unat off"
            using queue_between(2) [OF Q le] r order(2) [OF r(1)] by (force simp: word_le_nat_alt)
          then have beyond: "unat x < unat off div unat c"
            using x c(2) less_eq_div_iff_mult_less_eq [of "unat c" "unat x + 1" "unat off"] by simp
          from touch(2) show ?thesis
          proof (cases rule: touchedE)
            case (split c' j)
            then have "unat x < unat j" using beyond c(1) by simp
            then have "x \<noteq> j" by blast
            then show ?thesis by (rule split(5))
          qed (use c(1) in simp)
        qed blast
        ultimately show ?thesis by simp
      qed
      moreover have "file_len s0 x \<le> file_len t x \<and> (is_file s0 (path_for x) \<longrightarrow> is_file t (path_for x))" for x
        using lens [of x] grow [of x] by (auto intro: le_trans)
      ultimately show ?thesis using regions cap unfolding kept_def by auto
    qed
    ultimately show ?thesis using roof by (simp add: files_ok_def)
  qed
qed

section \<open>The header and the heights\<close>

definition head_ok :: "'z store_scheme \<Rightarrow> pending list \<Rightarrow> 'z store_scheme \<Rightarrow> call list \<Rightarrow> bool" where
  "head_ok s0 rs s cs \<longleftrightarrow>
     whole_entries s \<and> effective_max (disk_header s) = fs_max_data_file_size s \<and>
     effective_max (header s) = fs_max_data_file_size s \<and>
     ih_min_height (disk_header s) = ih_min_height (header s) \<and>
     ih_next_write_offset (disk_header s) \<in>
       insert (ih_next_write_offset (disk_header s0)) (w_end ` set rs) \<and>
     ih_max_height (disk_header s) \<le> height_highwater s \<and>
     height_highwater s0 \<le> height_highwater s \<and> unat (height_highwater s) < 2 ^ 59 \<and>
     (\<forall>c \<in> set cs. \<forall>h. topped c = Some h \<longrightarrow> h \<le> height_highwater s)"

definition low_heights :: "call list \<Rightarrow> bool" where
  "low_heights cs \<longleftrightarrow> (\<forall>c \<in> set cs. \<forall>h b. job c = Some (h, b) \<longrightarrow> unat h < 2 ^ 59)"

lemma low_heights_jobs: "map job ds = map job cs \<Longrightarrow> low_heights ds = low_heights cs"
proof -
  assume "map job ds = map job cs"
  then have js: "job ` set ds = job ` set cs" by (metis list.set_map)
  have "low_heights xs = (\<forall>j \<in> job ` set xs. \<forall>h b. j = Some (h, b) \<longrightarrow> unat h < 2 ^ 59)" for xs
    by (simp add: low_heights_def)
  then show ?thesis by (simp only: js)
qed

lemma head_ok_step:
  assumes h: "head_ok s0 rs s cs" and q: "queue_ok L s0 rs s cs"
    and sh: "shared_ok L C (s, cs, hist)" and low: "low_heights cs"
    and i: "i < length cs" and st: "step_call L held (cs ! i) s = (k, t)"
    and nf: "faults s = []" and nb: "\<not> failed k"
  shows "head_ok s0 (rs @ rs') t (cs[i := k])"
proof -
  have ci: "cs ! i \<in> set cs" using i by simp
  have inv: "fs_inv s" and oi: "call_ok L s (cs ! i)" using sh ci by (auto simp: shared_ok_def)
  have fx: "header t = header s" "fs_max_data_file_size t = fs_max_data_file_size s"
    using step_fixed [OF st inv oi] by (simp_all add: fixed_def)
  have tops: "h \<le> b" if "c \<in> set (cs[i := k])" "topped c = Some h" "height_highwater s \<le> b"
    "\<And>h. topped k = Some h \<Longrightarrow> h \<le> b" for c h b
  proof -
    have "c = k \<or> c \<in> set cs" using that(1) set_update_subset_insert [of cs i k] by auto
    then show ?thesis using that(2-4) assms(1) unfolding head_ok_def by (meson order_trans)
  qed
  have same: "head_ok s0 (rs @ rs') t (cs[i := k])"
    if "whole_entries s \<Longrightarrow> whole_entries t" "disk_header t = disk_header s" "height_highwater s \<le> height_highwater t"
      "unat (height_highwater t) < 2 ^ 59" "\<And>h. topped k = Some h \<Longrightarrow> h \<le> height_highwater t"
    using h that(1,2,4) fx order_trans [OF _ that(3)] tops [OF _ _ that(3,5)]
    unfolding head_ok_def by auto
  have top_i: "h \<le> height_highwater s" if "topped (cs ! i) = Some h" for h
    using h ci that by (simp add: head_ok_def)
  have hh: "unat (height_highwater s) < 2 ^ 59" using h by (simp add: head_ok_def)
  from st inv oi nf show ?thesis
  proof (cases rule: step_world_cases)
    case steady
    then show ?thesis using top_i hh
      by (intro same) (auto simp: steady_def whole_entries_def disk_header_def)
  next
    case (opens j l off)
    then show ?thesis using hh by (intro same) (simp_all add: whole_entries_def disk_header_def)
  next
    case (data p j local pos bs)
    then show ?thesis using hh by (intro same) (simp_all add: whole_entries_def disk_header_def)
  next
    case (landed p)
    have slot: "index_entry_offset s (w_height p) = Some (w_slot p)"
      using oi landed(1) by (simp add: pending_ok_def)
    show ?thesis
    proof (rule same)
      show "disk_header t = disk_header s"
        using index_entry_offset_ge [OF slot] by (simp add: disk_header_def landed(3) zread_pwrite_other)
      show "whole_entries t" if "whole_entries s"
        using whole_entries_pwrite [OF slot_dvd [OF slot] _ that] by (simp add: landed(3))
    qed (use landed hh in simp_all)
  next
    case (settle p tip)
    have "unat (w_height p) < 2 ^ 59" using low ci settle(1) by (auto simp: low_heights_def)
    then show ?thesis
      using settle hh by (intro same) (auto simp: whole_entries_def disk_header_def max_def)
  next
    case (finish p tip r)
    have r: "r = Ok ()" using nb finish(2) by simp
    have p: "p \<in> set rs" using q ci finish(1) by (force simp: queue_ok_def)
    have tp: "w_height p \<le> height_highwater s" using top_i finish(1) by simp
    from finish(3) show ?thesis
    proof
      assume "t = s \<and> r = Ok ()"
      then show ?thesis using finish(2) tp hh by (intro same) simp_all
    next
      assume c: "checkpoint (w_end p) s = (r, t)"
      note d = checkpoint_header [OF c [unfolded r]]
      have "effective_max (disk_header t) = effective_max (header s)"
        by (rule effective_max_cong) (simp add: d(1))
      moreover have "topped k = Some (w_height p)" using finish(2) r by simp
      ultimately show ?thesis
        using h d(1,2) fx p tp tops [of _ _ "height_highwater s"] d(3)
        unfolding head_ok_def by auto
    qed
  qed
qed

end
