(* ===== verification/ConcurrentCrash.thy ===== *)
theory ConcurrentCrash
  imports Quiescence
begin

text \<open>
  Concurrent writers, then the end of the process. Once every call of a run has returned and every
  write returned \<open>Ok\<close>, the store is durable: left by \<open>Drop\<close> or by a kill, it opens again and holds
  what it held.
\<close>

section \<open>The files from below\<close>

text \<open>Every file up to \<open>e\<close> is there and reaches as far as \<open>e\<close> says.\<close>

definition grounded :: "'z store_scheme \<Rightarrow> u64 \<Rightarrow> bool" where
  "grounded s e \<longleftrightarrow>
     (case fs_max_data_file_size s of
        None \<Rightarrow> unat e \<le> file_len s 0
      | Some c \<Rightarrow>
          (\<forall>i. unat i < unat e div unat c \<longrightarrow> is_file s (path_for i)) \<and>
          (\<forall>i. unat i = unat e div unat c \<longrightarrow> unat e mod unat c \<le> file_len s i) \<and>
          (\<forall>i. unat i + 1 = unat e div unat c \<longrightarrow>
             (\<forall>j. unat j = unat e div unat c \<longrightarrow> \<not> is_file s (path_for j)) \<longrightarrow> unat c \<le> file_len s i))"

lemma laid_out_between:
  assumes "roof s e" and "grounded s e" and "small_offset s e" shows "laid_out s e"
proof (cases "fs_max_data_file_size s")
  case None
  then show ?thesis using assms by (simp add: laid_out_def roof_def grounded_def)
next
  case (Some c)
  have r: "dir_ok s" "sealed s e" "\<And>i. file_len s i \<le> unat c"
    "\<And>i. unat e div unat c < unat i \<Longrightarrow> \<not> is_file s (path_for i)"
    using assms(1) Some by (simp_all add: roof_def)
  have g: "\<And>i. unat i < unat e div unat c \<Longrightarrow> is_file s (path_for i)"
    "\<And>i. unat i = unat e div unat c \<Longrightarrow> unat e mod unat c \<le> file_len s i"
    "\<And>i. unat i + 1 = unat e div unat c \<Longrightarrow> (\<forall>j. unat j = unat e div unat c \<longrightarrow> \<not> is_file s (path_for j)) \<Longrightarrow>
       unat c \<le> file_len s i"
    using assms(2) Some by (simp_all add: grounded_def)
  have "file_len s i = unat e mod unat c" if "unat i = unat e div unat c" for i
    using g(2) [OF that] r(2) that Some by (simp add: sealed_def le_antisym)
  moreover have "file_len s i = unat c" if "unat i + 1 = unat e div unat c"
    "\<forall>j. unat j = unat e div unat c \<longrightarrow> \<not> is_file s (path_for j)" for i
    using g(3) [OF that] r(3) [of i] by simp
  moreover have "unat e div unat c < 2 ^ 32" using assms(3) Some by (simp add: small_offset_def)
  ultimately show ?thesis
    using Some r(1,3,4) g(1) by (simp add: laid_out_def Let_def)
qed

lemma laid_out_roof: "laid_out s e \<Longrightarrow> \<forall>i. \<not> is_dir s (path_for i) \<Longrightarrow> roof s e"
  and laid_out_grounded: "laid_out s e \<Longrightarrow> grounded s e"
  by (auto simp: laid_out_def roof_def grounded_def sealed_def Let_def split: option.splits)

lemma grounded_kept:
  assumes g: "grounded s0 (data_highwater s0)" and k: "kept s0 s P"
    and cap: "fs_max_data_file_size s = fs_max_data_file_size s0"
  shows "grounded s (data_highwater s0)"
proof -
  have f: "is_file s0 (path_for x) \<Longrightarrow> is_file s (path_for x)" "file_len s0 x \<le> file_len s x" for x
    using k by (simp_all add: kept_def)
  show ?thesis
  proof (cases "fs_max_data_file_size s")
    case None
    then show ?thesis using g cap f(2) [of 0] by (simp add: grounded_def)
  next
    case (Some c)
    let ?q = "unat (data_highwater s0) div unat c"
    have g': "\<And>i. unat i < ?q \<Longrightarrow> is_file s0 (path_for i)"
      "\<And>i. unat i = ?q \<Longrightarrow> unat (data_highwater s0) mod unat c \<le> file_len s0 i"
      "\<And>i. unat i + 1 = ?q \<Longrightarrow> (\<forall>j. unat j = ?q \<longrightarrow> \<not> is_file s0 (path_for j)) \<Longrightarrow> unat c \<le> file_len s0 i"
      using g Some [unfolded cap] by (simp_all add: grounded_def)
    have "unat c \<le> file_len s i" if "unat i + 1 = ?q" "\<forall>j. unat j = ?q \<longrightarrow> \<not> is_file s (path_for j)" for i
      using g'(3) [OF that(1)] that(2) f by (meson le_trans)
    moreover have "unat (data_highwater s0) mod unat c \<le> file_len s i" if "unat i = ?q" for i
      using g'(2) [OF that] f(2) [of i] by simp
    ultimately show ?thesis using Some g'(1) f(1) by (simp add: grounded_def)
  qed
qed

text \<open>A block behind the ground, all of whose bytes are there, raises it to its end.\<close>

lemma grounded_block:
  assumes g: "grounded s hw" and off: "unat off = place_for (fs_max_data_file_size s) (unat hw) n"
    and n: "0 < n" and len: "length (region s off n) = n" and us: "unsplit s off n" and so: "small_offset s off"
    and e: "unat e = unat off + n" and cap: "cap_ok (fs_max_data_file_size s)"
  shows "grounded s e"
proof (cases "fs_max_data_file_size s")
  case None
  have "unat off + n \<le> file_len s 0"
    using len n None by (simp add: region_def file_len_def pread_full_iff)
  then show ?thesis using None e by (simp add: grounded_def)
next
  case (Some c)
  let ?c = "unat c" and ?q = "unat hw div unat c"
  obtain j l where jl: "split_offset (Some c) off = (j, l)" by fastforce
  have c: "0 < ?c" using cap Some by (auto simp: cap_ok_def unat_gt_0)
  have j: "unat j = unat off div ?c" "unat l = unat off mod ?c"
    using unat_split_offset [OF jl] so Some by (simp_all add: small_offset_def)
  have fits: "unat off mod ?c + n \<le> ?c" using us Some by (simp add: unsplit_def)
  have here: "unat off mod ?c + n \<le> file_len s j"
    using len n jl Some j(2) by (simp add: region_def file_len_def pread_full_iff)
  then have jf: "is_file s (path_for j)" using n file_len_absent [of s j] by fastforce
  have g': "\<And>i. unat i < ?q \<Longrightarrow> is_file s (path_for i)"
    "\<And>i. unat i = ?q \<Longrightarrow> unat hw mod ?c \<le> file_len s i"
    using g Some by (simp_all add: grounded_def)
  have below: "is_file s (path_for i)" if i: "unat i < unat off div ?c" for i
  proof (cases "unat i < ?q")
    case False
    have "unat off \<noteq> unat hw" using i False by auto
    then have "unat off = (?q + 1) * ?c" "unat hw mod ?c \<noteq> 0"
      using place_for_next [of c "unat hw" n] off Some fits c by simp_all
    moreover from this have "unat i = ?q" using i False c by simp
    ultimately show ?thesis using g'(2) [of i] file_len_absent [of s i] by fastforce
  qed (rule g')
  have ee: "unat e = unat off div ?c * ?c + (unat off mod ?c + n)" using e by simp
  have dm: "(q * ?c + m) div ?c = q" "(q * ?c + m) mod ?c = m" if "m < ?c" for q m
    using that by simp_all
  show ?thesis
  proof (cases "unat off mod ?c + n = ?c")
    case True
    then have d: "unat e div ?c = unat off div ?c + 1" "unat e mod ?c = 0" using ee c by simp_all
    have "is_file s (path_for i)" if "unat i < unat e div ?c" for i
    proof (cases "i = j")
      case False
      then have "unat i < unat off div ?c" using that d(1) j(1) by (auto simp: word_unat_eq_iff)
      then show ?thesis by (rule below)
    qed (use jf in simp)
    moreover have "?c \<le> file_len s i" if "unat i + 1 = unat e div ?c" for i
    proof -
      have "i = j" using that d(1) j(1) by (simp add: word_unat_eq_iff)
      then show ?thesis using here True by simp
    qed
    ultimately show ?thesis using Some d(2) by (simp add: grounded_def)
  next
    case False
    then have lt: "unat off mod ?c + n < ?c" using fits by simp
    have d: "unat e div ?c = unat off div ?c" "unat e mod ?c = unat off mod ?c + n"
      unfolding ee by (rule dm [OF lt])+
    have "unat e mod ?c \<le> file_len s i" if "unat i = unat e div ?c" for i
    proof -
      have "i = j" using that d(1) j(1) by (simp add: word_unat_eq_iff)
      then show ?thesis using here d(2) by simp
    qed
    moreover have "\<not> (\<forall>x. unat x = unat e div ?c \<longrightarrow> \<not> is_file s (path_for x))"
      using jf j(1) d(1) by metis
    ultimately show ?thesis using Some below d(1) by (auto simp: grounded_def)
  qed
qed

section \<open>The chain of the reservations\<close>

definition found :: "pending \<Rightarrow> found_block" where
  "found p = (w_height p, w_offset p, w_len p)"

lemma pending_valid:
  assumes p: "pending_ok L s p" and r: "region s (w_offset p) (w_size p) = serialize (w_header p) @ w_payload p"
  shows "valid_block_at L s (w_offset p) (w_height p) (w_len p) (w_block p)"
proof -
  have b: "compress L (w_block p) = Ok (w_payload p)" "storable L (w_block p)" "w_block p \<noteq> []"
    "unat (w_len p) = length (w_payload p)" "w_header p = block_header_of L (w_height p) (w_block p) (w_len p)"
    using p by (simp_all add: pending_ok_def)
  have "w_payload p \<noteq> []" using compress_nonempty b(1-3) by (auto simp: storable_def)
  then have "w_len p \<noteq> 0" using b(4) by (auto simp: unat_eq_zero)
  moreover have "w_len p \<le> MAX_BLOCK_SIZE"
    using b by (simp add: storable_def word_le_nat_alt MAX_BLOCK_SIZE_def)
  moreover have "decompress L (w_payload p) = Ok (w_block p)"
    using decompress_compress [of L] b(1,2) by (simp add: storable_def)
  moreover have "w_size p = 22 + unat (w_len p)" using b(4) by (simp add: w_size_def)
  ultimately show ?thesis using r b(4,5) by (simp add: valid_block_at_def Let_def)
qed

lemma queue_chain:
  assumes "queue (fs_max_data_file_size s) hw ps e" and "grounded s hw"
    and "\<forall>p \<in> set ps. pending_ok L s p \<and> small_offset s (w_offset p) \<and>
      region s (w_offset p) (w_size p) = serialize (w_header p) @ w_payload p"
    and "seals s ps" and cap: "cap_ok (fs_max_data_file_size s)"
  shows "grounded s e \<and> chain L s hw (map found ps) e"
  using assms(1-4)
proof (induction ps arbitrary: hw)
  case Nil
  then show ?case by (simp add: chain.chain_end)
next
  case (Cons p ps)
  have p: "pending_ok L s p" "small_offset s (w_offset p)"
    "region s (w_offset p) (w_size p) = serialize (w_header p) @ w_payload p"
    and off: "unat (w_offset p) = place_for (fs_max_data_file_size s) (unat hw) (w_size p)"
    and prev: "w_prev p = hw" and fit: "\<And>c. fs_max_data_file_size s = Some c \<Longrightarrow> w_size p \<le> unat c"
    and rest: "queue (fs_max_data_file_size s) (w_end p) ps e" "seals s ps"
    using Cons.prems by (auto simp: seals_def)
  note o = pending_ok_order [OF p(1)]
  have us: "unsplit s (w_offset p) (w_size p)" and slot: "index_entry_offset s (w_height p) = Some (w_slot p)"
    and len: "w_size p = 22 + unat (w_len p)" using p(1) by (simp_all add: pending_ok_def w_size_def)
  have full: "length (region s (w_offset p) (w_size p)) = w_size p" using p(3) by (simp add: w_size_def)
  obtain i l where il: "split_offset (fs_max_data_file_size s) (w_offset p) = (i, l)" by fastforce
  have "unat l + w_size p \<le> file_len s i"
    using full o(4) il by (simp add: region_def file_len_def pread_full_iff)
  then have "is_file s (path_for i)" using o(4) file_len_absent [of s i] by fastforce
  then have fz: "file_sizes s i = Some (u64_of_len (file_len s i))" by (simp add: file_sizes_eq)
  have step: "chain L s (w_offset p) [found p] (w_end p)"
    using chain.chain_block [OF il fz pending_valid [OF p(1,3)] slot _ chain.chain_end] o(3) len
    by (simp add: found_def)
  have to_place: "chain L s hw [] (w_offset p)"
  proof (cases "w_offset p = hw")
    case False
    then have "unat (w_offset p) \<noteq> unat hw" by (simp add: word_unat_eq_iff)
    then obtain c where c: "fs_max_data_file_size s = Some c"
      using off by (auto simp: place_for_def split: option.splits)
    have c0: "0 < unat c" using cap c by (auto simp: cap_ok_def unat_gt_0)
    have nxt: "unat (w_offset p) = (unat hw div unat c + 1) * unat c" "unat hw mod unat c \<noteq> 0"
      using place_for_next [of c "unat hw" "w_size p"] \<open>unat (w_offset p) \<noteq> unat hw\<close> off fit [OF c] c c0
      by simp_all
    have small: "unat (w_offset p) div unat c < 2 ^ 32" using p(2) c by (simp add: small_offset_def)
    obtain j m where jm: "split_offset (Some c) hw = (j, m)" by fastforce
    have j: "unat j = unat hw div unat c" "unat m = unat hw mod unat c"
      using unat_split_offset [OF jm] small nxt(1) c0 by simp_all
    have "sealed s hw" using Cons.prems(4) False prev by (simp add: seals_def)
    then have "file_len s j \<le> unat m" using c j by (simp add: sealed_def)
    moreover have "unat m \<le> file_len s j" using Cons.prems(2) c j by (simp add: grounded_def)
    ultimately have "file_len s j = unat m" by simp
    moreover from this have "is_file s (path_for j)" using nxt(2) j(2) file_len_absent [of s j] by auto
    ultimately have "file_sizes s j = Some m" by (simp add: file_sizes_eq)
    moreover have "unat (w_offset p) + 22 < 2 ^ 64"
      using o(3,4) len unat_lt_64 [of "w_end p"] by simp
    ultimately show ?thesis using chain_over_tail [OF c c0 jm _ nxt(1) small] by blast
  qed (simp add: chain.chain_end)
  have "grounded s (w_end p)"
    by (rule grounded_block [OF Cons.prems(2) off o(4) full us p(2) o(3) cap])
  then have "grounded s e" "chain L s (w_end p) (map found ps) e"
    using Cons.IH [OF rest(1) _ _ rest(2)] Cons.prems(3) by simp_all
  then show ?case
    using chain_append [OF to_place step] chain_append by fastforce
qed

section \<open>A run\<close>

definition on_track :: "libs \<Rightarrow> 'z store_scheme \<Rightarrow> 'z store_scheme \<Rightarrow> call list \<Rightarrow> bool" where
  "on_track L s0 s cs \<longleftrightarrow>
     (\<exists>c \<in> set cs. failed c) \<or>
     (\<exists>rs. queue_ok L s0 rs s cs \<and> files_ok s0 rs s cs \<and> head_ok s0 rs s cs)"

lemma fresh_call_state: "fresh_call L c \<Longrightarrow> pending_of c = None \<and> claim c = None \<and> topped c = None \<and> handle_of c = None"
  by (cases c) auto

lemma fresh_claims: "\<forall>c \<in> set cs. fresh_call L c \<Longrightarrow> claims cs = {}"
  using fresh_call_state by (fastforce simp: claims_def)

lemma on_track_start:
  assumes j: "journal L s js" and f: "\<forall>c \<in> set cs. fresh_call L c"
  shows "on_track L s s cs"
proof -
  note fc = fresh_call_state [of L]
  have "pending_of c = None" "topped c = None" if "c \<in> set cs" for c using fc f that by blast+
  then have "queue_ok L s [] s cs" "head_ok s [] s cs"
  proof -
    assume fr: "\<And>c. c \<in> set cs \<Longrightarrow> pending_of c = None" "\<And>c. c \<in> set cs \<Longrightarrow> topped c = None"
    show "queue_ok L s [] s cs" using fr(1) by (simp add: queue_ok_def)
    have "ih_max_height (disk_header s) \<le> height_highwater s"
    proof -
      have "m \<le> top_height js m" for m
        unfolding top_height_def by (induction js arbitrary: m) (auto intro: order_trans [OF max.cobounded2])
      then show ?thesis using j by (auto simp: journal_def intro: order_trans)
    qed
    then show "head_ok s [] s cs" using j fr(2) by (simp add: head_ok_def journal_def)
  qed
  moreover have "files_ok s [] s cs"
  proof -
    have "roof s (data_highwater s)" using j by (intro laid_out_roof) (simp_all add: journal_def)
    moreover have "kept s s {}" by (simp add: kept_def free_def)
    ultimately show ?thesis using fresh_claims [OF f] by (simp add: files_ok_def seals_def)
  qed
  ultimately show ?thesis by (auto simp: on_track_def)
qed

lemma step_failed: "step_call L held c s = (k, t) \<Longrightarrow> failed c \<Longrightarrow> failed k"
  by (cases c) auto

lemma on_track_step:
  assumes tr: "on_track L s0 s cs" and st: "calls_step L (s, cs, hist) (t, ds, hist')"
    and sh: "shared_ok L C (s, cs, hist)" and ad: "addressable s" and nf: "faults s = []"
    and wa: "writes_apart cs" and low: "low_heights cs"
  shows "on_track L s0 t ds"
proof -
  from st obtain i k held where i: "i < length cs" and st: "step_call L held (cs ! i) s = (k, t)"
    and ds: "ds = cs[i := k]" by (rule calls_stepE) blast
  have k: "k \<in> set ds" using set_update_memI [OF i] ds by simp
  show ?thesis
  proof (cases "\<exists>c \<in> set cs. failed c")
    case True
    then obtain j where j: "j < length cs" "failed (cs ! j)" by (metis in_set_conv_nth)
    then have "failed (ds ! j)" using step_failed [OF st] i by (cases "j = i") (simp_all add: ds)
    moreover have "ds ! j \<in> set ds" using j(1) by (simp add: ds)
    ultimately show ?thesis unfolding on_track_def by blast
  next
    case nb: False
    then obtain rs where rs: "queue_ok L s0 rs s cs" "files_ok s0 rs s cs" "head_ok s0 rs s cs"
      using tr by (auto simp: on_track_def)
    show ?thesis
    proof (cases "failed k")
      case False
      have nb': "\<forall>c \<in> set cs. \<not> failed c" "\<not> failed (cs ! i)" using nb i by auto
      obtain rs' where q: "queue_ok L s0 (rs @ rs') t ds" "rs' = [] \<or> (\<exists>p. rs' = [p] \<and> w_prev p = data_highwater s)"
        using queue_ok_step [OF rs(1) sh ad i st wa nb'(2) False] ds by blast
      have "files_ok s0 (rs @ rs') t ds"
        unfolding ds by (rule files_ok_step [OF rs(2,1) q(2) sh ad i st nf nb'(1)])
      moreover have "head_ok s0 (rs @ rs') t ds"
        unfolding ds by (rule head_ok_step [OF rs(3,1) sh low i st nf False])
      ultimately show ?thesis using q(1) unfolding on_track_def by blast
    qed (use k in \<open>auto simp: on_track_def\<close>)
  qed
qed

lemma calls_run_on_track:
  assumes run: "(calls_step L)\<^sup>*\<^sup>* (s, cs, []) (t, ds, hist)"
    and j: "journal L s js" and a: "alive s" and s: "sound s"
    and f: "\<forall>c \<in> set cs. fresh_call L c" and wa: "writes_apart cs" and low: "low_heights cs"
    and ad: "\<forall>x. (calls_step L)\<^sup>*\<^sup>* (s, cs, []) x \<longrightarrow> addressable (fst x)"
  shows "on_track L s t ds \<and> faults t = [] \<and> own_but (set (held_by ds)) t \<and> index_locks_from s t \<and>
    index_file t = index_file s"
  using run
proof (induction "(t, ds, hist)" arbitrary: t ds hist rule: rtranclp_induct)
  case base
  have "own_but {} s" using a by (simp add: own_but_none alive_def)
  from own_but_mono [OF this] have "own_but (set (held_by cs)) s" by blast
  then show ?case using on_track_start [OF j f] a by (simp add: alive_def index_locks_from_def)
next
  case (step y)
  obtain u us hs where y: "y = (u, us, hs)" by (cases y)
  note ih = step.hyps(3) [OF y] and run = step.hyps(1) [unfolded y] and st = step.hyps(2) [unfolded y]
  have so: "store_ok s" using s a by (simp add: store_ok_def alive_def)
  note sh = calls_run_ok [OF run so f ad]
  have ok: "fs_inv u" "\<forall>c \<in> set us. call_ok L u c" using sh by (auto simp: shared_ok_def)
  have jobs: "map job us = map job cs" using calls_run_jobs(1) [OF run] .
  have "addressable u" using ad run by fastforce
  then have "on_track L s t ds"
    using on_track_step [OF _ st sh _ _ _ _] ih writes_apart_jobs [OF jobs] low_heights_jobs [OF jobs] wa low by blast
  then show ?case
    using calls_step_locks [OF st ok] ih by (auto simp: index_locks_from_def)
qed

section \<open>When all calls have returned\<close>

lemma finished_claims: "\<forall>c \<in> set ds. finished c \<Longrightarrow> claims ds = {}"
  unfolding claims_def by (auto elim!: finished.elims dest!: bspec)

lemma finished_held: "\<forall>c \<in> set ds. finished c \<Longrightarrow> set (held_by ds) = {}"
proof -
  assume f: "\<forall>c \<in> set ds. finished c"
  have "my_fds c = {}" if "finished c" for c using that by (cases c) (simp_all add: my_fds_def)
  then have "my_fds (ds ! x) = {}" if "x < length ds" for x using f nth_mem [OF that] by blast
  then show ?thesis unfolding set_held_by by simp
qed

lemma top_height_le: "top_height js m \<le> b \<longleftrightarrow> m \<le> b \<and> (\<forall>h \<in> heights_of js. h \<le> b)"
  unfolding top_height_def heights_of_def by (induction js arbitrary: m) auto

lemma chain_old:
  assumes j: "journal L s js" and k: "kept s t P" and fx: "fixed s t"
  shows "chain L t (ih_next_write_offset (disk_header s)) js (data_highwater s)"
proof -
  have cap: "fs_max_data_file_size t = fs_max_data_file_size s" using fx by (simp add: fixed_def)
  have lay: "laid_out s (data_highwater s)" using j by (simp add: journal_def)
  note l = laid_out_Some [OF lay]
  have isf: "is_file s (path_for x) \<Longrightarrow> is_file t (path_for x)" for x using k by (simp add: kept_def)
  have "chain L s (ih_next_write_offset (disk_header s)) js (data_highwater s)" using j by (simp add: journal_def)
  then show ?thesis
  proof (rule chain_kept)
    show "header t = header s" "fs_max_data_file_size t = fs_max_data_file_size s"
      using fx by (simp_all add: fixed_def)
    show "region t p n = region s p n"
      if "unsplit s p n" "length (region s p n) = n" "0 < n" "unat p + n \<le> unat (data_highwater s)" for p n
      using k that unfolding kept_def by blast
    show "file_sizes t x = file_sizes s x"
      if c: "fs_max_data_file_size s = Some c" "0 < unat c" "(unat x + 1) * unat c \<le> unat (data_highwater s)" for c x
    proof -
      have "unat x < unat (data_highwater s) div unat c"
        using c(2,3) less_eq_div_iff_mult_less_eq [of "unat c" "unat x + 1" "unat (data_highwater s)"] by simp
      then have "is_file s (path_for x)" by (rule l(2) [OF c(1)])
      moreover have "file_len t x = file_len s x" using k c cap by (simp add: kept_def)
      ultimately show ?thesis using isf by (simp add: file_sizes_eq)
    qed
  qed (use isf l in auto)
qed

lemma agrees_found:
  assumes l: "\<And>p. p \<in> set ps \<Longrightarrow> entry_at t (w_slot p) = entry_of p \<and> index_entry_offset t (w_height p) = Some (w_slot p)"
    and h: "last_found (map found ps) h = Some (off, sz)" and slot: "index_entry_offset t h = Some slot"
  shows "entry_at t slot = \<lparr>ie_offset = off, ie_size = sz, ie_reserved = 0\<rparr>"
proof -
  have "(h, off, sz) \<in> set (map found ps)"
    using map_of_SomeD [OF h [unfolded last_found_def]] by simp
  then obtain p where "p \<in> set ps" "h = w_height p" "off = w_offset p" "sz = w_len p"
    by (auto simp: found_def)
  then show ?thesis using l [of p] slot by (simp add: entry_of_def)
qed

lemma quiescent_journal:
  assumes j: "journal L s js" and q: "queue_ok L s rs t ds" and f: "files_ok s rs t ds" and h: "head_ok s rs t ds"
    and inv: "fs_inv t" and fin: "\<forall>c \<in> set ds. finished c \<and> \<not> failed c" and ad: "addressable t"
  shows "\<exists>cs'. journal L t cs'"
proof -
  have cl: "claims ds = {}" using fin finished_claims by blast
  have fx: "fixed s t" and Q: "queue (fs_max_data_file_size t) (data_highwater s) rs (data_highwater t)"
    and pok: "\<And>p. p \<in> set rs \<Longrightarrow> pending_ok L t p" and ld: "\<And>p. p \<in> set rs \<Longrightarrow> landed t {} p"
    and jb: "\<And>p. p \<in> set rs \<Longrightarrow> \<exists>c \<in> set ds. job c = Some (w_height p, w_block p) \<and> \<not> waiting c"
    and old: "\<And>h slot. h \<notin> w_height ` set rs \<Longrightarrow> index_entry_offset s h = Some slot \<Longrightarrow>
        entry_at t slot = entry_at s slot"
    using q by (auto simp: queue_ok_def cl)
  have roof: "roof t (data_highwater t)" and se: "seals t rs" and k: "kept s t {}"
    using f by (simp_all add: files_ok_def cl)
  have cap: "fs_max_data_file_size t = fs_max_data_file_size s" using fx by (simp add: fixed_def)
  have caps: "cap_ok (fs_max_data_file_size t)" using inv by (simp add: fs_inv_def)
  note order = pending_ok_order [OF pok]
  have le: "\<forall>p \<in> set rs. w_prev p \<le> w_end p" using order(1) by blast
  note between = queue_between [OF Q le]
  have blocks: "\<forall>p \<in> set ps. pending_ok L t p \<and> small_offset t (w_offset p) \<and>
      region t (w_offset p) (w_size p) = serialize (w_header p) @ w_payload p" if ps: "set ps \<subseteq> set rs" for ps
  proof
    fix p assume "p \<in> set ps"
    then have p: "p \<in> set rs" using ps by blast
    have "unat (w_offset p) \<le> unat (data_highwater t)"
      using between(2) p order(3) [OF p] by (force simp: word_le_nat_alt)
    then show "pending_ok L t p \<and> small_offset t (w_offset p) \<and>
        region t (w_offset p) (w_size p) = serialize (w_header p) @ w_payload p"
      using small_below [OF ad] pok [OF p] ld [OF p] by (simp add: landed_def)
  qed
  have seals: "seals t ps" if "set ps \<subseteq> set rs" for ps using se that by (auto simp: seals_def)
  have "grounded s (data_highwater s)" using j by (intro laid_out_grounded) (simp add: journal_def)
  from grounded_kept [OF this k cap] have g0: "grounded t (data_highwater s)" .
  note whole = queue_chain [OF Q g0 blocks [OF order_refl] se caps]
  have lay: "laid_out t (data_highwater t)"
    by (rule laid_out_between [OF roof]) (use whole small_below [OF ad order_refl] in simp_all)
  have heights: "w_height p \<le> height_highwater t" if p: "p \<in> set rs" for p
  proof -
    obtain c where c: "c \<in> set ds" "job c = Some (w_height p, w_block p)" "\<not> waiting c" using jb [OF p] by blast
    have "finished c" "\<not> failed c" using fin c(1) by blast+
    then have "topped c = Some (w_height p)" using c(2,3) by (cases c) auto
    then show ?thesis using h c(1) by (simp add: head_ok_def)
  qed
  have new: "entry_at t (w_slot p) = entry_of p \<and> index_entry_offset t (w_height p) = Some (w_slot p)"
    if "p \<in> set rs" for p
    using ld [OF that] pok [OF that] by (simp add: landed_def pending_ok_def)
  have hf: "heights_of (map found ps) = w_height ` set ps" for ps by (force simp: heights_of_def found_def)
  let ?d = "disk_header t"
  have H: "whole_entries t" "effective_max ?d = fs_max_data_file_size t"
    "effective_max (header t) = fs_max_data_file_size t" "ih_min_height ?d = ih_min_height (header t)"
    "ih_next_write_offset ?d \<in> insert (ih_next_write_offset (disk_header s)) (w_end ` set rs)"
    "ih_max_height ?d \<le> height_highwater t" "height_highwater s \<le> height_highwater t"
    "unat (height_highwater t) < 2 ^ 59" using h by (simp_all add: head_ok_def)
  have result: "\<exists>cs'. journal L t cs'"
    if "chain L t (ih_next_write_offset ?d) cs' (data_highwater t)" "index_agrees cs' t"
      "\<forall>h \<in> heights_of cs'. h \<le> height_highwater t" for cs'
    using that lay inv roof H by (auto simp: journal_def roof_def top_height_le)
  from H(5) show ?thesis
  proof (elim insertE imageE)
    assume n: "ih_next_write_offset ?d = ih_next_write_offset (disk_header s)"
    have ch: "chain L t (ih_next_write_offset ?d) (js @ map found rs) (data_highwater t)"
      unfolding n by (rule chain_append [OF chain_old [OF j k fx]]) (use whole in blast)
    have "entry_at t slot = \<lparr>ie_offset = off, ie_size = sz, ie_reserved = 0\<rparr>"
      if l: "last_found (js @ map found rs) h = Some (off, sz)" and slot: "index_entry_offset t h = Some slot"
      for h off sz slot
    proof (cases "last_found (map found rs) h")
      case None
      then have "h \<notin> w_height ` set rs" using hf by (simp add: last_found_None)
      moreover have sl: "index_entry_offset s h = Some slot" using slot fixed_cong(3) [OF fx] by simp
      moreover have "last_found js h = Some (off, sz)" using l None by (simp add: last_found_append map_add_def)
      ultimately show ?thesis using old j by (auto simp: journal_def index_agrees_def)
    next
      case (Some x)
      then have "last_found (map found rs) h = Some (off, sz)" using l by (simp add: last_found_append)
      from agrees_found [OF new this slot] show ?thesis by simp
    qed
    then have "index_agrees (js @ map found rs) t" by (simp add: index_agrees_def)
    moreover have "\<forall>h \<in> heights_of (js @ map found rs). h \<le> height_highwater t"
    proof -
      have "top_height js (ih_max_height (disk_header s)) \<le> height_highwater s" using j by (simp add: journal_def)
      then have "\<forall>h \<in> heights_of js. h \<le> height_highwater t" using H(7) by (auto simp: top_height_le intro: order_trans)
      moreover have "heights_of (js @ map found rs) = heights_of js \<union> w_height ` set rs"
        using hf by (simp add: heights_of_def image_Un)
      ultimately show ?thesis using heights by auto
    qed
    ultimately show ?thesis using result [OF ch] by blast
  next
    fix p assume p: "ih_next_write_offset ?d = w_end p" "p \<in> set rs"
    then obtain qs ps where sp: "rs = qs @ p # ps" by (meson split_list)
    then have "rs = (qs @ [p]) @ ps" by simp
    then obtain m where m: "queue (fs_max_data_file_size t) (data_highwater s) (qs @ [p]) m"
      "queue (fs_max_data_file_size t) m ps (data_highwater t)" using Q queue_append by metis
    have sub: "set (qs @ [p]) \<subseteq> set rs" "set ps \<subseteq> set rs" using sp by auto
    have "m = w_end p" using m(1) by (auto simp: queue_append)
    moreover have "grounded t m"
      using queue_chain [OF m(1) g0 blocks [OF sub(1)] seals [OF sub(1)] caps] by blast
    ultimately have "chain L t (w_end p) (map found ps) (data_highwater t)"
      using queue_chain [OF m(2) _ blocks [OF sub(2)] seals [OF sub(2)] caps] by blast
    then have ch: "chain L t (ih_next_write_offset ?d) (map found ps) (data_highwater t)" using p(1) by simp
    have "index_agrees (map found ps) t"
      unfolding index_agrees_def using agrees_found [OF new] sub(2) by blast
    moreover have "\<forall>h \<in> heights_of (map found ps). h \<le> height_highwater t"
      using hf heights sub(2) by auto
    ultimately show ?thesis using result [OF ch] by blast
  qed
qed

lemma quiescent_durable:
  assumes d: "durable_store L s" and f: "\<forall>c \<in> set cs. fresh_call L c" and wa: "writes_apart cs"
    and low: "low_heights cs" and run: "(calls_step L)\<^sup>*\<^sup>* (s, cs, []) (t, ds, hist)"
    and ad: "\<forall>x. (calls_step L)\<^sup>*\<^sup>* (s, cs, []) x \<longrightarrow> addressable (fst x)"
    and fin: "\<forall>c \<in> set ds. finished c \<and> \<not> failed c"
  shows "durable_store L t"
proof -
  obtain js where j: "journal L s js" and a: "alive s" and so: "sound s"
    using d by (auto simp: durable_store_def)
  note tr = calls_run_on_track [OF run j a so f wa low ad]
  have "shared_ok L (contents L s) (t, ds, hist)" by (rule calls_run_ok [OF run durable_store_ok [OF d] f ad])
  then have inv: "fs_inv t" and en: "\<And>h. h \<notin> spoilt ds \<Longrightarrow> entry_free t (claims ds) h"
    by (simp_all add: shared_ok_def)
  have sp: "spoilt ds = {}" using fin by (fastforce simp: spoilt_def)
  have at: "addressable t" using ad run by fastforce
  obtain rs where "queue_ok L s rs t ds" "files_ok s rs t ds" "head_ok s rs t ds"
    using tr fin by (auto simp: on_track_def)
  from quiescent_journal [OF j this inv fin at] have jt: "\<exists>js. journal L t js" .
  have "own_locks t"
  proof -
    have "set (held_by ds) = {}" using fin finished_held by blast
    then show ?thesis using tr by (simp add: own_but_none)
  qed
  moreover have "n = fd (index_file t)" if "(IndexFile, n) \<in> set (locks t)" for n
    using tr a that by (simp add: index_locks_from_def alive_def)
  ultimately have "alive t" using tr inv by (simp add: alive_def)
  moreover have "sound t"
    unfolding sound_def
  proof
    fix h
    have "entry_free t (claims ds) h" using en sp by simp
    then show "entry_ok t h"
      by (auto simp: entry_ok_def entry_free_def free_def placed_def Let_def split: option.split)
  qed
  ultimately show ?thesis using jt by (simp add: durable_store_def)
qed

text \<open>The blocks the calls were given to write.\<close>

definition blocks_of :: "call list \<Rightarrow> (u64 \<times> bytes) list" where
  "blocks_of cs = List.map_filter job cs"

lemma blocks_of_simps [simp]:
  "blocks_of [] = []"
  "blocks_of (c # cs) = (case job c of None \<Rightarrow> blocks_of cs | Some x \<Rightarrow> x # blocks_of cs)"
  by (simp_all add: blocks_of_def map_filter_simps split: option.split)

lemma set_blocks_of: "set (blocks_of cs) = {x. \<exists>c \<in> set cs. job c = Some x}"
  by (induction cs) (auto split: option.splits)

lemma writes_apart_blocks:
  assumes "distinct (map fst (blocks_of cs))" shows "writes_apart cs"
  using assms
proof (induction cs)
  case (Cons c cs)
  have tl: "distinct (map fst (blocks_of cs))" using Cons.prems by (auto split: option.splits)
  have hd: "False" if "job c = Some (h, a)" "j < length cs" "job (cs ! j) = Some (h, b)" for h a b j
  proof -
    have "(h, b) \<in> set (blocks_of cs)" using that(2,3) nth_mem by (force simp: set_blocks_of)
    then show False using Cons.prems that(1) by force
  qed
  show ?case
    unfolding writes_apart_def
  proof (intro allI impI)
    fix i j h a b
    assume "i < length (c # cs)" "j < length (c # cs)"
      "job ((c # cs) ! i) = Some (h, a)" "job ((c # cs) ! j) = Some (h, b)"
    then show "i = j"
      using hd Cons.IH [OF tl] by (cases i; cases j) (auto simp: writes_apart_def)
  qed
qed (simp add: writes_apart_def)

lemma low_heights_blocks: "heights_ok (blocks_of cs) \<Longrightarrow> low_heights cs"
  by (force simp: heights_ok_def low_heights_def set_blocks_of)

lemma quiescent_contents:
  assumes s: "store_ok s" and f: "\<forall>c \<in> set cs. fresh_call L c" and di: "distinct (map fst (blocks_of cs))"
    and run: "(calls_step L)\<^sup>*\<^sup>* (s, cs, []) (t, ds, hist)"
    and ad: "\<forall>x. (calls_step L)\<^sup>*\<^sup>* (s, cs, []) x \<longrightarrow> addressable (fst x)"
    and fin: "\<forall>c \<in> set ds. finished c \<and> \<not> failed c"
  shows "contents L t = contents L s ++ map_of (blocks_of cs)"
proof -
  have sh: "shared_ok L (contents L s) (t, ds, hist)" by (rule calls_run_ok [OF run s f ad])
  have "spoilt ds = {}" using fin by (fastforce simp: spoilt_def)
  then have c: "contents L t = contents L s ++ map_of hist" using sh by (auto simp: shared_ok_def)
  note jobs = calls_run_jobs [OF run]
  have "set hist \<subseteq> set (blocks_of cs)"
  proof
    fix x assume "x \<in> set hist"
    then have "Some x \<in> set (map job cs)" using jobs(2) by auto
    then show "x \<in> set (blocks_of cs)" by (auto simp: set_blocks_of)
  qed
  moreover have "set (blocks_of cs) \<subseteq> set hist"
  proof
    fix x assume "x \<in> set (blocks_of cs)"
    then have "Some x \<in> set (map job ds)" unfolding jobs(1) by (force simp: set_blocks_of)
    then obtain c where d: "c \<in> set ds" "job c = Some x" by auto
    have "finished c" "\<not> failed c" using fin d(1) by blast+
    then obtain h b where "c = Wrote h b (Ok ())" "x = (h, b)" using d(2) by (cases c) auto
    moreover have "log_ok L (contents L s) hist (spoilt ds) t (claims ds) c"
      using sh d(1) by (auto simp: shared_ok_def)
    ultimately show "x \<in> set hist" by simp
  qed
  ultimately have st: "set hist = set (blocks_of cs)" by blast
  have "map_of hist h = map_of (blocks_of cs) h" for h
  proof (cases "map_of hist h")
    case None
    then have "h \<notin> fst ` set hist" by (simp add: map_of_eq_None_iff)
    then have "h \<notin> fst ` set (blocks_of cs)" unfolding st .
    then have "map_of (blocks_of cs) h = None" by (simp add: map_of_eq_None_iff)
    then show ?thesis using None by simp
  next
    case (Some b)
    then have "(h, b) \<in> set (blocks_of cs)" using st map_of_SomeD by fastforce
    then show ?thesis using Some map_of_is_SomeI [OF di] by simp
  qed
  then show ?thesis using c by (simp add: fun_eq_iff map_add_def)
qed

text \<open>
  C20: threads write and read in any interleaving, no two of them the same height; every call
  returns and every write returns \<open>Ok\<close>; then the store is dropped or the process is killed. The next
  open succeeds, the store is again durable and well formed, and it holds the blocks it held before
  with those of all threads, wherever the checkpoints fell.
\<close>

theorem concurrent_session_survives:
  assumes "durable_store L s" and "\<forall>c \<in> set cs. fresh_call L c" and "distinct (map fst (blocks_of cs))"
    and "heights_ok (blocks_of cs)" and "(calls_step L)\<^sup>*\<^sup>* (s, cs, []) (t, ds, hist)"
    and "\<forall>x. (calls_step L)\<^sup>*\<^sup>* (s, cs, []) x \<longrightarrow> addressable (fst x)"
    and "\<forall>c \<in> set ds. finished c \<and> \<not> failed c" and "keeps_store opts"
  shows "\<exists>v. open_store L opts (leave_store closed t) = Opened v \<and> durable_store L v \<and> store_ok v \<and>
    contents L v = contents L s ++ map_of (blocks_of cs)"
proof -
  have "durable_store L t"
    by (rule quiescent_durable [OF assms(1,2) writes_apart_blocks [OF assms(3)] low_heights_blocks [OF assms(4)] assms(5-7)])
  from left_store_reopens [OF this assms(8)] obtain v where
    "open_store L opts (leave_store closed t) = Opened v" "durable_store L v" "contents L v = contents L t"
    by blast
  moreover have "contents L t = contents L s ++ map_of (blocks_of cs)"
    by (rule quiescent_contents [OF durable_store_ok [OF assms(1)] assms(2,3,5-7)])
  ultimately show ?thesis using durable_store_ok by auto
qed

theorem concurrent_session_survives_witness:
  "\<exists>v. open_store plain_libs default_options (leave_store False (fst three_calls_end)) = Opened v \<and>
     durable_store plain_libs v \<and> contents plain_libs v = [1 \<mapsto> [5], 2 \<mapsto> [6, 7]]"
proof -
  obtain t ds hist where e: "three_calls_end = (t, ds, hist)" by (cases three_calls_end)
  have f: "\<forall>c \<in> set three_calls. fresh_call plain_libs c" by (simp add: three_calls_def storable_plain)
  have "\<forall>c \<in> set (fst (snd three_calls_end)). finished c \<and> \<not> failed c" by code_simp
  then have fin: "\<forall>c \<in> set ds. finished c \<and> \<not> failed c" unfolding e fst_conv snd_conv .
  have d: "durable_store plain_libs small_store"
    using journal_empty [of None 1 plain_libs Async 4] empty_store_alive [of None 1 Async 4]
    by (auto simp: durable_store_def small_store_def)
  have s: "fs_inv small_store" "fs_max_data_file_size small_store = None"
    using d by (auto simp: durable_store_def alive_def) (simp add: small_store_def empty_store_def Let_def)
  have o: "keeps_store default_options"
    by (simp add: keeps_store_def default_options_def DEFAULT_MAX_DATA_FILES_def)
  have b: "blocks_of three_calls = [(1, [5]), (2, [6, 7])]" by (simp add: three_calls_def)
  have h: "distinct (map fst (blocks_of three_calls))" "heights_ok (blocks_of three_calls)"
    by (simp_all add: b heights_ok_def)
  have c: "contents plain_libs small_store = Map.empty"
    by (simp add: small_store_def empty_store_contents fun_eq_iff)
  from concurrent_session_survives [OF d f h three_calls_run [unfolded e] _ fin o, of False]
    unbounded_addressable [OF _ s(2,1) f]
  obtain v where "open_store plain_libs default_options (leave_store False t) = Opened v"
    "durable_store plain_libs v" "contents plain_libs v = contents plain_libs small_store ++ map_of (blocks_of three_calls)"
    by blast
  moreover have "map_of [(1, [5]), (2, [6, 7])] = [1 \<mapsto> [5], (2 :: u64) \<mapsto> [6, 7 :: u8]]"
    by (simp add: fun_eq_iff)
  ultimately show ?thesis by (simp add: e b c)
qed

end
