(* ===== verification/Hazards.thy ===== *)
theory Hazards
  imports ConcurrentCrash
begin

text \<open>
  What concurrency costs on this store: runs of calls that return as they should one after the
  other and do not when they overlap. A handle that was evicted while a thread uses it keeps its
  file from being opened again; a checkpoint records an end of the data behind which another writer
  is still at work; two writers of one height leave the index and the data files in disagreement;
  the hole of a writer that failed, or that was still at work, ends the recovery scan, and what was
  written behind it is overwritten after the next crash.
\<close>

section \<open>Evicted handles\<close>

definition two_files :: store where
  "two_files =
     snd (write_block plain_libs 2 [4, 5, 6] (snd (write_block plain_libs 1 [1, 2, 3] (empty_store (Some 40) 1 Async 1))))"

text \<open>
  One file may stay open. The first reader is between the lookup of its file and the read when the
  second takes the place in the cache; a third call for the same block as the first is refused,
  although no other process has the file open and every call to the system would succeed.
\<close>

theorem evicted_handle_refuses_reader:
  "fst (snd (run_calls plain_libs [0, 0, 1, 1, 2, 2, 0, 1] (two_files, [Read_call 1, Read_call 2, Read_call 1], []))) =
     [Read 1 (Ok (Some [1, 2, 3])), Read 2 (Ok (Some [4, 5, 6])), Read 1 (Err (Error WouldBlock data_lock_msg))]"
  by code_simp

section \<open>A checkpoint in front of another writer\<close>

text \<open>
  The writer of height 1024 checkpoints the end of its own block while the writer of 1025, whose
  space lies before it, is still writing. Both return \<open>Ok\<close>. After a kill the scan starts behind
  both, and the mark of heights and the contiguity counter do not know of 1025, which reads back.
\<close>

definition overtaking_end :: "unit calls" where
  "overtaking_end =
     run_calls plain_libs [0, 1, 1, 1, 1, 1, 1, 1, 1, 1, 1, 0, 0, 0, 0, 0, 0, 0, 0, 0, 0]
       (empty_store None 1024 Async 4, [Write_call 1025 [7], Write_call 1024 [8]], [])"

theorem checkpoint_overtakes_writer:
  "case overtaking_end of (s, ds, hist) \<Rightarrow>
     ds = [Wrote 1025 [7] (Ok ()), Wrote 1024 [8] (Ok ())] \<and>
     height_highwater s = 1025 \<and> max_contiguous_height s = 1025 \<and>
     (case open_store plain_libs default_options (world_of s) of
        Opened t \<Rightarrow>
          height_highwater t = 1024 \<and> max_contiguous_height t = 1024 \<and>
          fst (read_block plain_libs 1025 t) = Ok (Some [7])
      | _ \<Rightarrow> False)"
  by code_simp

section \<open>Images of a store\<close>

text \<open>
  A store with one data file, open, with given entries of the index, data and counters, and no
  checkpoint since it was created.
\<close>

definition image_store :: "io_event list \<Rightarrow> bytes \<Rightarrow> bytes \<Rightarrow> u64 \<Rightarrow> u64 \<Rightarrow> store" where
  "image_store l entries data hh mc =
     (let s = small_store
      in s\<lparr>idx_file := Some (encode_header (header s) @ entries),
           data_dir := [(''blockdb_0.dat'', RegFile data)],
           locks := [(path_for 0, 1), (IndexFile, 0)], next_fd := 2, io_log := l,
           fs_inner := \<lparr>capacity = 4, order = [0], handles = [(0, \<lparr>fd = 1, hfile = path_for 0\<rparr>)]\<rparr>,
           data_highwater := u64_of_len (length data), height_highwater := hh, max_contiguous_height := mc\<rparr>)"

lemma image_store_simps [simp]:
  "locks (image_store l es d hh mc) = [(path_for 0, 1), (IndexFile, 0)]" "next_fd (image_store l es d hh mc) = 2"
  "faults (image_store l es d hh mc) = []"
  "fs_inner (image_store l es d hh mc) = \<lparr>capacity = 4, order = [0], handles = [(0, \<lparr>fd = 1, hfile = path_for 0\<rparr>)]\<rparr>"
  "index_file (image_store l es d hh mc) = \<lparr>fd = 0, hfile = IndexFile\<rparr>"
  "fs_max_data_file_size (image_store l es d hh mc) = None"
  "data_dir (image_store l es d hh mc) = [(''blockdb_0.dat'', RegFile d)]"
  "header (image_store l es d hh mc) = header small_store"
  "idx_file (image_store l es d hh mc) = Some (encode_header (header small_store) @ es)"
  by (simp_all add: image_store_def Let_def small_store_def empty_store_def)

lemma path_0: "path_for 0 = DataFile ''blockdb_0.dat''"
  by code_simp

lemma image_store_files:
  "bytes_of (image_store l es d hh mc) (path_for 0) = d"
  "is_file (image_store l es d hh mc) (path_for i) \<longleftrightarrow> i = 0" "\<not> is_dir (image_store l es d hh mc) (path_for i)"
  "bytes_of (image_store l es d hh mc) IndexFile = encode_header (header small_store) @ es"
proof -
  show "is_file (image_store l es d hh mc) (path_for i) \<longleftrightarrow> i = 0"
  proof
    assume "is_file (image_store l es d hh mc) (path_for i)"
    then have "path_for i = path_for 0"
      by (cases "path_for i") (auto simp: is_file_def path_0 split: if_splits)
    then show "i = 0" by (simp add: path_for_inject)
  qed (simp add: is_file_def path_0)
qed (auto simp: bytes_of_def is_dir_def path_0 split: file_id.splits if_splits)

lemma image_store_alive: "alive (image_store l es d hh mc)"
  by (auto simp: alive_def fs_inv_def own_locks_def lru_inv_def cap_ok_def inner_lookup_def path_0
      split: if_splits)

lemma zread_prefix: "zread (h @ xs) 0 (length h) = h"
  by (rule nth_equalityI) (simp_all add: zread_def nth_append)

lemma image_disk_header: "disk_header (image_store l es d hh mc) = header small_store"
proof -
  have "zread (bytes_of (image_store l es d hh mc) IndexFile) 0 (length (encode_header (header small_store))) =
      encode_header (header small_store)"
    unfolding image_store_files by (rule zread_prefix)
  then show ?thesis by (simp add: disk_header_def)
qed

lemma small_header:
  "effective_max (header small_store) = None" "ih_next_write_offset (header small_store) = 0"
  "ih_min_height (header small_store) = 1" "ih_max_height (header small_store) = 0"
  by code_simp+

lemma small_slots:
  "index_entry_offset small_store 1 = Some 64" "index_entry_offset small_store 2 = Some 80"
  "index_entry_offset small_store 3 = Some 96"
  by code_simp+

lemma image_slots: "index_entry_offset (image_store l es d hh mc) = index_entry_offset small_store"
  using index_entry_offset_header [of "image_store l es d hh mc" small_store] by (simp add: fun_eq_iff)

lemma image_region: "region (image_store l es d hh mc) off n = pread d (unat off) n"
  by (simp add: region_def image_store_files)

lemma image_laid_out:
  assumes "length d < 2 ^ 64"
  shows "laid_out (image_store l es d hh mc) (u64_of_len (length d))"
    and "16 dvd length es \<Longrightarrow> whole_entries (image_store l es d hh mc)"
proof -
  have n: "''blockdb_0.dat'' = data_file_name 0" using path_0 by (simp add: path_for_def)
  have "dir_ok (image_store l es d hh mc)" by (auto simp: dir_ok_def n)
  then show "laid_out (image_store l es d hh mc) (u64_of_len (length d))"
    using assms by (simp add: laid_out_def image_store_files file_len_def unat_u64_of_len)
qed (auto simp: whole_entries_def image_store_files)

text \<open>
  The store opens again after a kill, with the index entries of the blocks the scan finds, up to
  where it stops.
\<close>

lemma image_opens:
  assumes "length d < 2 ^ 64" and "16 dvd length es" and "chain plain_libs (image_store l es d hh mc) 0 bs r"
    and "r \<le> u64_of_len (length d)"
    and "scan_stops (file_sizes (image_store l es d hh mc)) (image_store l es d hh mc) (u64_of_len (length d)) r"
    and "unat r + 22 < 2 ^ 64" and "\<forall>h \<in> heights_of bs. h \<le> 1024"
  obtains t where "open_store plain_libs default_options (world_of (image_store l es d hh mc)) = Opened t" "ready t"
    "data_highwater t = r" "fs_max_data_file_size t = None" "index_entry_offset t = index_entry_offset small_store"
    "\<And>off n. region t off n = pread d (unat off) n"
    "\<And>h slot. index_entry_offset small_store h = Some slot \<Longrightarrow> entry_at t slot =
       (case last_found bs h of Some (p, sz) \<Rightarrow> \<lparr>ie_offset = p, ie_size = sz, ie_reserved = 0\<rparr>
        | None \<Rightarrow> entry_at (image_store l es d hh mc) slot)"
proof -
  let ?s = "image_store l es d hh mc"
  have top: "unat (top_height bs 0) < 2 ^ 59"
  proof -
    have "top_height bs 0 \<le> 1024" using assms(7) by (simp add: top_height_le)
    then have "unat (top_height bs 0) \<le> unat (1024 :: u64)" by (simp only: word_le_nat_alt)
    then show ?thesis by simp
  qed
  obtain t where t: "open_store plain_libs default_options (world_of ?s) = Opened t" "ready t"
    "data_highwater t = r" "\<And>i. bytes_of t (path_for i) = bytes_of ?s (path_for i)"
    "fs_max_data_file_size t = fs_max_data_file_size ?s"
    "index_entry_offset t = index_entry_offset ?s"
    "\<And>h slot. index_entry_offset ?s h = Some slot \<Longrightarrow> entry_at t slot =
       (case last_found bs h of Some (p, sz) \<Rightarrow> \<lparr>ie_offset = p, ie_size = sz, ie_reserved = 0\<rparr>
        | None \<Rightarrow> entry_at ?s slot)"
    by (rule reopen_chain [where s = ?s and e = "u64_of_len (length d)" and r = r and cs = bs and L = plain_libs
          and opts = default_options])
      (use assms image_store_alive image_store_files(3) image_laid_out image_disk_header small_header top
        in \<open>auto simp: mended_def default_options_def DEFAULT_MAX_DATA_FILES_def\<close>)
  have "region t off n = pread d (unat off) n" for off n
    using region_cong [OF t(4,5)] image_region by (simp add: fun_eq_iff)
  then show ?thesis using that [OF t(1-3)] t(5,6,7) image_slots by simp
qed

section \<open>One height, two writers\<close>

text \<open>
  Two threads write height 1. The one that reserved its space first enters its block last, so the
  index ends with the first block and both calls return \<open>Ok\<close>.
\<close>

definition twice_end :: "unit calls" where
  "twice_end =
     run_calls plain_libs [0, 1, 1, 1, 1, 1, 1, 0, 0, 0, 0, 0, 0, 0, 0, 0, 1, 1, 1, 1]
       (small_store, [Write_call 1 [5], Write_call 1 [6, 7]], [])"

definition twice_data :: bytes where
  "twice_data =
     [1, 0, 0, 0, 0, 0, 0, 0, 1, 0, 0, 0, 5, 0, 0, 0, 0, 0, 0, 0, 1, 0, 5,
      1, 0, 0, 0, 0, 0, 0, 0, 2, 0, 0, 0, 13, 0, 0, 0, 0, 0, 0, 0, 1, 0, 6, 7]"

definition twice_store :: "io_event list \<Rightarrow> store" where
  "twice_store l = image_store l (encode_entry \<lparr>ie_offset = 0, ie_size = 1, ie_reserved = 0\<rparr>) twice_data 1 1"

lemma twice_run:
  "case twice_end of (s, ds, hist) \<Rightarrow> s = twice_store (io_log s) \<and>
     ds = [Wrote 1 [5] (Ok ()), Wrote 1 [6, 7] (Ok ())]"
  by code_simp

lemma twice_valid:
  "valid_block_at plain_libs (twice_store l) 0 1 1 [5]" "valid_block_at plain_libs (twice_store l) 23 1 2 [6, 7]"
  by code_simp+

lemma twice_chain: "chain plain_libs (twice_store l) 0 [(1, 0, 1), (1, 23, 2)] 47"
proof -
  have sz: "file_sizes (twice_store l) 0 = Some 47"
    by (simp add: file_sizes_eq file_len_def twice_store_def image_store_files twice_data_def u64_of_len_def)
  have sp: "split_offset (fs_max_data_file_size (twice_store l)) p = (0, p)" for p by (simp add: twice_store_def)
  have slot: "index_entry_offset (twice_store l) 1 = Some 64" by (simp add: twice_store_def image_slots small_slots)
  have "chain plain_libs (twice_store l) 23 [(1, 23, 2)] 47"
    by (rule chain_block [OF sp sz twice_valid(2) slot _ chain_end]) simp
  then show ?thesis by (intro chain_block [OF sp sz twice_valid(1) slot]) simp_all
qed

text \<open>
  A kill, and the scan enters the blocks in the order of their space: the block height 1 held
  while the process lived is gone, the one it had replaced is back.
\<close>

theorem later_block_comes_back:
  "case twice_end of (s, ds, hist) \<Rightarrow>
     ds = [Wrote 1 [5] (Ok ()), Wrote 1 [6, 7] (Ok ())] \<and>
     fst (read_block plain_libs 1 s) = Ok (Some [5]) \<and>
     (\<exists>t. open_store plain_libs default_options (world_of s) = Opened t \<and>
        fst (read_block plain_libs 1 t) = Ok (Some [6, 7]))"
proof -
  obtain s ds hist where e: "twice_end = (s, ds, hist)" using prod_cases3 by blast
  have r: "s = twice_store (io_log s) \<and> ds = [Wrote 1 [5] (Ok ()), Wrote 1 [6, 7] (Ok ())]"
    using twice_run unfolding e prod.case .
  have before: "fst (read_block plain_libs 1 (twice_store l)) = Ok (Some [5])" for l by code_simp
  have after: "\<exists>t. open_store plain_libs default_options (world_of (twice_store l)) = Opened t \<and>
      fst (read_block plain_libs 1 t) = Ok (Some [6, 7])" for l
  proof -
    have len: "length twice_data = 47" by (simp add: twice_data_def)
    obtain t where t: "open_store plain_libs default_options (world_of (twice_store l)) = Opened t" "ready t"
      "index_entry_offset t = index_entry_offset small_store"
      "\<And>off n. region t off n = pread twice_data (unat off) n"
      "\<And>h slot. index_entry_offset small_store h = Some slot \<Longrightarrow> entry_at t slot =
       (case last_found [(1, 0, 1), (1, 23, 2)] h of Some (p, sz) \<Rightarrow> \<lparr>ie_offset = p, ie_size = sz, ie_reserved = 0\<rparr>
        | None \<Rightarrow> entry_at (twice_store l) slot)"
      unfolding twice_store_def
      by (rule image_opens [where bs = "[(1, 0, 1), (1, 23, 2)]" and r = 47])
        (use len twice_chain [unfolded twice_store_def] in \<open>auto simp: scan_stops_def u64_of_len_def\<close>)
    have "entry_at t 64 = \<lparr>ie_offset = 23, ie_size = 2, ie_reserved = 0\<rparr>"
      using t(5) [OF small_slots(1)] by (simp add: last_found_def)
    moreover have "block_in plain_libs 2 (pread twice_data 23 24) = Ok [6, 7]" by code_simp
    ultimately have "peek plain_libs t 1 = Ok (Some [6, 7])"
      using t(3,4) small_slots(1) by (simp add: peek_def MAX_BLOCK_SIZE_def)
    moreover obtain u where "read_block plain_libs 1 t = (peek plain_libs t 1, u)"
      using t(2) by (rule read_block_ready)
    ultimately show ?thesis using t(1) by simp
  qed
  from r before [of "io_log s"] after [of "io_log s"] show ?thesis
    unfolding e prod.case by metis
qed

section \<open>Holes\<close>

text \<open>
  Two writers. The first has reserved its space; the second reserves behind it, writes, and
  returns \<open>Ok\<close>. In \<open>cut_end\<close> the first is still at work, in \<open>hole_end\<close> its write has failed and
  could not give the space back.
\<close>

definition cut_end :: "unit calls" where
  "cut_end =
     run_calls plain_libs [0, 1, 1, 1, 1, 1, 1, 1, 1, 1] (small_store, [Write_call 1 [5], Write_call 2 [6, 7]], [])"

definition hole_end :: "unit calls" where
  "hole_end =
     run_calls plain_libs [0, 1, 0, 0, 1, 0, 1, 1, 1, 1, 1, 1, 1, 1]
       (small_store\<lparr>faults := [NoFault, NoFault, Fault (Error InvalidInput ''no space left'') 0]\<rparr>,
        [Write_call 1 [5], Write_call 2 [6, 7]], [])"

definition hole_data :: bytes where
  "hole_data = replicate 23 0 @ [2, 0, 0, 0, 0, 0, 0, 0, 2, 0, 0, 0, 13, 0, 0, 0, 0, 0, 0, 0, 1, 0, 6, 7]"

definition hole_store :: "io_event list \<Rightarrow> store" where
  "hole_store l =
     image_store l (replicate 16 0 @ [23, 0, 0, 0, 0, 0, 0, 0, 2, 0, 0, 0, 0, 0, 0, 0]) hole_data 2 0"

lemma cut_run:
  "case cut_end of (s, ds, hist) \<Rightarrow> s = hole_store (io_log s) \<and> ds ! 1 = Wrote 2 [6, 7] (Ok ())"
  by code_simp

lemma hole_run:
  "case hole_end of (s, ds, hist) \<Rightarrow> s = hole_store (io_log s) \<and> ds ! 1 = Wrote 2 [6, 7] (Ok ())"
  by code_simp

text \<open>The space of the first writer holds zeros, which no block starts with.\<close>

lemma hole_scan_stops: "scan_stops (file_sizes (hole_store l)) (hole_store l) 47 0"
proof -
  have "rejected_header (hole_store l) (header_of (take 22 hole_data))"
    by code_simp
  then show ?thesis
    by (simp add: scan_stops_def hole_store_def image_region pread_def file_sizes_def image_store_files
        hole_data_def size_of_def u64_of_len_def split: option.split)
qed

lemma hole_store_entry: "entry_at (hole_store l) 80 = \<lparr>ie_offset = 23, ie_size = 2, ie_reserved = 0\<rparr>"
  by code_simp

lemma hole_store_opens:
  obtains t where "open_store plain_libs default_options (world_of (hole_store l)) = Opened t" "ready t"
    "data_highwater t = 0" "fs_max_data_file_size t = None" "index_entry_offset t = index_entry_offset small_store"
    "entry_at t 80 = \<lparr>ie_offset = 23, ie_size = 2, ie_reserved = 0\<rparr>" "peek plain_libs t 2 = Ok (Some [6, 7])"
proof -
  have len: "length hole_data = 47" by (simp add: hole_data_def)
  obtain t where t: "open_store plain_libs default_options (world_of (hole_store l)) = Opened t" "ready t"
    "data_highwater t = 0" "fs_max_data_file_size t = None" "index_entry_offset t = index_entry_offset small_store"
    "\<And>off n. region t off n = pread hole_data (unat off) n"
    "\<And>h slot. index_entry_offset small_store h = Some slot \<Longrightarrow> entry_at t slot =
       (case last_found [] h of Some (p, sz) \<Rightarrow> \<lparr>ie_offset = p, ie_size = sz, ie_reserved = 0\<rparr>
        | None \<Rightarrow> entry_at (hole_store l) slot)"
    unfolding hole_store_def
    by (rule image_opens [where bs = "[]" and r = 0])
      (use len hole_scan_stops [unfolded hole_store_def] in \<open>auto simp: u64_of_len_def heights_of_def intro: chain_end\<close>)
  have en: "entry_at t 80 = \<lparr>ie_offset = 23, ie_size = 2, ie_reserved = 0\<rparr>"
    using t(7) [OF small_slots(2)] hole_store_entry by (simp add: last_found_def)
  moreover have "block_in plain_libs 2 (pread hole_data 23 24) = Ok [6, 7]" by code_simp
  ultimately have "peek plain_libs t 2 = Ok (Some [6, 7])"
    using t(5,6) small_slots(2) by (simp add: peek_def MAX_BLOCK_SIZE_def)
  then show ?thesis using that [OF t(1-5) en] by simp
qed

text \<open>Without a bound on the files a write goes to the end of the data.\<close>

lemma unbounded_write:
  assumes w: "write_block L h block s = (Ok (), t)" and inv: "fs_inv s"
    and cap: "fs_max_data_file_size s = None"
  obtains payload len where "compress L block = Ok payload"
    "region t (data_highwater s) (22 + length payload) = serialize (block_header_of L h block len) @ payload"
    "\<And>h' slot. h' \<noteq> h \<Longrightarrow> index_entry_offset s h' = Some slot \<Longrightarrow> entry_at t slot = entry_at s slot"
proof -
  obtain payload len slot off where st: "compress L block = Ok payload"
    "region t off (22 + length payload) = serialize (block_header_of L h block len) @ payload"
    "unat (data_highwater t) = unat off + 22 + length payload"
    using w inv cap by (elim write_Ok_stored) (auto simp: addressable_def)
  from w inv show ?thesis
  proof (cases rule: write_Ok_commit)
    case (1 payload' len' slot' n off' new i local u fs)
    let ?v = "log_write IndexFile (unat slot')
       (encode_entry \<lparr>ie_offset = off', ie_size = len', ie_reserved = 0\<rparr>) (u\<lparr>faults := fs\<rparr>)"
    note q = 1(1) [unfolded write_request_def]
    have bk: "bookkeeping ?v t" using finish_write_bookkeeping(1) [OF 1(6)] .
    have u: "data_highwater u = new" "entry_at u = entry_at s"
      using store_fields(1) [of u "s\<lparr>data_highwater := new\<rparr>"] 1(4) entry_at_data_written [OF 1(4)]
      by (simp_all add: data_written_def)
    have "data_highwater t = new" using bk u(1) by (simp add: bookkeeping_def same_blocks_def)
    moreover have "off' = data_highwater s"
      using 1(2) cap by (auto simp: reserve_space_None io_bind_Ok_iff io_simps)
    moreover have "unat new = unat off' + unat n" using placed_reserved(2) [OF 1(2) inv] .
    ultimately have off: "off = data_highwater s"
      using st(1,3) q by (simp add: word_unat_eq_iff)
    have "entry_at t sl = entry_at s sl" if "h' \<noteq> h" "index_entry_offset s h' = Some sl" for h' sl
    proof -
      have "unat slot' + 16 \<le> unat sl \<or> unat sl + 16 \<le> unat slot'"
        using index_slots_apart that q by metis
      then have "entry_at ?v sl = entry_at s sl" using u(2) by (subst entry_kept) auto
      then show ?thesis
        using bookkeeping_entry_at [OF bk] index_entry_offset_ge [OF that(2)] by simp
    qed
    then show ?thesis using that st off by blast
  qed
qed

lemma overwritten_peek:
  assumes "index_entry_offset s h = Some slot" and "fs_max_data_file_size s = None"
    and "entry_at s slot = \<lparr>ie_offset = 23, ie_size = 2, ie_reserved = 0\<rparr>"
    and "region s 0 62 = hdr @ replicate 40 255" and "length hdr = 22"
  shows "peek plain_libs s h = Err (Error InvalidData ''block size in index file does not match data'')"
proof -
  have "region s 23 24 = take 24 (drop 23 (region s 0 62))"
    using assms(2) by (simp add: region_def pread_def take_drop min_def)
  then have "region s 23 24 = replicate 24 255" using assms(4,5) by simp
  moreover have "block_in plain_libs 2 (replicate 24 255) =
      Err (Error InvalidData ''block size in index file does not match data'')"
    by code_simp
  ultimately show ?thesis
    using assms(1,3) by (simp add: peek_def MAX_BLOCK_SIZE_def)
qed

text \<open>An acknowledged block that the store still has after the next open, and loses to the next write.\<close>

definition loses_block :: "store \<Rightarrow> bool" where
  "loses_block s \<longleftrightarrow>
     (\<exists>t u. open_store plain_libs default_options (world_of s) = Opened t \<and>
        fst (read_block plain_libs 2 t) = Ok (Some [6, 7]) \<and>
        write_block plain_libs 3 (replicate 40 255) t = (Ok (), u) \<and>
        fst (read_block plain_libs 2 u) =
          Err (Error InvalidData ''block size in index file does not match data''))"

lemma hole_store_loses: "loses_block (hole_store l)"
proof -
  obtain t where t: "open_store plain_libs default_options (world_of (hole_store l)) = Opened t" "ready t"
    "data_highwater t = 0" "fs_max_data_file_size t = None" "index_entry_offset t = index_entry_offset small_store"
    "entry_at t 80 = \<lparr>ie_offset = 23, ie_size = 2, ie_reserved = 0\<rparr>" "peek plain_libs t 2 = Ok (Some [6, 7])"
    by (rule hole_store_opens) blast
  have c: "compress plain_libs (replicate 40 255) = Ok (replicate 40 255)" by code_simp
  have rq: "write_request plain_libs t 3 (replicate 40 255) (replicate 40 255) 40 96 62"
    using c t(5) small_slots(3) by (simp add: write_request_def)
  obtain u where u: "write_block plain_libs 3 (replicate 40 255) t = (Ok (), u)" "ready u"
    by (rule write_block_ready [OF t(2) rq]) (use t(3,4) in \<open>simp_all add: room_def\<close>)
  have sl: "index_entry_offset t 2 = Some 80" using t(5) small_slots(2) by simp
  have inv: "fs_inv t" using t(2) by (simp add: ready_def)
  obtain payload len where p: "compress plain_libs (replicate 40 255) = Ok payload"
    "region u 0 (22 + length payload) = serialize (block_header_of plain_libs 3 (replicate 40 255) len) @ payload"
    "\<And>h' slot. h' \<noteq> 3 \<Longrightarrow> index_entry_offset t h' = Some slot \<Longrightarrow> entry_at u slot = entry_at t slot"
    using unbounded_write [OF u(1) inv t(4)] t(3) by metis
  note k = write_block_fs_inv(2,3) [OF u(1) inv]
  have "peek plain_libs u 2 = Err (Error InvalidData ''block size in index file does not match data'')"
    by (rule overwritten_peek [where slot = 80])
      (use c p k t(4,6) sl index_entry_offset_header [OF k(1)] p(3) [OF _ sl] in auto)
  moreover obtain v where "read_block plain_libs 2 t = (peek plain_libs t 2, v)"
    using t(2) by (rule read_block_ready)
  moreover obtain w where "read_block plain_libs 2 u = (peek plain_libs u 2, w)"
    using u(2) by (rule read_block_ready)
  ultimately show ?thesis using t(1,7) u(1) by (simp add: loses_block_def)
qed


end
