(* ===== verification/Spec2Isabelle.thy ===== *)
theory Spec2Isabelle
  imports StoreContract Allocation Fresh FfiClient Cli Contiguity Guarantees Lifetimes Races Hazards
begin

text \<open>
  A verification development for the block store: an append-only store of blocks by height, its
  read-through cache, its C interface and its command-line tool.

  \<^bold>\<open>The program.\<close> A \<open>Store\<close> (\<open>blockstore/src/store.rs\<close>) keeps an index file with a fixed header
  and one 16-byte entry per height, and data files with the compressed blocks behind 22-byte
  headers. A write reserves space under the high-water mark, writes payload and header, enters the
  block into the index and raises three counters; now and then it writes the counters to the
  header of the index (a checkpoint). Opening a store replays the blocks behind the last
  checkpoint into the index. \<open>FileSet\<close> (\<open>file_set.rs\<close>) maps offsets to data files and keeps a
  bounded number of them open, each under an advisory lock. \<open>CachedStore\<close> (\<open>cached_store.rs\<close>)
  puts an LRU cache in front of a store. \<open>blockstore-ffi\<close> exports both kinds of store to C as
  opaque handles; \<open>blockstore-cli\<close> gets, copies and imports blocks.

  \<^bold>\<open>Where the model of each part is.\<close>
  \<^item> Base, Bytes, Effects: machine integers with the checked and saturating operations, byte
    strings, \<open>Result\<close> with panics as a third outcome, the state-passing combinators.
  \<^item> Disk: the system calls the store makes, as operations on a record \<open>world\<close> of file contents,
    locks and descriptors. Any call may fail: the field \<open>faults\<close> is the script of the failures
    to come, and a failing write may have put down any prefix of its bytes.
  \<^item> FileSet (\<open>file_set.rs\<close>, and the layout check and the cleaning of a directory in
    \<open>store.rs\<close>): record \<open>fset\<close>, \<open>get_or_open\<close>, \<open>fs_resolve\<close>, \<open>split_offset\<close>,
    \<open>list_on_disk\<close>, \<open>validate_layout\<close>.
  \<^item> Layout, Codec, Store (\<open>store.rs\<close>): the formats; \<open>compress\<close> and \<open>decompress\<close>; record
    \<open>store\<close>, which extends \<open>fset\<close>, with \<open>write_block\<close>, \<open>read_block\<close>, \<open>reserve_space\<close>,
    \<open>checkpoint\<close> and what they call.
  \<^item> Calls (\<open>store.rs\<close>, \<open>file_set.rs\<close>): \<open>write_block\<close> and \<open>read_block\<close> of several threads, cut at
    every access to what they share: a datatype \<open>call\<close> for the point a call has reached,
    \<open>step_call\<close>, and the step relation \<open>calls_step\<close>.
  \<^item> Recovery (\<open>store.rs\<close>): \<open>open_store\<close>, \<open>recover\<close> with the scan of the data files and of the
    index, \<open>drop_store\<close>.
  \<^item> Cached (\<open>cached_store.rs\<close>): record \<open>cached_store\<close>, \<open>cached_open\<close>, \<open>cached_read_block\<close>,
    \<open>cached_write_block\<close>; Races holds the same calls cut at their locks.
  \<^item> Values, Ffi (\<open>blockstore-ffi/src\<close>): the values that cross the boundary, the heap of boxes
    they live in, one function per exported function.
  \<^item> Cli, Import (\<open>blockstore-cli/src\<close>): the commands from their parsed arguments on, and the
    import of a LevelDB database.

  Definitions carry the names of the source; \<open>inner\<close>, \<open>fset\<close>, \<open>cli_\<close> and \<open>cached_\<close> mark those
  whose name is taken. An operation on a store is a function from the store to a result and a
  store, and a sequence of calls is the composition of the functions.

  \<^bold>\<open>The abstract store.\<close> Blocks defines what the bytes on disk mean: \<open>peek\<close>, the result of a
  read, \<open>contents\<close>, the finite map from heights to blocks, and the invariant \<open>sound\<close>. The locale
  \<open>block_map\<close> (StoreContract) states what a client relies on: reads return the map and change
  nothing, a write that returns \<open>Ok\<close> is the update of the map at one height. It is interpreted on
  the store (\<open>store\<close>), the cached store (\<open>cached\<close>) and the handles of the C interface
  (\<open>handle\<close>). \<open>durable_map\<close> (Lifetimes) extends it by leaving and opening again and is
  interpreted on the store and the cached store; \<open>handle_cache\<close> (FileSet) is the contract of the
  cache of open files, interpreted on the cache of \<open>file_set.rs\<close>.

  \<^bold>\<open>What the lemmas show.\<close>
  \<^item> WriteRead, StoreContract: what each stage of a write does to the map, whichever call fails;
    from it the refinement of the map, reads that are never wrong, heights that never disturb
    each other.
  \<^item> Allocation: where a block goes, and that the blocks of interleaved writers never overlap.
  \<^item> RecoveryScan, FloorScan, CrashSafety, Journal: the blocks behind the last checkpoint form a
    chain that every write extends and a checkpoint cuts; the recovery loop walks the chain,
    terminates, and writes the same index again; the scan of the index finds the contiguity floor.
  \<^item> Reopen, Fresh, TornWrite, Lifetimes: a store left by \<open>Drop\<close>, by a kill between two calls,
    or by a kill in the middle of a write opens again with exactly the blocks it should have, over
    any number of lives, bare or cached; a truncating open is empty; a second open is refused.
  \<^item> Calls, Shared, Interleaved: a call nobody interrupts is \<open>write_block\<close> or \<open>read_block\<close>; any
    interleaving of calls, failures included, is a sequence of map updates in the order of the
    index entries. Gapless: interleaved writers leave the contiguity counter exact.
  \<^item> SharedDisk, Quiescence, ConcurrentCrash: what a step leaves on disk; once all calls of a
    run returned \<open>Ok\<close>, \<open>Drop\<close> or a kill and the next open keep the blocks of all threads, if no
    two wrote one height.
  \<^item> Hazards: runs that overlapping calls spoil (an evicted handle in use, a checkpoint in front of
    a writer, two writers of one height, a hole behind which acknowledged blocks are overwritten
    after a kill).
  \<^item> Contiguity: what the contiguity counter counts. Resilience: the invariant under failing
    calls, the retry of a failed write, the errors of a write. Guarantees: formats, file names,
    offsets, the window of the scan, the bound on open files.
  \<^item> Cached, Races: coherence of the cache, sequentially and for interleaved readers and writers,
    with the two situations in which it is lost.
  \<^item> FfiClient, Cli, Import: a client that keeps the rules never meets undefined behaviour and
    leaks nothing; a copy is a restriction of its source; an import writes what it matched.

  \<^bold>\<open>Bounds and hypotheses.\<close> The theorems about reopening take heights below \<open>2 ^ 59\<close>, so that an
  index offset (16 bytes an entry) is far from the end of 64 bits; data files whose index fits in 32
  bits (\<open>addressable\<close>, \<open>roomy\<close>); compressed blocks of at most \<open>2 ^ 30\<close> bytes, the reader's
  limit; and a data file size other than 0, which the type excludes, and \<open>u64::MAX\<close>, which stands
  for unbounded. There is no fuel: every loop is a total function. The recovery loop ends because
  each turn raises the offset it works from (\<open>recovery_advances\<close>), the cascade of the contiguity
  counter because the heights end.

  \<^bold>\<open>What is a parameter.\<close> zstd, snappy and xxHash (\<open>libs\<close>, with decompression inverse to
  compression where a theorem needs it), the lru-mem cache (\<open>lru\<close>, with \<open>lru_lawful\<close>), the
  LevelDB database and the RLP encoder (\<open>leveldb\<close>). Each has a concrete instance, on which the
  witnesses run.

  \<^bold>\<open>What the model leaves out.\<close> The index file is kept apart from the directory of the data files;
  its name is never that of a data file, so the model fits one directory as well as two. The
  paths in the messages of errors are left out.
  Bytes a call has written are on disk: the model has processes that die, not machines that lose
  power. A checkpoint's 64-byte header write is whole in the claim about torn writes. Theories about
  one caller take a call as one step; Calls cuts it at every shared access, a checkpoint excepted,
  and takes those accesses, positional reads and writes and the operations on atomics, to be
  sequentially consistent, which relaxed atomics do not promise across locations.

  \<^bold>\<open>Not modelled.\<close> Metrics, progress messages, \<open>Debug\<close> and \<open>Display\<close> instances, re-exports and
  module declarations, argument parsing and hex output, the Go side of the C interface, benchmarks
  and build scripts: pure output, glue, or another language.
\<close>

end
